(* ===== verification/LSM_Prelude.thy ===== *)
theory LSM_Prelude
  imports Main "HOL-Library.Word" "HOL-Library.List_Lexorder" "HOL-Library.Sublist"
begin

text \<open>
  Shared vocabulary of the tiny-lsm-kv development.

  \<^item> The machine types of the C++ code: a \<^verbatim>\<open>char\<close> is an 8-bit word, \<^verbatim>\<open>std::string\<close> and
    \<^verbatim>\<open>std::string_view\<close> are lists of them, \<^verbatim>\<open>uint32_t\<close> and \<^verbatim>\<open>uint64_t\<close> (also \<^verbatim>\<open>size_t\<close>
    where it is stored or can wrap) are words of that width. \<^verbatim>\<open>std::string\<close>'s operators
    compare bytes as unsigned values, lexicographically: that is the order
    \<^theory_text>\<open>List_Lexorder\<close> gives to lists of words.
  \<^item> \<^verbatim>\<open>std::map\<close> as an association list with strictly increasing keys: the functions
    \<open>map_assign\<close>, \<open>lower_bound\<close> and \<^const>\<open>map_of\<close> are the member functions the code uses.
  \<^item> The abstract store the whole development is compared with: a partial function from
    keys to values, and what it means for a list to be the answer of a range scan of it.
\<close>

named_theorems lsm_simps "rewrites every component of the model may unfold"
named_theorems std_map_simps "laws of the std::map model"

type_synonym byte = "8 word"
type_synonym bytes = "byte list"
type_synonym u32 = "32 word"
type_synonym u64 = "64 word"

text \<open>A string literal of the source, as bytes.\<close>

definition ascii :: "string \<Rightarrow> bytes" where
  "ascii str = map of_char str"

text \<open>\<^verbatim>\<open>std::isspace\<close> in the C locale.\<close>

definition isspace :: "byte \<Rightarrow> bool" where
  "isspace c \<longleftrightarrow> c = 32 \<or> 9 \<le> c \<and> c \<le> 13"

section \<open>Lists\<close>

lemma length_concat_map_ge:
  assumes "\<And>x. x \<in> set xs \<Longrightarrow> c \<le> length (f x)"
  shows "c * length xs \<le> length (concat (map f xs))"
  using assms
proof (induction xs)
  case Nil
  then show ?case by simp
next
  case (Cons x xs)
  then have "c \<le> length (f x)" and "c * length xs \<le> length (concat (map f xs))" by auto
  then show ?case by simp
qed

lemma drop_concat_map:
  "drop (length (concat (map f (take i xs)))) (concat (map f xs)) = concat (map f (drop i xs))"
proof -
  have "concat (map f xs) = concat (map f (take i xs)) @ concat (map f (drop i xs))"
    by (metis append_take_drop_id concat_append map_append)
  then show ?thesis by (metis append_eq_conv_conj)
qed

lemma take_concat_map:
  "take (length (concat (map f (take i xs)))) (concat (map f xs)) = concat (map f (take i xs))"
proof -
  have "concat (map f xs) = concat (map f (take i xs)) @ concat (map f (drop i xs))"
    by (metis append_take_drop_id concat_append map_append)
  then show ?thesis by (metis append_eq_conv_conj)
qed

lemma slice_concat_map:
  assumes "i \<le> j"
  shows "take (length (concat (map f (take j xs))) - length (concat (map f (take i xs))))
           (drop (length (concat (map f (take i xs)))) (concat (map f xs)))
         = concat (map f (take (j - i) (drop i xs)))"
proof -
  have "take j xs = take i xs @ take (j - i) (drop i xs)"
    using assms by (metis le_add_diff_inverse take_add)
  then have len: "length (concat (map f (take j xs))) - length (concat (map f (take i xs)))
      = length (concat (map f (take (j - i) (drop i xs))))"
    by simp
  show ?thesis
    by (simp only: len drop_concat_map take_concat_map)
qed

lemma length_concat_take_mono:
  assumes "i \<le> j"
  shows "length (concat (map f (take i xs))) \<le> length (concat (map f (take j xs)))"
proof -
  have "take j xs = take i xs @ take (j - i) (drop i xs)"
    using assms by (metis le_add_diff_inverse take_add)
  then show ?thesis by simp
qed

lemma length_concat_take_le:
  "length (concat (map f (take i xs))) \<le> length (concat (map f xs))"
  using length_concat_take_mono [of i "max i (length xs)" f xs] by simp

section \<open>std::map as a strictly sorted association list\<close>

definition sorted_keys :: "('k::linorder \<times> 'v) list \<Rightarrow> bool" where
  "sorted_keys m \<longleftrightarrow> sorted_wrt (<) (map fst m)"

text \<open>\<^verbatim>\<open>m[key] = v\<close>, and \<^verbatim>\<open>emplace\<close> or assignment through an iterator.\<close>

fun map_assign :: "'k::linorder \<Rightarrow> 'v \<Rightarrow> ('k \<times> 'v) list \<Rightarrow> ('k \<times> 'v) list" where
  "map_assign k v [] = [(k, v)]"
| "map_assign k v ((x, y) # m) =
     (if k < x then (k, v) # (x, y) # m
      else if k = x then (k, v) # m
      else (x, y) # map_assign k v m)"

text \<open>\<^verbatim>\<open>lower_bound(key)\<close>: the entries from the first key that is not less than \<open>k\<close>.\<close>

fun lower_bound :: "'k::linorder \<Rightarrow> ('k \<times> 'v) list \<Rightarrow> ('k \<times> 'v) list" where
  "lower_bound k [] = []"
| "lower_bound k ((x, y) # m) = (if x < k then lower_bound k m else (x, y) # m)"

text \<open>Assigning a sequence of pairs, one after the other.\<close>

definition map_assign_all :: "('k::linorder \<times> 'v) list \<Rightarrow> ('k \<times> 'v) list \<Rightarrow> ('k \<times> 'v) list" where
  "map_assign_all es m = fold (\<lambda>(k, v) acc. map_assign k v acc) es m"

lemma sorted_keys_Nil [simp, std_map_simps]: "sorted_keys []"
  by (simp add: sorted_keys_def)

lemma sorted_keys_Cons [simp, std_map_simps]:
  "sorted_keys (p # m) \<longleftrightarrow> (\<forall>q \<in> set m. fst p < fst q) \<and> sorted_keys m"
  by (auto simp: sorted_keys_def)

lemma sorted_keys_append:
  "sorted_keys (m @ n) \<longleftrightarrow>
     sorted_keys m \<and> sorted_keys n \<and> (\<forall>p \<in> set m. \<forall>q \<in> set n. fst p < fst q)"
  by (auto simp: sorted_keys_def sorted_wrt_append)

lemma sorted_keys_distinct: "sorted_keys m \<Longrightarrow> distinct (map fst m)"
  by (simp add: sorted_keys_def strict_sorted_iff)

lemma sorted_keys_filter: "sorted_keys m \<Longrightarrow> sorted_keys (filter P m)"
  by (induction m) auto

lemma sorted_keys_take: "sorted_keys m \<Longrightarrow> sorted_keys (take n m)"
  by (metis append_take_drop_id sorted_keys_append)

lemma sorted_keys_drop: "sorted_keys m \<Longrightarrow> sorted_keys (drop n m)"
  by (metis append_take_drop_id sorted_keys_append)

lemma sorted_keys_map_of:
  "sorted_keys m \<Longrightarrow> (k, v) \<in> set m \<longleftrightarrow> map_of m k = Some v"
  by (metis map_of_SomeD map_of_is_SomeI sorted_keys_distinct)

lemma map_of_below: "(\<forall>q \<in> set m. (k::'k::linorder) < fst q) \<Longrightarrow> map_of m k = None"
  by (induction m) auto

lemma set_map_assign_subset: "set (map_assign k v m) \<subseteq> insert (k, v) (set m)"
  by (induction m) (auto split: if_splits)

lemma map_of_map_assign [simp, std_map_simps]:
  "map_of (map_assign k v m) = (map_of m)(k \<mapsto> v)"
  by (induction m) (auto simp: fun_eq_iff)

lemma sorted_keys_map_assign [simp, std_map_simps]:
  "sorted_keys m \<Longrightarrow> sorted_keys (map_assign k v m)"
proof (induction m)
  case Nil
  then show ?case by simp
next
  case (Cons p m)
  obtain x y where p: "p = (x, y)" by force
  have "\<forall>q \<in> set (map_assign k v m). x < fst q" if "x < k"
    using that Cons.prems p set_map_assign_subset [of k v m] by auto
  with Cons p show ?case by (auto dest: less_trans)
qed

lemma map_of_map_assign_all [simp, std_map_simps]:
  "map_of (map_assign_all es m) = map_of m ++ map_of (rev es)"
  unfolding map_assign_all_def
  by (induction es arbitrary: m) (auto simp: map_add_def fun_eq_iff split: option.splits)

lemma sorted_keys_map_assign_all [simp, std_map_simps]:
  "sorted_keys m \<Longrightarrow> sorted_keys (map_assign_all es m)"
  unfolding map_assign_all_def
  by (induction es arbitrary: m) auto

lemma set_map_assign_all_subset: "set (map_assign_all es m) \<subseteq> set es \<union> set m"
  unfolding map_assign_all_def
proof (induction es arbitrary: m)
  case Nil
  then show ?case by simp
next
  case (Cons p es)
  obtain k v where p: "p = (k, v)" by force
  show ?case
    using Cons.IH [of "map_assign k v m"] set_map_assign_subset [of k v m] p by auto
qed

lemma map_of_rev_sorted: "sorted_keys m \<Longrightarrow> map_of (rev m) = map_of m"
  by (intro map_of_inject_set [THEN iffD2]) (auto dest: sorted_keys_distinct simp: rev_map [symmetric])

lemma lower_bound_eq_filter:
  "sorted_keys m \<Longrightarrow> lower_bound k m = filter (\<lambda>p. k \<le> fst p) m"
proof (induction m)
  case Nil
  then show ?case by simp
next
  case (Cons p m)
  obtain x y where p: "p = (x, y)" by force
  show ?case
  proof (cases "x < k")
    case True
    with Cons p show ?thesis by (simp add: leD)
  next
    case False
    then have "filter (\<lambda>p. k \<le> fst p) m = m"
      using Cons.prems p by (intro filter_True) force
    with False p show ?thesis by simp
  qed
qed

lemma takeWhile_below_eq_filter:
  "sorted_keys m \<Longrightarrow> takeWhile (\<lambda>p. fst p < e) m = filter (\<lambda>p. fst p < e) m"
proof (induction m)
  case Nil
  then show ?case by simp
next
  case (Cons p m)
  show ?case
  proof (cases "fst p < e")
    case True
    with Cons show ?thesis by simp
  next
    case False
    then have "filter (\<lambda>p. fst p < e) m = []"
      using Cons.prems by (force simp: filter_empty_conv)
    with False show ?thesis by simp
  qed
qed

text \<open>A strictly sorted association list is determined by the map it represents.\<close>

lemma sorted_keys_unique:
  assumes "sorted_keys m" and "sorted_keys n" and "map_of m = map_of n"
  shows "m = n"
proof -
  have sets: "set m = set n"
    using assms sorted_keys_map_of [of m] sorted_keys_map_of [of n] by auto
  have inj: "inj_on fst (set m)"
    using assms(1) by (metis distinct_map sorted_keys_distinct)
  have "map fst m = map fst n"
    using assms(1,2) sets unfolding sorted_keys_def
    by (intro strict_sorted_equal) auto
  then show ?thesis
    using inj sets by (metis map_inj_on sup.idem)
qed

section \<open>The abstract key-value store\<close>

text \<open>
  What \<^verbatim>\<open>kv_store.h\<close> promises: a partial function from keys to values, and a range scan
  that lists its live entries with \<open>start \<le> key < end\<close> in ascending key order.
\<close>

type_synonym store = "bytes \<rightharpoonup> bytes"

definition range_of :: "store \<Rightarrow> bytes \<Rightarrow> bytes \<Rightarrow> (bytes \<times> bytes) list \<Rightarrow> bool" where
  "range_of m start e res \<longleftrightarrow>
     sorted_keys res \<and>
     (\<forall>k v. (k, v) \<in> set res \<longleftrightarrow> m k = Some v \<and> start \<le> k \<and> k < e)"

lemma range_of_unique:
  assumes "range_of m s e r1" and "range_of m s e r2"
  shows "r1 = r2"
proof (rule sorted_keys_unique)
  show s1: "sorted_keys r1" and s2: "sorted_keys r2"
    using assms by (auto simp: range_of_def)
  have "set r1 = set r2"
    using assms by (auto simp: range_of_def)
  then show "map_of r1 = map_of r2"
    using s1 s2 by (metis map_of_inject_set sorted_keys_distinct)
qed

end
