(* ===== verification/Byte_Util.thy ===== *)
theory Byte_Util
  imports LSM_Prelude
begin

unbundle bit_operations_syntax

text \<open>
  \<^verbatim>\<open>src/byte_util.h\<close>: the little-endian integer codecs shared by the record format and the
  SSTable format. The writers append to an output string, the readers take the bytes at a
  pointer. A reader looks at its first four (eight) bytes only; every caller of the code
  checks that they exist.
\<close>

definition PutUint32LE :: "bytes \<Rightarrow> u32 \<Rightarrow> bytes" where
  "PutUint32LE out v =
     out @ [ucast (v AND 0xFF),
            ucast (drop_bit 8 v AND 0xFF),
            ucast (drop_bit 16 v AND 0xFF),
            ucast (drop_bit 24 v AND 0xFF)]"

definition GetUint32LE :: "bytes \<Rightarrow> u32" where
  "GetUint32LE bs =
     (ucast (bs ! 0)) OR
     (push_bit 8 (ucast (bs ! 1))) OR
     (push_bit 16 (ucast (bs ! 2))) OR
     (push_bit 24 (ucast (bs ! 3)))"

definition PutUint64LE :: "bytes \<Rightarrow> u64 \<Rightarrow> bytes" where
  "PutUint64LE out v = fold (\<lambda>i out. out @ [ucast (drop_bit (8 * i) v AND 0xFF)]) [0..<8] out"

definition GetUint64LE :: "bytes \<Rightarrow> u64" where
  "GetUint64LE bs = fold (\<lambda>i v. v OR push_bit (8 * i) (ucast (bs ! i))) [0..<8] 0"

section \<open>Lengths and frames\<close>

lemma length_PutUint32LE [simp]: "length (PutUint32LE out v) = length out + 4"
  by (simp add: PutUint32LE_def)

lemma PutUint64LE_unfold:
  "PutUint64LE out v =
     out @ [ucast (v AND 0xFF), ucast (drop_bit 8 v AND 0xFF), ucast (drop_bit 16 v AND 0xFF),
            ucast (drop_bit 24 v AND 0xFF), ucast (drop_bit 32 v AND 0xFF),
            ucast (drop_bit 40 v AND 0xFF), ucast (drop_bit 48 v AND 0xFF),
            ucast (drop_bit 56 v AND 0xFF)]"
  by (simp add: PutUint64LE_def upt_rec)

lemma GetUint64LE_unfold:
  "GetUint64LE bs =
     ucast (bs ! 0) OR push_bit 8 (ucast (bs ! 1)) OR push_bit 16 (ucast (bs ! 2)) OR
     push_bit 24 (ucast (bs ! 3)) OR push_bit 32 (ucast (bs ! 4)) OR
     push_bit 40 (ucast (bs ! 5)) OR push_bit 48 (ucast (bs ! 6)) OR push_bit 56 (ucast (bs ! 7))"
  by (simp add: GetUint64LE_def upt_rec or.assoc numeral_eq_Suc)

lemma length_PutUint64LE [simp]: "length (PutUint64LE out v) = length out + 8"
  by (simp add: PutUint64LE_unfold)

lemma PutUint32LE_append: "PutUint32LE out v = out @ PutUint32LE [] v"
  by (simp add: PutUint32LE_def)

lemma PutUint64LE_append: "PutUint64LE out v = out @ PutUint64LE [] v"
  by (simp add: PutUint64LE_unfold)

text \<open>The readers depend on their first bytes only.\<close>

lemma GetUint32LE_take: "GetUint32LE (take n bs) = GetUint32LE bs" if "4 \<le> n"
  using that by (simp add: GetUint32LE_def)

lemma GetUint64LE_take: "GetUint64LE (take n bs) = GetUint64LE bs" if "8 \<le> n"
  using that by (simp add: GetUint64LE_unfold)

lemma GetUint32LE_append: "4 \<le> length a \<Longrightarrow> GetUint32LE (a @ b) = GetUint32LE a"
  using GetUint32LE_take [of "length a" "a @ b"] by simp

section \<open>Round trips\<close>

text \<open>
  Both directions go through the bits: bit \<open>n\<close> of the integer is bit \<open>n mod 8\<close> of byte
  \<open>n div 8\<close>.
\<close>

lemma low_byte: "(ucast (x AND 0xFF) :: byte) = ucast (x :: 'a::len word)"
proof (rule bit_word_eqI)
  fix n
  assume n: "n < LENGTH(8)"
  have ff: "(0xFF :: 'a word) = mask 8"
    by (simp add: mask_eq_exp_minus_1)
  show "bit (ucast (x AND 0xFF) :: byte) n = bit (ucast x :: byte) n"
    unfolding ff using n by (auto simp: bit_simps dest: bit_imp_le_length)
qed

lemma bit_byte_shifted:
  "bit (push_bit k (ucast (b :: byte) :: 'a::len word)) n \<longleftrightarrow>
     k \<le> n \<and> n < LENGTH('a) \<and> n - k < 8 \<and> bit b (n - k)"
  by (auto simp: bit_simps dest: bit_imp_le_length)

lemma bit_block:
  assumes "8 * k \<le> n" and "n < 8 * k + (8::nat)"
  shows "n div 8 = k" and "n mod 8 = n - 8 * k"
  using assms by (auto simp: div_nat_eqI modulo_nat_def)

lemma byte_cases4:
  assumes "(n::nat) < 32"
  shows "n div 8 \<in> {0, 1, 2, 3}"
proof -
  from assms have "n div 8 < 4" by simp
  then show ?thesis by auto
qed

lemma byte_cases8:
  assumes "(n::nat) < 64"
  shows "n div 8 \<in> {0, 1, 2, 3, 4, 5, 6, 7}"
proof -
  from assms have "n div 8 < 8" by simp
  then show ?thesis by auto
qed

text \<open>A byte shifted to block \<open>k\<close> contributes exactly the bits of that block.\<close>

lemma bit_byte_block:
  assumes "n < LENGTH('a)"
  shows "bit (push_bit (8 * k) (ucast (b :: byte) :: 'a::len word)) n \<longleftrightarrow>
     n div 8 = k \<and> bit b (n mod 8)"
proof -
  have "8 * k \<le> n \<and> n - 8 * k < 8 \<longleftrightarrow> n div 8 = k"
  proof
    assume "8 * k \<le> n \<and> n - 8 * k < 8"
    then have "8 * k \<le> n" and "n < 8 * k + 8" by linarith+
    then show "n div 8 = k" by (rule bit_block(1))
  next
    assume k: "n div 8 = k"
    have "n = 8 * (n div 8) + n mod 8" by simp
    moreover have "n mod 8 < 8" by simp
    ultimately show "8 * k \<le> n \<and> n - 8 * k < 8" unfolding k by linarith
  qed
  moreover have "n div 8 = k \<Longrightarrow> n - 8 * k = n mod 8"
    by (simp add: modulo_nat_def)
  ultimately show ?thesis
    using assms by (auto simp: bit_byte_shifted)
qed

lemmas bit_byte_blocks =
  bit_byte_block [where k = 0, simplified]
  bit_byte_block [where k = 1, simplified]
  bit_byte_block [where k = 2, simplified]
  bit_byte_block [where k = 3, simplified]
  bit_byte_block [where k = 4, simplified]
  bit_byte_block [where k = 5, simplified]
  bit_byte_block [where k = 6, simplified]
  bit_byte_block [where k = 7, simplified]

lemma bit_GetUint32LE:
  assumes "n < 32"
  shows "bit (GetUint32LE bs) n = bit (bs ! (n div 8)) (n mod 8)"
  using byte_cases4 [OF assms]
  by (elim insertE emptyE) (simp_all add: GetUint32LE_def bit_or_iff bit_byte_blocks assms)

lemma bit_GetUint64LE:
  assumes "n < 64"
  shows "bit (GetUint64LE bs) n = bit (bs ! (n div 8)) (n mod 8)"
  using byte_cases8 [OF assms]
  by (elim insertE emptyE) (simp_all add: GetUint64LE_unfold bit_or_iff bit_byte_blocks assms)

lemma nth_PutUint32LE:
  "i < 4 \<Longrightarrow> (PutUint32LE [] v @ rest) ! i = ucast (drop_bit (8 * i) v)"
  by (auto simp: PutUint32LE_def low_byte less_Suc_eq numeral_eq_Suc)

lemma nth_PutUint64LE:
  "i < 8 \<Longrightarrow> (PutUint64LE [] v @ rest) ! i = ucast (drop_bit (8 * i) v)"
  by (auto simp: PutUint64LE_unfold low_byte less_Suc_eq numeral_eq_Suc)

lemma GetUint32LE_PutUint32LE [simp, lsm_simps]:
  "GetUint32LE (PutUint32LE [] v @ rest) = v"
proof (rule bit_word_eqI)
  fix n
  assume "n < LENGTH(32)"
  then have n: "n < 32" by simp
  then have "n div 8 < 4" by auto
  then have "bit (GetUint32LE (PutUint32LE [] v @ rest)) n
      = bit (ucast (drop_bit (8 * (n div 8)) v) :: byte) (n mod 8)"
    using n by (simp add: bit_GetUint32LE nth_PutUint32LE)
  then show "bit (GetUint32LE (PutUint32LE [] v @ rest)) n = bit v n"
    by (simp add: bit_simps)
qed

lemma GetUint64LE_PutUint64LE [simp, lsm_simps]:
  "GetUint64LE (PutUint64LE [] v @ rest) = v"
proof (rule bit_word_eqI)
  fix n
  assume "n < LENGTH(64)"
  then have n: "n < 64" by simp
  then have "n div 8 < 8" by auto
  then have "bit (GetUint64LE (PutUint64LE [] v @ rest)) n
      = bit (ucast (drop_bit (8 * (n div 8)) v) :: byte) (n mod 8)"
    using n by (simp add: bit_GetUint64LE nth_PutUint64LE)
  then show "bit (GetUint64LE (PutUint64LE [] v @ rest)) n = bit v n"
    by (simp add: bit_simps)
qed

text \<open>In the other direction, writing the integer that was read gives the bytes back.\<close>

lemma PutUint32LE_GetUint32LE:
  assumes "4 \<le> length bs"
  shows "PutUint32LE [] (GetUint32LE bs) = take 4 bs"
proof (rule nth_equalityI)
  show "length (PutUint32LE [] (GetUint32LE bs)) = length (take 4 bs)"
    using assms by simp
  fix i
  assume "i < length (PutUint32LE [] (GetUint32LE bs))"
  then have i: "i < 4" by simp
  have "bit (PutUint32LE [] (GetUint32LE bs) ! i) n = bit (bs ! i) n" if "n < 8" for n
    using i that nth_PutUint32LE [OF i, of "GetUint32LE bs" "[]"]
    by (simp add: bit_simps bit_GetUint32LE)
  with i show "PutUint32LE [] (GetUint32LE bs) ! i = take 4 bs ! i"
    by (auto intro: bit_word_eqI)
qed

lemma PutUint64LE_GetUint64LE:
  assumes "8 \<le> length bs"
  shows "PutUint64LE [] (GetUint64LE bs) = take 8 bs"
proof (rule nth_equalityI)
  show "length (PutUint64LE [] (GetUint64LE bs)) = length (take 8 bs)"
    using assms by simp
  fix i
  assume "i < length (PutUint64LE [] (GetUint64LE bs))"
  then have i: "i < 8" by simp
  have "bit (PutUint64LE [] (GetUint64LE bs) ! i) n = bit (bs ! i) n" if "n < 8" for n
    using i that nth_PutUint64LE [OF i, of "GetUint64LE bs" "[]"]
    by (simp add: bit_simps bit_GetUint64LE)
  with i show "PutUint64LE [] (GetUint64LE bs) ! i = take 8 bs ! i"
    by (auto intro: bit_word_eqI)
qed

lemma PutUint32LE_inj: "PutUint32LE [] v @ r = PutUint32LE [] w @ s \<Longrightarrow> v = w"
  by (metis GetUint32LE_PutUint32LE)

lemma PutUint64LE_inj: "PutUint64LE [] v @ r = PutUint64LE [] w @ s \<Longrightarrow> v = w"
  by (metis GetUint64LE_PutUint64LE)

end
