(* ===== verification/Crc.thy ===== *)
theory Crc
  imports Byte_Util
begin

unbundle bit_operations_syntax

text \<open>
  The checksum of \<^verbatim>\<open>src/wal_record.cpp\<close>: the 256-entry table \<open>MakeCrc32Table\<close> computes
  bit by bit, and the table-driven \<open>Crc32\<close> over a byte range. The reference is the
  bit-serial CRC-32 (reflected IEEE 802.3 polynomial): the table-driven loop is shown equal
  to it, and every burst of damage confined to four consecutive bytes is shown to change
  the checksum.
\<close>

section \<open>The code\<close>

text \<open>The inner loop of \<open>MakeCrc32Table\<close>: \<open>n\<close> rounds of one bit each.\<close>

fun crc_bits :: "nat \<Rightarrow> u32 \<Rightarrow> u32" where
  "crc_bits 0 crc = crc"
| "crc_bits (Suc n) crc =
     crc_bits n (if crc AND 1 \<noteq> 0 then drop_bit 1 crc XOR 0xEDB88320 else drop_bit 1 crc)"

definition MakeCrc32Table :: "u32 list" where
  "MakeCrc32Table = map (\<lambda>i. crc_bits 8 (of_nat i)) [0..<256]"

text \<open>One iteration of the loop of \<open>Crc32\<close>.\<close>

definition crc_step :: "byte \<Rightarrow> u32 \<Rightarrow> u32" where
  "crc_step b crc = MakeCrc32Table ! unat ((crc XOR ucast b) AND 0xFF) XOR drop_bit 8 crc"

definition Crc32 :: "bytes \<Rightarrow> u32" where
  "Crc32 data = fold crc_step data 0xFFFFFFFF XOR 0xFFFFFFFF"

section \<open>The bit-serial reference\<close>

definition crc_ref_step :: "byte \<Rightarrow> u32 \<Rightarrow> u32" where
  "crc_ref_step b crc = crc_bits 8 (crc XOR ucast b)"

definition crc32_ref :: "bytes \<Rightarrow> u32" where
  "crc32_ref data = NOT (fold crc_ref_step data (NOT 0))"

abbreviation crc_round :: "u32 \<Rightarrow> u32" where
  "crc_round x \<equiv> (if x AND 1 \<noteq> 0 then drop_bit 1 x XOR 0xEDB88320 else drop_bit 1 x)"

lemma crc_bits_add: "crc_bits (m + n) x = crc_bits n (crc_bits m x)"
  by (induction m arbitrary: x) simp_all

lemma word_xor_cancel: "x XOR c = y XOR c \<longleftrightarrow> x = (y :: 'a::len word)"
proof
  assume "x XOR c = y XOR c"
  then have "(x XOR c) XOR c = (y XOR c) XOR c" by simp
  then show "x = y" by (simp only: xor.assoc xor_self_eq xor.right_neutral)
qed simp

lemma low_bit: "(x AND 1 \<noteq> (0 :: 'a::len word)) \<longleftrightarrow> bit x 0"
  by (simp add: and_one_eq odd_iff_mod_2_eq_one bit_0)

lemma crc_round_bit:
  "crc_round x = drop_bit 1 x XOR (if bit x 0 then 0xEDB88320 else 0)"
  by (simp add: low_bit)

lemma crc_round_xor: "crc_round (x XOR y) = crc_round x XOR crc_round y"
proof -
  have "drop_bit 1 (x XOR y) = drop_bit 1 x XOR drop_bit 1 y"
    by (rule bit_word_eqI) (simp add: bit_simps)
  then show ?thesis
    unfolding crc_round_bit by (auto simp: bit_xor_iff xor.assoc xor.left_commute)
qed

lemma crc_bits_xor: "crc_bits n (x XOR y) = crc_bits n x XOR crc_bits n y"
  by (induction n arbitrary: x y) (simp_all only: crc_bits.simps crc_round_xor)

text \<open>While the low bits are zero, a round is a shift.\<close>

lemma crc_bits_shift: "(\<forall>i<n. \<not> bit x i) \<Longrightarrow> crc_bits n x = drop_bit n x"
proof (induction n arbitrary: x)
  case 0
  then show ?case by simp
next
  case (Suc n)
  have "x AND 1 = 0"
    using Suc.prems low_bit [of x] by blast
  moreover have "\<forall>i<n. \<not> bit (drop_bit 1 x) i"
    using Suc.prems by (simp add: bit_simps)
  ultimately show ?case
    using Suc.IH [of "drop_bit 1 x"] by (simp add: drop_bit_drop_bit)
qed

text \<open>A round loses nothing: the polynomial's top bit records the bit shifted out.\<close>

lemma crc_round_top: "bit (crc_round x) 31 \<longleftrightarrow> bit x 0"
proof -
  have "\<not> bit x 32"
    using bit_imp_le_length [of x 32] by auto
  moreover have "bit (0xEDB88320 :: u32) 31"
    by simp
  ultimately show ?thesis
    unfolding crc_round_bit by (simp add: bit_xor_iff bit_drop_bit_eq)
qed

lemma crc_round_inj: "crc_round x = crc_round y \<Longrightarrow> x = y"
proof (rule bit_word_eqI)
  fix n
  assume eq: "crc_round x = crc_round y" and n: "n < LENGTH(32)"
  have "bit (crc_round x) 31 = bit (crc_round y) 31"
    by (simp only: eq)
  then have zero: "bit x 0 = bit y 0"
    by (simp only: crc_round_top)
  have "drop_bit 1 x XOR (if bit x 0 then 0xEDB88320 else 0)
      = drop_bit 1 y XOR (if bit x 0 then 0xEDB88320 else 0)"
    using eq by (simp only: crc_round_bit zero)
  then have "drop_bit 1 x = drop_bit 1 y"
    by (simp only: word_xor_cancel)
  then have "bit (drop_bit 1 x) m = bit (drop_bit 1 y) m" for m
    by simp
  then have "bit x (Suc m) = bit y (Suc m)" for m
    by (simp add: bit_drop_bit_eq)
  with zero show "bit x n = bit y n"
    by (cases n) auto
qed

lemma crc_bits_inj: "crc_bits n x = crc_bits n y \<Longrightarrow> x = y"
proof (induction n arbitrary: x y)
  case 0
  then show ?case by simp
next
  case (Suc n)
  then have "crc_bits n (crc_round x) = crc_bits n (crc_round y)"
    by (simp only: crc_bits.simps)
  then show ?case
    by (rule crc_round_inj [OF Suc.IH])
qed

lemma crc_bits_zero [simp]: "crc_bits n 0 = 0"
  by (induction n) simp_all

section \<open>The table computes the reference\<close>

lemma nth_MakeCrc32Table: "n < 256 \<Longrightarrow> MakeCrc32Table ! n = crc_bits 8 (of_nat n)"
  by (simp add: MakeCrc32Table_def)

lemma bit_FF: "bit (0xFF :: u32) n \<longleftrightarrow> n < 8"
proof -
  have "(0xFF :: u32) = mask 8"
    by (simp add: mask_eq_exp_minus_1)
  then show ?thesis
    by (simp only: bit_mask_iff) auto
qed

lemma table_index: "unat ((x :: u32) AND 0xFF) < 256"
proof -
  have "x AND 0xFF \<le> 0xFF" by (rule word_and_le1)
  then have "unat (x AND 0xFF) \<le> unat (0xFF :: u32)" by (simp only: word_le_nat_alt)
  then show ?thesis by simp
qed

lemma crc_step_ref: "crc_step b crc = crc_ref_step b crc"
proof -
  let ?x = "crc XOR ucast b"
  have "MakeCrc32Table ! unat (?x AND 0xFF) = crc_bits 8 (?x AND 0xFF)"
    using nth_MakeCrc32Table [OF table_index [of ?x]] by simp
  moreover have "drop_bit 8 crc = crc_bits 8 (push_bit 8 (drop_bit 8 ?x))"
  proof -
    have "crc_bits 8 (push_bit 8 (drop_bit 8 ?x)) = drop_bit 8 (push_bit 8 (drop_bit 8 ?x))"
      by (rule crc_bits_shift) (simp add: bit_push_bit_iff bit_xor_iff)
    also have "\<dots> = drop_bit 8 crc"
      by (rule bit_word_eqI)
        (auto simp: bit_drop_bit_eq bit_push_bit_iff bit_xor_iff bit_ucast_iff
              dest: bit_imp_le_length)
    finally show ?thesis by simp
  qed
  ultimately have "crc_step b crc = crc_bits 8 ((?x AND 0xFF) XOR push_bit 8 (drop_bit 8 ?x))"
    by (simp add: crc_step_def crc_bits_xor)
  also have "(?x AND 0xFF) XOR push_bit 8 (drop_bit 8 ?x) = ?x"
    by (rule bit_word_eqI)
      (auto simp only: bit_and_iff bit_xor_iff bit_FF bit_push_bit_iff bit_drop_bit_eq comp_apply
        possible_bit_word not_less le_add_diff_inverse)
  finally show ?thesis by (simp add: crc_ref_step_def)
qed

lemma crc_step_ref_fun: "crc_step = crc_ref_step"
  by (intro ext) (rule crc_step_ref)

lemma xor_all_ones: "x XOR NOT 0 = NOT (x :: u32)"
  by (rule bit_word_eqI) (simp add: bit_simps)

lemma all_ones_32: "(0xFFFFFFFF :: u32) = NOT 0"
  by simp

lemma Crc32_ref: "Crc32 data = crc32_ref data"
  unfolding Crc32_def crc32_ref_def crc_step_ref_fun all_ones_32
  by (rule xor_all_ones)

text \<open>
  C36. \<open>Crc32\<close>'s table-driven loop over the bytes returns, for every input, the bit-serial
  CRC-32 of it: eight rounds of the reflected polynomial 0xEDB88320 per byte, with initial
  value and final complement all ones.
\<close>

theorem Crc32_eq_reference: "Crc32 data = crc32_ref data"
  by (rule Crc32_ref)

text \<open>The standard check value, evaluated: the ASCII digits 1 to 9.\<close>

lemma crc_bits_numeral:
  "crc_bits (numeral k) x = crc_bits (pred_numeral k) (crc_round x)"
  by (simp add: numeral_eq_Suc)

lemma Crc32_check_value:
  "Crc32 [0x31, 0x32, 0x33, 0x34, 0x35, 0x36, 0x37, 0x38, 0x39] = 0xCBF43926"
  by (simp add: Crc32_ref crc32_ref_def crc_ref_step_def crc_bits_numeral)

lemma Crc32_empty: "Crc32 [] = 0"
  by (simp add: Crc32_ref crc32_ref_def)

section \<open>Detection of damage\<close>

lemma crc_ref_step_inj: "crc_ref_step b x = crc_ref_step b y \<Longrightarrow> x = y"
  unfolding crc_ref_step_def
  by (drule crc_bits_inj) (simp only: word_xor_cancel)

lemma fold_crc_ref_inj: "fold crc_ref_step bs x = fold crc_ref_step bs y \<Longrightarrow> x = y"
  by (induction bs arbitrary: x y) (auto dest: crc_ref_step_inj)

text \<open>The value of up to four bytes, least significant first.\<close>

fun le_word :: "bytes \<Rightarrow> u32" where
  "le_word [] = 0"
| "le_word (b # bs) = ucast b XOR push_bit 8 (le_word bs)"

lemma bit_le_word: "bit (le_word bs) n \<Longrightarrow> n < 8 * length bs"
proof (induction bs arbitrary: n)
  case Nil
  then show ?case by simp
next
  case (Cons b bs)
  then have "bit b n \<or> 8 \<le> n \<and> bit (le_word bs) (n - 8)"
    by (auto simp: bit_xor_iff bit_ucast_iff bit_push_bit_iff)
  then show ?case
  proof
    assume "bit b n"
    then have "n < 8" using bit_imp_le_length by fastforce
    then show ?thesis by simp
  next
    assume "8 \<le> n \<and> bit (le_word bs) (n - 8)"
    then have "8 \<le> n" and "n - 8 < 8 * length bs" using Cons.IH by blast+
    then show ?thesis by simp
  qed
qed

lemma crc_bits_push: "length bs \<le> 3 \<Longrightarrow> crc_bits 8 (push_bit 8 (le_word bs)) = le_word bs"
proof -
  assume len: "length bs \<le> 3"
  have "crc_bits 8 (push_bit 8 (le_word bs)) = drop_bit 8 (push_bit 8 (le_word bs))"
    by (rule crc_bits_shift) (simp add: bit_push_bit_iff)
  also have "\<dots> = le_word bs"
    using len bit_le_word [of bs]
    by (intro bit_word_eqI) (fastforce simp: bit_drop_bit_eq bit_push_bit_iff)
  finally show ?thesis .
qed

text \<open>Four consecutive bytes act on the checksum as one 32-bit word.\<close>

lemma fold_crc_ref_word:
  "length bs \<le> 4 \<Longrightarrow> fold crc_ref_step bs x = crc_bits (8 * length bs) (x XOR le_word bs)"
proof (induction bs arbitrary: x)
  case Nil
  then show ?case by simp
next
  case (Cons b bs)
  then have len: "length bs \<le> 3" by simp
  have "fold crc_ref_step (b # bs) x
      = crc_bits (8 * length bs) (crc_bits 8 (x XOR ucast b) XOR le_word bs)"
    using Cons.IH [of "crc_bits 8 (x XOR ucast b)"] len by (simp add: crc_ref_step_def [of b x])
  also have "crc_bits 8 (x XOR ucast b) XOR le_word bs
      = crc_bits 8 ((x XOR ucast b) XOR push_bit 8 (le_word bs))"
    by (simp only: crc_bits_xor [of 8 "x XOR ucast b"] crc_bits_push [OF len])
  finally show ?case
    by (simp add: xor.assoc flip: crc_bits_add)
qed

lemma le_word_inj:
  "length xs = length ys \<Longrightarrow> length xs \<le> 4 \<Longrightarrow> le_word xs = le_word ys \<Longrightarrow> xs = ys"
proof (induction xs ys rule: list_induct2)
  case Nil
  then show ?case by simp
next
  case (Cons x xs y ys)
  have bits: "bit (le_word (x # xs)) n = bit (le_word (y # ys)) n" for n
    using Cons.prems by simp
  have "bit x n = bit y n" if "n < 8" for n
    using bits [of n] that by (simp add: bit_xor_iff bit_ucast_iff bit_push_bit_iff)
  then have "x = y"
    by (auto intro: bit_word_eqI)
  moreover have "bit (le_word xs) n = bit (le_word ys) n" if "n < 32" for n
  proof (cases "n < 24")
    case True
    then show ?thesis
      using bits [of "n + 8"] bit_imp_le_length [of x "n + 8"] bit_imp_le_length [of y "n + 8"]
      by (auto simp: bit_xor_iff bit_ucast_iff bit_push_bit_iff)
  next
    case False
    then show ?thesis
      using bit_le_word [of xs n] bit_le_word [of ys n] Cons.hyps Cons.prems by fastforce
  qed
  then have "le_word xs = le_word ys"
    by (auto intro: bit_word_eqI)
  ultimately show ?case
    using Cons by simp
qed

lemma Crc32_burst:
  assumes "length xs = length ys" and "length xs \<le> 4" and "xs \<noteq> ys"
  shows "Crc32 (pre @ xs @ post) \<noteq> Crc32 (pre @ ys @ post)"
proof
  assume "Crc32 (pre @ xs @ post) = Crc32 (pre @ ys @ post)"
  then have "fold crc_ref_step (pre @ xs @ post) (NOT 0) = fold crc_ref_step (pre @ ys @ post) (NOT 0)"
    unfolding Crc32_ref crc32_ref_def by (metis bit.double_compl)
  then have "fold crc_ref_step xs (fold crc_ref_step pre (NOT 0))
      = fold crc_ref_step ys (fold crc_ref_step pre (NOT 0))"
    by (auto dest: fold_crc_ref_inj)
  then have "le_word xs XOR fold crc_ref_step pre (NOT 0)
      = le_word ys XOR fold crc_ref_step pre (NOT 0)"
    using assms(1,2) by (auto simp: fold_crc_ref_word xor.commute dest!: crc_bits_inj)
  then have "le_word xs = le_word ys"
    by (simp only: word_xor_cancel)
  with assms le_word_inj show False by blast
qed

end
