(* ===== verification/Framing.thy ===== *)
theory Framing
  imports LSM_Prelude
begin

text \<open>
  The contract of a self-delimiting record format, and what follows from it for a log that
  is a concatenation of records. \<open>enc\<close> writes one record, \<open>parse\<close> reads records from the
  front of a byte string for as long as they are whole and returns the records together
  with the bytes it did not consume. The record format of the WAL and the SSTable data
  section is one such format, the sparse index of an SSTable another.
\<close>

locale framing =
  fixes enc :: "'r \<Rightarrow> bytes"
    and good :: "'r \<Rightarrow> bool"
    and parse :: "bytes \<Rightarrow> 'r list \<times> bytes"
  assumes enc_nonempty: "enc r \<noteq> []"
    and parse_nil: "parse [] = ([], [])"
    and parse_frame: "good r \<Longrightarrow> parse (enc r @ rest) = (r # fst (parse rest), snd (parse rest))"
    and parse_torn: "good r \<Longrightarrow> strict_prefix t (enc r) \<Longrightarrow> parse t = ([], t)"
begin

text \<open>Whole records at the front of anything are read back.\<close>

lemma parse_frames:
  "\<forall>r \<in> set rs. good r \<Longrightarrow>
     parse (concat (map enc rs) @ tail) = (rs @ fst (parse tail), snd (parse tail))"
  by (induction rs) (simp_all add: parse_frame)

lemma parse_all:
  "\<forall>r \<in> set rs. good r \<Longrightarrow> parse (concat (map enc rs)) = (rs, [])"
  using parse_frames [of rs "[]"] by (simp add: parse_nil)

lemma parse_torn_tail:
  "\<forall>r \<in> set rs. good r \<Longrightarrow> good r' \<Longrightarrow> strict_prefix t (enc r') \<Longrightarrow>
     parse (concat (map enc rs) @ t) = (rs, t)"
  using parse_frames [of rs t] by (simp add: parse_torn)

text \<open>
  Cutting a log anywhere leaves some number of whole records and a torn one that is not
  read: the records read are those that lie entirely before the cut.
\<close>

lemma cut_log:
  assumes "prefix p (concat (map enc rs))"
  obtains n t where "n \<le> length rs" and "p = concat (map enc (take n rs)) @ t"
    and "t = [] \<or> n < length rs \<and> strict_prefix t (enc (rs ! n))"
  using assms
proof (induction rs arbitrary: p thesis)
  case Nil
  then show ?case by simp
next
  case (Cons r rs)
  show ?case
  proof (cases "prefix (enc r) p")
    case False
    from Cons.prems(2) have "prefix p (enc r @ concat (map enc rs))" by simp
    then have "prefix p (enc r)"
      using False by (auto simp: prefix_append)
    then have "strict_prefix p (enc r)"
      using False by (auto simp: strict_prefix_def)
    then show ?thesis
      using Cons.prems(1) [of 0 p] by simp
  next
    case True
    then obtain q where q: "p = enc r @ q" by (auto elim: prefixE)
    with Cons.prems(2) have "prefix q (concat (map enc rs))" by simp
    then obtain n t where "n \<le> length rs" and "q = concat (map enc (take n rs)) @ t"
      and "t = [] \<or> n < length rs \<and> strict_prefix t (enc (rs ! n))"
      using Cons.IH by blast
    then show ?thesis
      using Cons.prems(1) [of "Suc n" t] q by auto
  qed
qed

lemma parse_cut:
  assumes good: "\<forall>r \<in> set rs. good r" and cut: "prefix p (concat (map enc rs))"
  obtains n t where "n \<le> length rs" and "parse p = (take n rs, t)"
    and "p = concat (map enc (take n rs)) @ t"
    and "t = [] \<or> n < length rs \<and> strict_prefix t (enc (rs ! n))"
proof -
  from cut obtain n t where n: "n \<le> length rs" and p: "p = concat (map enc (take n rs)) @ t"
    and t: "t = [] \<or> n < length rs \<and> strict_prefix t (enc (rs ! n))"
    by (rule cut_log)
  have whole: "\<forall>r \<in> set (take n rs). good r"
    using good by (meson in_set_takeD)
  have "parse t = ([], t)"
    using t good by (auto simp: parse_nil dest: parse_torn [OF bspec [OF good nth_mem]])
  then have "parse p = (take n rs, t)"
    using parse_frames [OF whole, of t] p by simp
  with n p t show ?thesis using that by blast
qed

text \<open>The records before the cut point are all kept.\<close>

lemma parse_cut_keeps:
  assumes good: "\<forall>r \<in> set rs. good r" and cut: "prefix p (concat (map enc rs))"
    and kept: "length (concat (map enc (take m rs))) \<le> length p" and "m \<le> length rs"
  shows "prefix (take m rs) (fst (parse p))" and "prefix (fst (parse p)) rs"
proof -
  obtain n t where n: "n \<le> length rs" and parsed: "parse p = (take n rs, t)"
    and p: "p = concat (map enc (take n rs)) @ t"
    and t: "t = [] \<or> n < length rs \<and> strict_prefix t (enc (rs ! n))"
    using parse_cut [OF good cut] by blast
  have "m \<le> n"
  proof (rule ccontr)
    assume "\<not> m \<le> n"
    then have "Suc n \<le> m" and "n < length rs" using assms(4) by auto
    then have "length (concat (map enc (take (Suc n) rs))) \<le> length p"
      using kept length_concat_take_mono [of "Suc n" m enc rs] by simp
    then have "length (enc (rs ! n)) \<le> length t"
      using p \<open>n < length rs\<close> by (simp add: take_Suc_conv_app_nth)
    then show False
      using t enc_nonempty [of "rs ! n"] prefix_length_less [of t "enc (rs ! n)"] by fastforce
  qed
  then show "prefix (take m rs) (fst (parse p))" and "prefix (fst (parse p)) rs"
    using parsed by (simp_all add: take_is_prefix)
      (metis min.absorb1 take_is_prefix take_take)
qed

text \<open>A log determines its records.\<close>

lemma log_injective:
  "\<forall>r \<in> set rs. good r \<Longrightarrow> \<forall>r \<in> set ss. good r \<Longrightarrow>
     concat (map enc rs) = concat (map enc ss) \<Longrightarrow> rs = ss"
  by (metis parse_all fst_conv)

end

end
