(* ===== verification/Wal_Record.thy ===== *)
theory Wal_Record
  imports Crc Framing
begin

text \<open>
  The record format shared by the WAL and the SSTable data section
  (\<^verbatim>\<open>include/tinylsm/wal_record.h\<close>, \<^verbatim>\<open>src/wal_record.cpp\<close>):
  \<^verbatim>\<open>checksum u32 | type u8 | key_len u32 | value_len u32 | key | value\<close>, little endian, the
  checksum covering everything after it. \<open>DecodeRecord\<close> takes and returns the out-parameter
  of the C++ function, which it leaves alone unless it returns \<open>kOk\<close>.
\<close>

section \<open>The code\<close>

datatype RecordType = kPut | kDelete

datatype DecodeStatus = kOk | kIncomplete | kCorrupt

record DecodedRecord =
  rec_type :: RecordType
  rec_key :: bytes
  rec_value :: bytes
  bytes_consumed :: nat

text \<open>The default-initialised \<open>DecodedRecord\<close> each reading loop starts an iteration with.\<close>

definition DecodedRecord_init :: DecodedRecord where
  "DecodedRecord_init = \<lparr>rec_type = kPut, rec_key = [], rec_value = [], bytes_consumed = 0\<rparr>"

definition kHeaderSize :: nat where
  "kHeaderSize = 4 + 1 + 4 + 4"

fun record_type_byte :: "RecordType \<Rightarrow> byte" where
  "record_type_byte kPut = 1"
| "record_type_byte kDelete = 2"

definition IsValidRecordType :: "byte \<Rightarrow> bool" where
  "IsValidRecordType b \<longleftrightarrow> b = record_type_byte kPut \<or> b = record_type_byte kDelete"

text \<open>\<^verbatim>\<open>static_cast<RecordType>\<close> of a byte that has been checked.\<close>

definition record_type_of :: "byte \<Rightarrow> RecordType" where
  "record_type_of b = (if b = record_type_byte kPut then kPut else kDelete)"

definition record_body :: "RecordType \<Rightarrow> bytes \<Rightarrow> bytes \<Rightarrow> bytes" where
  "record_body type key value_to_write =
     (let body = [record_type_byte type];
          body = PutUint32LE body (of_nat (length key));
          body = PutUint32LE body (of_nat (length value_to_write))
      in body @ key @ value_to_write)"

definition EncodeRecord :: "RecordType \<Rightarrow> bytes \<Rightarrow> bytes \<Rightarrow> bytes" where
  "EncodeRecord type key val =
     (let value_to_write = (if type = kDelete then [] else val);
          body = record_body type key value_to_write
      in PutUint32LE [] (Crc32 body) @ body)"

definition DecodeRecord :: "bytes \<Rightarrow> DecodedRecord \<Rightarrow> DecodeStatus \<times> DecodedRecord" where
  "DecodeRecord data out =
     (if length data < kHeaderSize then (kIncomplete, out)
      else let stored_checksum = GetUint32LE data;
               type_byte = data ! 4;
               key_len = GetUint32LE (drop 5 data);
               value_len = GetUint32LE (drop 9 data);
               total_size = kHeaderSize + unat key_len + unat value_len
           in if length data < total_size then (kIncomplete, out)
              else let body = take (total_size - 4) (drop 4 data)
                   in if Crc32 body \<noteq> stored_checksum \<or> \<not> IsValidRecordType type_byte
                      then (kCorrupt, out)
                      else (kOk, \<lparr>rec_type = record_type_of type_byte,
                                  rec_key = take (unat key_len) (drop kHeaderSize data),
                                  rec_value = take (unat value_len)
                                    (drop (kHeaderSize + unat key_len) data),
                                  bytes_consumed = total_size\<rparr>))"

section \<open>Shape of an encoded record\<close>

type_synonym log_record = "RecordType \<times> bytes \<times> bytes"

text \<open>
  The records the format can represent: lengths fit 32 bits (the code casts them), and a
  DELETE carries no value.
\<close>

definition record_ok :: "log_record \<Rightarrow> bool" where
  "record_ok r = (case r of (t, k, v) \<Rightarrow>
     length k < 2 ^ 32 \<and> length v < 2 ^ 32 \<and> (t = kDelete \<longrightarrow> v = []))"

definition encode_record :: "log_record \<Rightarrow> bytes" where
  "encode_record r = (case r of (t, k, v) \<Rightarrow> EncodeRecord t k v)"

lemma record_body_eq:
  "record_body t k v =
     record_type_byte t # PutUint32LE [] (of_nat (length k)) @
       PutUint32LE [] (of_nat (length v)) @ k @ v"
  by (simp add: record_body_def Let_def PutUint32LE_def)

lemma length_record_body: "length (record_body t k v) = 9 + length k + length v"
  by (simp add: record_body_eq)

lemma length_EncodeRecord:
  "length (EncodeRecord t k v) = 13 + length k + (if t = kDelete then 0 else length v)"
  by (simp add: EncodeRecord_def length_record_body Let_def)

lemma length_encode_record:
  "record_ok (t, k, v) \<Longrightarrow> length (encode_record (t, k, v)) = 13 + length k + length v"
  by (auto simp: encode_record_def length_EncodeRecord record_ok_def)

lemma encode_record_nonempty [simp]: "encode_record r \<noteq> []"
  by (cases r) (auto simp: encode_record_def EncodeRecord_def Let_def record_body_eq
    dest: arg_cong [where f = length])

lemma EncodeRecord_ok:
  "record_ok (t, k, v) \<Longrightarrow>
     EncodeRecord t k v = PutUint32LE [] (Crc32 (record_body t k v)) @ record_body t k v"
  by (auto simp: EncodeRecord_def record_ok_def Let_def)

lemma record_type_of_byte [simp]: "record_type_of (record_type_byte t) = t"
  by (cases t) (simp_all add: record_type_of_def)

lemma IsValidRecordType_byte [simp]: "IsValidRecordType (record_type_byte t)"
  by (cases t) (simp_all add: IsValidRecordType_def)

lemma valid_type_byte: "IsValidRecordType b \<Longrightarrow> record_type_byte (record_type_of b) = b"
  by (auto simp: IsValidRecordType_def record_type_of_def)

text \<open>The header fields at their offsets.\<close>

lemma encoded_fields:
  fixes rest :: bytes
  assumes "record_ok (t, k, v)"
  defines "data \<equiv> EncodeRecord t k v @ rest"
  shows "GetUint32LE data = Crc32 (record_body t k v)"
    and "data ! 4 = record_type_byte t"
    and "GetUint32LE (drop 5 data) = of_nat (length k)"
    and "GetUint32LE (drop 9 data) = of_nat (length v)"
    and "drop 13 data = k @ v @ rest"
    and "drop 4 data = record_body t k v @ rest"
proof -
  have eq: "data = PutUint32LE [] (Crc32 (record_body t k v)) @ record_type_byte t #
      PutUint32LE [] (of_nat (length k)) @ PutUint32LE [] (of_nat (length v)) @ k @ v @ rest"
    unfolding data_def EncodeRecord_ok [OF assms(1)] by (simp add: record_body_eq)
  show "GetUint32LE data = Crc32 (record_body t k v)"
    unfolding eq by simp
  show "data ! 4 = record_type_byte t"
    unfolding eq by (simp add: nth_append)
  have d5: "drop 5 data = PutUint32LE [] (of_nat (length k)) @
      PutUint32LE [] (of_nat (length v)) @ k @ v @ rest"
    unfolding eq by simp
  show "GetUint32LE (drop 5 data) = of_nat (length k)"
    unfolding d5 by simp
  have d9: "drop 9 data = PutUint32LE [] (of_nat (length v)) @ k @ v @ rest"
    unfolding eq by simp
  show "GetUint32LE (drop 9 data) = of_nat (length v)"
    unfolding d9 by simp
  show "drop 13 data = k @ v @ rest"
    unfolding eq by simp
  show "drop 4 data = record_body t k v @ rest"
    unfolding data_def EncodeRecord_ok [OF assms(1)] by simp
qed

lemma unat_length_u32: "n < 2 ^ 32 \<Longrightarrow> unat (of_nat n :: u32) = n"
  by (simp add: unat_of_nat take_bit_nat_eq_self)

section \<open>Decoding what was encoded\<close>

lemma DecodeRecord_EncodeRecord:
  assumes "record_ok (t, k, v)"
  shows "DecodeRecord (EncodeRecord t k v @ rest) out =
    (kOk, \<lparr>rec_type = t, rec_key = k, rec_value = v,
           bytes_consumed = length (EncodeRecord t k v)\<rparr>)"
proof -
  have len: "length (EncodeRecord t k v) = 13 + length k + length v"
    using length_encode_record [OF assms] by (simp add: encode_record_def)
  have kv: "unat (of_nat (length k) :: u32) = length k"
    "unat (of_nat (length v) :: u32) = length v"
    using assms by (auto simp: record_ok_def intro!: unat_length_u32)
  have d13: "drop 13 (EncodeRecord t k v) = k @ v"
    using encoded_fields(5) [OF assms, of "[]"] by simp
  then have d: "drop (13 + length k) (EncodeRecord t k v) = v"
    by (metis add.commute append_eq_conv_conj drop_drop)
  show ?thesis
    unfolding DecodeRecord_def Let_def kHeaderSize_def encoded_fields [OF assms] kv
    by (simp add: len d13 d length_record_body)
qed

section \<open>Decoding anything\<close>

lemma DecodeRecord_not_ok: "DecodeRecord data out = (st, r) \<Longrightarrow> st \<noteq> kOk \<Longrightarrow> r = out"
  by (auto simp: DecodeRecord_def Let_def split: if_splits)

lemma DecodeRecord_out: "fst (DecodeRecord data out) = fst (DecodeRecord data out')"
  by (simp add: DecodeRecord_def Let_def)

lemma DecodeRecord_ok_out:
  "DecodeRecord data out = (kOk, r) \<Longrightarrow> DecodeRecord data out' = (kOk, r)"
  by (auto simp: DecodeRecord_def Let_def split: if_splits)

lemma DecodeRecord_consumed:
  "DecodeRecord data out = (kOk, r) \<Longrightarrow> 13 \<le> bytes_consumed r \<and> bytes_consumed r \<le> length data"
  by (auto simp: DecodeRecord_def Let_def kHeaderSize_def split: if_splits)

lemma DecodeRecord_lengths:
  assumes "DecodeRecord data out = (kOk, r)"
  shows "length (rec_key r) < 2 ^ 32" and "length (rec_value r) < 2 ^ 32"
    and "bytes_consumed r = 13 + length (rec_key r) + length (rec_value r)"
  using assms unsigned_less [of "GetUint32LE (drop 5 data)"] unsigned_less [of "GetUint32LE (drop 9 data)"]
  by (auto simp: DecodeRecord_def Let_def kHeaderSize_def split: if_splits)

lemma DecodeRecord_kOk:
  "DecodeRecord data out = (kOk, r) \<longleftrightarrow>
     (let kl = unat (GetUint32LE (drop 5 data)); vl = unat (GetUint32LE (drop 9 data)) in
        13 + kl + vl \<le> length data \<and>
        Crc32 (take (9 + kl + vl) (drop 4 data)) = GetUint32LE data \<and>
        IsValidRecordType (data ! 4) \<and>
        r = \<lparr>rec_type = record_type_of (data ! 4), rec_key = take kl (drop 13 data),
             rec_value = take vl (drop (13 + kl) data), bytes_consumed = 13 + kl + vl\<rparr>)"
  by (auto simp: DecodeRecord_def Let_def kHeaderSize_def add.assoc not_less)

lemma DecodeRecord_append:
  assumes "DecodeRecord data out = (kOk, r)"
  shows "DecodeRecord (data @ rest) out = (kOk, r)"
proof -
  let ?kl = "GetUint32LE (drop 5 data)" and ?vl = "GetUint32LE (drop 9 data)"
  have len: "13 + unat ?kl + unat ?vl \<le> length data"
    using assms by (simp add: DecodeRecord_kOk Let_def)
  then have "GetUint32LE (drop 5 (data @ rest)) = ?kl" "GetUint32LE (drop 9 (data @ rest)) = ?vl"
    "GetUint32LE (data @ rest) = GetUint32LE data" "(data @ rest) ! 4 = data ! 4"
    by (simp_all add: GetUint32LE_append nth_append)
  then show ?thesis
    using assms len by (simp add: DecodeRecord_kOk Let_def)
qed

lemma DecodeRecord_take:
  assumes "DecodeRecord data out = (kOk, r)" and "bytes_consumed r \<le> m"
  shows "DecodeRecord (take m data) out = (kOk, r)"
proof -
  let ?kl = "GetUint32LE (drop 5 data)" and ?vl = "GetUint32LE (drop 9 data)"
  have len: "13 + unat ?kl + unat ?vl \<le> length data" "13 + unat ?kl + unat ?vl \<le> m"
    using assms by (auto simp: DecodeRecord_kOk Let_def)
  then have "GetUint32LE (drop 5 (take m data)) = ?kl" "GetUint32LE (drop 9 (take m data)) = ?vl"
    "GetUint32LE (take m data) = GetUint32LE data" "take m data ! 4 = data ! 4"
    by (simp_all add: GetUint32LE_take drop_take)
  moreover have "take (9 + unat ?kl + unat ?vl) (drop 4 (take m data)) = take (9 + unat ?kl + unat ?vl) (drop 4 data)"
    "take (unat ?kl) (drop 13 (take m data)) = take (unat ?kl) (drop 13 data)"
    "take (unat ?vl) (drop (13 + unat ?kl) (take m data)) = take (unat ?vl) (drop (13 + unat ?kl) data)"
    using len by (simp_all add: drop_take min_absorb1)
  ultimately show ?thesis
    using assms len by (simp add: DecodeRecord_kOk Let_def)
qed
text \<open>
  Everything \<open>DecodeRecord\<close> accepts is what \<open>EncodeRecord\<close> writes, up to one case: a
  checksummed DELETE record that carries a value, which the code never writes, is accepted.
\<close>

lemma DecodeRecord_sound:
  assumes ok: "DecodeRecord data out = (kOk, r)"
    and nodel: "rec_type r = kDelete \<Longrightarrow> rec_value r = []"
  shows "take (bytes_consumed r) data = EncodeRecord (rec_type r) (rec_key r) (rec_value r)"
proof -
  let ?kl = "GetUint32LE (drop 5 data)" and ?vl = "GetUint32LE (drop 9 data)"
  let ?n = "13 + unat ?kl + unat ?vl"
  let ?body = "take (?n - 4) (drop 4 data)"
  have len: "?n \<le> length data" and crc: "Crc32 ?body = GetUint32LE data"
    and valid: "IsValidRecordType (data ! 4)"
    and r: "r = \<lparr>rec_type = record_type_of (data ! 4), rec_key = take (unat ?kl) (drop 13 data),
         rec_value = take (unat ?vl) (drop (13 + unat ?kl) data), bytes_consumed = ?n\<rparr>"
    using ok by (auto simp: DecodeRecord_def Let_def kHeaderSize_def split: if_splits)
  let ?k = "rec_key r" and ?v = "rec_value r" and ?t = "rec_type r"
  have kl: "of_nat (length ?k) = ?kl" and vl: "of_nat (length ?v) = ?vl"
    using len by (simp_all add: r)
  have "?body = [data ! 4] @ take 4 (drop 5 data) @ take 4 (drop 9 data) @ ?k @ ?v"
  proof -
    have "drop 4 data = data ! 4 # drop 5 data"
      using len Cons_nth_drop_Suc [of 4 data] by simp
    moreover have "drop 5 data = take 4 (drop 5 data) @ drop 9 data"
      using append_take_drop_id [of 4 "drop 5 data"] by simp
    moreover have "drop 9 data = take 4 (drop 9 data) @ drop 13 data"
      using append_take_drop_id [of 4 "drop 9 data"] by simp
    moreover have "drop 13 data = ?k @ drop (13 + unat ?kl) data"
      using append_take_drop_id [of "unat ?kl" "drop 13 data"] by (simp add: r add.commute)
    moreover have "drop (13 + unat ?kl) data = ?v @ drop ?n data"
      using append_take_drop_id [of "unat ?vl" "drop (13 + unat ?kl) data"]
      by (simp add: r add.commute add.left_commute)
    ultimately have "drop 4 data
        = ([data ! 4] @ take 4 (drop 5 data) @ take 4 (drop 9 data) @ ?k @ ?v) @ drop ?n data"
      by simp
    moreover have "length ([data ! 4] @ take 4 (drop 5 data) @ take 4 (drop 9 data) @ ?k @ ?v) = ?n - 4"
      using len by (simp add: r)
    ultimately show ?thesis by (metis append_eq_conv_conj)
  qed
  then have body: "?body = record_body ?t ?k ?v"
    using len valid_type_byte [OF valid]
    by (simp add: record_body_eq kl vl PutUint32LE_GetUint32LE r)
  have "EncodeRecord ?t ?k ?v = PutUint32LE [] (Crc32 (record_body ?t ?k ?v)) @ record_body ?t ?k ?v"
    using nodel by (cases ?t) (simp_all add: EncodeRecord_def Let_def)
  also have "\<dots> = take 4 data @ ?body"
    using len by (simp only: body [symmetric] crc) (simp add: PutUint32LE_GetUint32LE)
  also have "\<dots> = take ?n data"
    using take_add [of 4 "?n - 4" data] by (simp add: add.assoc)
  finally show ?thesis by (simp add: r)
qed

text \<open>A strict prefix of a record is incomplete, wherever it was cut.\<close>

lemma DecodeRecord_torn:
  assumes ok: "record_ok (t, k, v)" and torn: "strict_prefix p (EncodeRecord t k v)"
  shows "DecodeRecord p out = (kIncomplete, out)"
proof (cases "length p < 13")
  case True
  then show ?thesis by (simp add: DecodeRecord_def kHeaderSize_def)
next
  case False
  let ?e = "EncodeRecord t k v"
  have p: "p = take (length p) ?e"
    using torn by (auto simp: strict_prefix_def prefix_def)
  have len: "length p < length ?e"
    using torn by (rule prefix_length_less)
  have e: "length ?e = 13 + length k + length v"
    using length_encode_record [OF ok] by (simp add: encode_record_def)
  have "GetUint32LE (drop m p) = GetUint32LE (drop m ?e)" if "m + 4 \<le> length p" for m
    using that p by (metis GetUint32LE_take add_le_imp_le_diff add.commute drop_take)
  then have "GetUint32LE (drop 5 p) = of_nat (length k)" and "GetUint32LE (drop 9 p) = of_nat (length v)"
    using False encoded_fields [OF ok, of "[]"] by simp_all
  then show ?thesis
    using False len e ok
    by (simp add: DecodeRecord_def Let_def kHeaderSize_def unat_length_u32 record_ok_def)
qed

section \<open>Reading records until the first anomaly\<close>

text \<open>
  The records at the front of a byte string and the bytes left over where decoding stops:
  what every reading loop of the code (WAL replay, the three SSTable scans) sees of a file.
\<close>

function parse_records :: "bytes \<Rightarrow> log_record list \<times> bytes" where
  "parse_records data =
     (case DecodeRecord data DecodedRecord_init of
        (kOk, r) \<Rightarrow>
          (let (rs, rest) = parse_records (drop (bytes_consumed r) data)
           in ((rec_type r, rec_key r, rec_value r) # rs, rest))
      | (kIncomplete, r) \<Rightarrow> ([], data)
      | (kCorrupt, r) \<Rightarrow> ([], data))"
  by pat_completeness auto
termination
  by (relation "measure length") (fastforce dest!: DecodeRecord_consumed [OF sym])+

declare parse_records.simps [simp del]

lemma parse_records_ok:
  "DecodeRecord data DecodedRecord_init = (kOk, r) \<Longrightarrow>
     parse_records data =
       ((rec_type r, rec_key r, rec_value r) # fst (parse_records (drop (bytes_consumed r) data)),
        snd (parse_records (drop (bytes_consumed r) data)))"
  by (subst parse_records.simps) (simp add: case_prod_unfold Let_def)

lemma parse_records_stop:
  "DecodeRecord data DecodedRecord_init = (st, r) \<Longrightarrow> st \<noteq> kOk \<Longrightarrow> parse_records data = ([], data)"
  by (subst parse_records.simps) (cases st; simp)

text \<open>Decoding either yields a record that is not empty, or stops.\<close>

lemma decode_cases:
  obtains (ok) r where "DecodeRecord data DecodedRecord_init = (kOk, r)"
      "13 \<le> bytes_consumed r" "bytes_consumed r \<le> length data"
  | (stop) st where "DecodeRecord data DecodedRecord_init = (st, DecodedRecord_init)" "st \<noteq> kOk"
proof -
  obtain st r where d: "DecodeRecord data DecodedRecord_init = (st, r)" by force
  show ?thesis
  proof (cases "st = kOk")
    case True
    with d DecodeRecord_consumed [of data DecodedRecord_init r] show ?thesis
      by (intro ok [of r]) auto
  next
    case False
    with d DecodeRecord_not_ok [OF d] show ?thesis by (intro stop [of st]) auto
  qed
qed

interpretation wal_frames: framing encode_record record_ok parse_records
proof
  fix r :: log_record and rest t :: bytes
  obtain ty k v where r: "r = (ty, k, v)" by (metis prod_cases3)
  show "encode_record r \<noteq> []" by simp
  show "parse_records [] = ([], [])"
    by (rule parse_records_stop [where st = kIncomplete])
      (auto simp: DecodeRecord_def kHeaderSize_def)
  show "record_ok r \<Longrightarrow>
      parse_records (encode_record r @ rest) = (r # fst (parse_records rest), snd (parse_records rest))"
    using DecodeRecord_EncodeRecord [of ty k v rest DecodedRecord_init]
    by (simp add: r encode_record_def parse_records_ok)
  show "record_ok r \<Longrightarrow> strict_prefix t (encode_record r) \<Longrightarrow> parse_records t = ([], t)"
    using DecodeRecord_torn [of ty k v t DecodedRecord_init]
    by (intro parse_records_stop [where st = kIncomplete]) (auto simp: r encode_record_def)
qed

lemma parse_records_rest:
  "data = take (length data - length (snd (parse_records data))) data @ snd (parse_records data)
   \<and> length (snd (parse_records data)) \<le> length data"
proof (induction data rule: parse_records.induct)
  case (1 data)
  show ?case
  proof (cases data rule: decode_cases)
    case (ok r)
    let ?d = "drop (bytes_consumed r) data"
    have IH: "?d = take (length ?d - length (snd (parse_records ?d))) ?d @ snd (parse_records ?d)"
      "length (snd (parse_records ?d)) \<le> length ?d"
      using "1.IH" [OF ok(1) [symmetric] refl] ok(1) by auto
    have "data = take (bytes_consumed r) data @ ?d" by simp
    also have "\<dots> = (take (bytes_consumed r) data @
        take (length ?d - length (snd (parse_records ?d))) ?d) @ snd (parse_records ?d)"
      using IH(1) by simp
    finally have "data = (take (bytes_consumed r) data @
        take (length ?d - length (snd (parse_records ?d))) ?d) @ snd (parse_records data)"
      using parse_records_ok [OF ok(1)] by simp
    then show ?thesis
      by (metis append_eq_conv_conj diff_add_inverse2 le_add2 length_append)
  next
    case (stop st)
    then show ?thesis by (simp add: parse_records_stop)
  qed
qed

text \<open>The records the format represents survive being decoded: they are representable again.\<close>

lemma parse_records_lengths:
  "r \<in> set (fst (parse_records data)) \<Longrightarrow>
     length (fst (snd r)) < 2 ^ 32 \<and> length (snd (snd r)) < 2 ^ 32"
proof (induction data rule: parse_records.induct)
  case (1 data)
  show ?case
  proof (cases data rule: decode_cases)
    case (ok r')
    from "1.IH" [OF ok(1) [symmetric] refl] "1.prems" parse_records_ok [OF ok(1)]
      DecodeRecord_lengths [OF ok(1)]
    show ?thesis by auto
  next
    case (stop st)
    with "1.prems" show ?thesis by (simp add: parse_records_stop)
  qed
qed

lemma parse_records_append:
  "snd (parse_records a) = [] \<Longrightarrow>
     parse_records (a @ b) = (fst (parse_records a) @ fst (parse_records b), snd (parse_records b))"
proof (induction a rule: parse_records.induct)
  case (1 a)
  show ?case
  proof (cases a rule: decode_cases)
    case (ok r)
    then have ab: "DecodeRecord (a @ b) DecodedRecord_init = (kOk, r)"
      by (simp add: DecodeRecord_append)
    have "snd (parse_records (drop (bytes_consumed r) a)) = []"
      using "1.prems" parse_records_ok [OF ok(1)] by simp
    from "1.IH" [OF ok(1) [symmetric] refl this] ok show ?thesis
      by (simp add: parse_records_ok [OF ok(1)] parse_records_ok [OF ab])
  next
    case (stop st)
    with "1.prems" have "a = []" by (simp add: parse_records_stop)
    then show ?thesis by (simp add: wal_frames.parse_nil)
  qed
qed

text \<open>What was consumed parses to the same records, with nothing left over.\<close>

lemma parse_records_consumed:
  "parse_records (take (length data - length (snd (parse_records data))) data)
     = (fst (parse_records data), [])"
proof (induction data rule: parse_records.induct)
  case (1 data)
  show ?case
  proof (cases data rule: decode_cases)
    case (ok r)
    let ?d = "drop (bytes_consumed r) data" and ?n = "length data - length (snd (parse_records data))"
    have rest: "length (snd (parse_records ?d)) \<le> length ?d"
      using parse_records_rest by blast
    have n: "?n = bytes_consumed r + (length ?d - length (snd (parse_records ?d)))"
      using rest ok(3) parse_records_ok [OF ok(1)] by simp
    let ?t = "take (length ?d - length (snd (parse_records ?d))) ?d"
    have d: "DecodeRecord (take ?n data) DecodedRecord_init = (kOk, r)"
      using n by (intro DecodeRecord_take ok(1)) simp
    have "drop (bytes_consumed r) (take ?n data) = ?t"
      unfolding n by (simp add: drop_take)
    moreover have "parse_records ?t = (fst (parse_records ?d), [])"
      using "1.IH" [OF ok(1) [symmetric] refl] .
    ultimately show ?thesis
      using parse_records_ok [OF d] parse_records_ok [OF ok(1)] by simp
  next
    case (stop st)
    then show ?thesis by (simp add: parse_records_stop wal_frames.parse_nil)
  qed
qed
section \<open>Damage inside a record\<close>

text \<open>
  Overwriting up to four consecutive bytes of the key or the value leaves a record of the
  declared length whose checksum does not match.
\<close>

lemma DecodeRecord_damaged:
  assumes ok: "record_ok (t, k, v)" and k: "k @ v = pre @ xs @ post"
    and len: "length xs = length ys" "length xs \<le> 4" and ne: "xs \<noteq> ys"
  shows "DecodeRecord (take 13 (EncodeRecord t k v) @ pre @ ys @ post @ rest) out = (kCorrupt, out)"
proof -
  let ?e = "EncodeRecord t k v" and ?d = "take 13 (EncodeRecord t k v) @ pre @ ys @ post @ rest"
  let ?h = "take 9 (drop 4 ?e)"
  have e: "length ?e = 13 + length k + length v"
    using length_encode_record [OF ok] by (simp add: encode_record_def)
  have kv: "length k + length v = length pre + length ys + length post"
    using arg_cong [OF k, of length] len by simp
  have header: "take 13 (take 13 ?e @ w) = take 13 ?e" for w
    using e by simp
  have get: "GetUint32LE (drop m ?d) = GetUint32LE (drop m ?e)" if "m + 4 \<le> 13" for m
    using that GetUint32LE_take [of "13 - m" "drop m ?d"] GetUint32LE_take [of "13 - m" "drop m ?e"]
      header [of "pre @ ys @ post @ rest"] by (metis add_le_imp_le_diff add.commute drop_take)
  have len5: "GetUint32LE (drop 5 ?d) = of_nat (length k)" and len9: "GetUint32LE (drop 9 ?d) = of_nat (length v)"
    and crc: "GetUint32LE ?d = Crc32 (record_body t k v)"
    using get [of 5] get [of 9] get [of 0] encoded_fields [OF ok, of "[]"] by simp_all
  have u: "unat (of_nat (length k) :: u32) = length k" "unat (of_nat (length v) :: u32) = length v"
    using ok by (auto simp: record_ok_def intro!: unat_length_u32)
  have d4: "drop 4 ?e = ?h @ k @ v"
    using encoded_fields(5) [OF ok, of "[]"] append_take_drop_id [of 9 "drop 4 ?e"] by simp
  then have body: "record_body t k v = ?h @ pre @ xs @ post"
    using encoded_fields(6) [OF ok, of "[]"] k by simp
  have "take (length (record_body t k v)) (drop 4 ?d) = ?h @ pre @ ys @ post"
    using e kv by (simp add: drop_take length_record_body)
  moreover have "Crc32 (?h @ pre @ ys @ post) \<noteq> Crc32 (record_body t k v)"
    unfolding body using Crc32_burst [OF len ne, of "?h @ pre" post] by simp
  ultimately have "Crc32 (take (9 + length k + length v) (drop 4 ?d)) \<noteq> GetUint32LE ?d"
    by (simp only: crc length_record_body) simp
  then show ?thesis
    using kv e unfolding DecodeRecord_def Let_def kHeaderSize_def len5 len9 u
    by (simp add: add.commute add.left_commute)
qed

section \<open>Properties\<close>

text \<open>
  C31. Round trip: decoding what \<open>EncodeRecord\<close> wrote, followed by any bytes, returns
  \<open>kOk\<close> with the same type, key and value, and \<open>bytes_consumed\<close> lands exactly on the byte
  after the record.
\<close>

theorem decode_encode_roundtrip:
  assumes "record_ok (t, k, v)"
  shows "DecodeRecord (EncodeRecord t k v @ rest) out =
    (kOk, \<lparr>rec_type = t, rec_key = k, rec_value = v,
           bytes_consumed = length (EncodeRecord t k v)\<rparr>)"
  using assms by (rule DecodeRecord_EncodeRecord)

theorem decode_encode_roundtrip_witness:
  "DecodeRecord (EncodeRecord kPut [1, 2] [3] @ [9]) DecodedRecord_init =
    (kOk, \<lparr>rec_type = kPut, rec_key = [1, 2], rec_value = [3], bytes_consumed = 16\<rparr>)"
  using decode_encode_roundtrip [of kPut "[1, 2]" "[3]" "[9]" DecodedRecord_init]
  by (simp add: record_ok_def length_EncodeRecord)

text \<open>
  C32. A torn write is never mistaken for a record or for corruption: every strict prefix of
  an encoded record, cut inside the header, the key or the value, decodes to \<open>kIncomplete\<close>
  and leaves the out-parameter alone.
\<close>

theorem decode_torn_incomplete:
  assumes "record_ok (t, k, v)" and "strict_prefix p (EncodeRecord t k v)"
  shows "DecodeRecord p out = (kIncomplete, out)"
  using assms by (rule DecodeRecord_torn)

theorem decode_torn_incomplete_witness:
  "DecodeRecord (take 14 (EncodeRecord kPut [1, 2] [3])) DecodedRecord_init
    = (kIncomplete, DecodedRecord_init)"
  by (rule decode_torn_incomplete [of kPut "[1, 2]" "[3]"])
    (auto simp: record_ok_def length_EncodeRecord take_is_prefix strict_prefix_def
      dest: arg_cong [where f = length])

text \<open>
  C33. Bit rot in the key or value is caught: overwriting up to four consecutive bytes there
  with anything else makes the complete-length record decode to \<open>kCorrupt\<close>, whatever
  follows it.
\<close>

theorem decode_damage_corrupt:
  assumes "record_ok (t, k, v)" and "k @ v = pre @ xs @ post"
    and "length xs = length ys" and "length xs \<le> 4" and "xs \<noteq> ys"
  shows "DecodeRecord (take 13 (EncodeRecord t k v) @ pre @ ys @ post @ rest) out = (kCorrupt, out)"
  using assms by (rule DecodeRecord_damaged)

theorem decode_damage_corrupt_witness:
  "DecodeRecord (take 13 (EncodeRecord kPut [1, 2] [3, 4]) @ [1, 2] @ [3, 0xFF] @ [] @ []) DecodedRecord_init
    = (kCorrupt, DecodedRecord_init)"
  by (rule decode_damage_corrupt [where xs = "[3, 4]" and k = "[1, 2]" and v = "[3, 4]"])
    (simp_all add: record_ok_def)





end
