(* ===== verification/KV_Store.thy ===== *)
theory KV_Store
  imports LSM_Prelude
begin

text \<open>
  The public contract, \<^verbatim>\<open>include/tinylsm/kv_store.h\<close>. An update returns \<open>None\<close> where the C++
  function would throw: the contract then says nothing about the state. \<open>view\<close> is the
  abstract content of a state that satisfies the implementation's invariant \<open>ok\<close>.
\<close>

datatype kv_op = Put bytes bytes | Remove bytes

fun store_op :: "kv_op \<Rightarrow> store \<Rightarrow> store" where
  "store_op (Put k v) m = m(k \<mapsto> v)"
| "store_op (Remove k) m = m(k := None)"

definition store_ops :: "kv_op list \<Rightarrow> store \<Rightarrow> store" where
  "store_ops ops m = fold store_op ops m"

lemma store_ops_Nil [simp]: "store_ops [] m = m"
  and store_ops_Cons [simp]: "store_ops (x # xs) m = store_ops xs (store_op x m)"
  and store_ops_append: "store_ops (xs @ ys) m = store_ops ys (store_ops xs m)"
  by (simp_all add: store_ops_def)

text \<open>The key an operation is about, and what the last operation on a key leaves there.\<close>

fun op_key :: "kv_op \<Rightarrow> bytes" where
  "op_key (Put k v) = k"
| "op_key (Remove k) = k"

lemma store_op_other: "op_key x \<noteq> k \<Longrightarrow> store_op x m k = m k"
  by (cases x) auto

lemma store_ops_other: "\<forall>x \<in> set xs. op_key x \<noteq> k \<Longrightarrow> store_ops xs m k = m k"
  by (induction xs arbitrary: m) (auto simp: store_op_other)

locale kv_store =
  fixes ok :: "'s \<Rightarrow> bool"
    and view :: "'s \<Rightarrow> store"
    and put :: "bytes \<Rightarrow> bytes \<Rightarrow> 's \<Rightarrow> 's option"
    and remove :: "bytes \<Rightarrow> 's \<Rightarrow> 's option"
    and get :: "'s \<Rightarrow> bytes \<Rightarrow> bytes option"
    and scan :: "'s \<Rightarrow> bytes \<Rightarrow> bytes \<Rightarrow> (bytes \<times> bytes) list"
  assumes put_ok: "ok s \<Longrightarrow> put k v s = Some s' \<Longrightarrow> ok s' \<and> view s' = (view s)(k \<mapsto> v)"
    and remove_ok: "ok s \<Longrightarrow> remove k s = Some s' \<Longrightarrow> ok s' \<and> view s' = (view s)(k := None)"
    and get_view: "ok s \<Longrightarrow> get s k = view s k"
    and scan_view: "ok s \<Longrightarrow> range_of (view s) a b (scan s a b)"
begin

fun apply_op :: "kv_op \<Rightarrow> 's \<Rightarrow> 's option" where
  "apply_op (Put k v) s = put k v s"
| "apply_op (Remove k) s = remove k s"

fun apply_ops :: "kv_op list \<Rightarrow> 's \<Rightarrow> 's option" where
  "apply_ops [] s = Some s"
| "apply_ops (x # xs) s = (case apply_op x s of None \<Rightarrow> None | Some s' \<Rightarrow> apply_ops xs s')"

lemma apply_op_view:
  "ok s \<Longrightarrow> apply_op x s = Some s' \<Longrightarrow> ok s' \<and> view s' = store_op x (view s)"
  by (cases x) (auto dest: put_ok remove_ok)

lemma apply_ops_view:
  "ok s \<Longrightarrow> apply_ops xs s = Some s' \<Longrightarrow> ok s' \<and> view s' = store_ops xs (view s)"
  by (induction xs arbitrary: s) (auto split: option.splits dest: apply_op_view)

text \<open>After any sequence of operations that all returned, reads are those of the abstract store.\<close>

lemma get_after_ops:
  "ok s \<Longrightarrow> apply_ops xs s = Some s' \<Longrightarrow> get s' k = store_ops xs (view s) k"
  using apply_ops_view get_view by metis

lemma scan_after_ops:
  "ok s \<Longrightarrow> apply_ops xs s = Some s' \<Longrightarrow> range_of (store_ops xs (view s)) a b (scan s' a b)"
  using apply_ops_view scan_view by metis

text \<open>Two implementations of the contract that agree on their content answer alike.\<close>

lemma scan_determined:
  "ok s \<Longrightarrow> range_of (view s) a b r \<Longrightarrow> scan s a b = r"
  using scan_view range_of_unique by blast

lemma scan_get:
  "ok s \<Longrightarrow> (k, v) \<in> set (scan s a b) \<longleftrightarrow> get s k = Some v \<and> a \<le> k \<and> k < b"
  using scan_view [of s a b] by (auto simp: range_of_def get_view)

end

end
