(* ===== verification/Run_Layers.thy ===== *)
theory Run_Layers
  imports LSM_Prelude
begin

text \<open>
  Layers of sorted tables, newest shadowing oldest. The code has two loops over a list of
  tables: \<^verbatim>\<open>Database::get\<close> asks the tables newest to oldest and stops at the first hit;
  \<^verbatim>\<open>Database::scan\<close> and \<^verbatim>\<open>MergeSSTables\<close> assign the tables' entries oldest to newest into
  one \<^verbatim>\<open>std::map\<close>. Both loops are defined here for any table whose reads may fail; the locale
  states what a table promises, and the two loops are shown to agree on the layered content.
\<close>

section \<open>The two loops\<close>

fun first_hit :: "('r \<Rightarrow> 'k \<Rightarrow> 'e + 'v option) \<Rightarrow> 'k \<Rightarrow> 'r list \<Rightarrow> 'e + 'v option" where
  "first_hit look k [] = Inr None"
| "first_hit look k (r # rs) =
     (case look r k of
        Inl e \<Rightarrow> Inl e
      | Inr (Some v) \<Rightarrow> Inr (Some v)
      | Inr None \<Rightarrow> first_hit look k rs)"

fun merge_runs ::
  "('r \<Rightarrow> 'e + ('k::linorder \<times> 'v) list) \<Rightarrow> 'r list \<Rightarrow> ('k \<times> 'v) list \<Rightarrow> 'e + ('k \<times> 'v) list" where
  "merge_runs read [] merged = Inr merged"
| "merge_runs read (r # rs) merged =
     (case read r of
        Inl e \<Rightarrow> Inl e
      | Inr es \<Rightarrow> merge_runs read rs (map_assign_all es merged))"

section \<open>Layered content\<close>

text \<open>The content of layers given oldest first.\<close>

definition layered :: "('k \<rightharpoonup> 'v) list \<Rightarrow> ('k \<rightharpoonup> 'v)" where
  "layered ms = foldl (++) Map.empty ms"

lemma foldl_map_add: "foldl (++) m ms = m ++ foldl (++) Map.empty ms"
proof (induction ms arbitrary: m)
  case Nil
  then show ?case by simp
next
  case (Cons n ms)
  show ?case
    using Cons [of "m ++ n"] Cons [of n] by (simp add: map_add_assoc)
qed

lemma layered_Nil [simp]: "layered [] = Map.empty"
  by (simp add: layered_def)

lemma layered_Cons: "layered (m # ms) = m ++ layered ms"
  unfolding layered_def using foldl_map_add [of m ms] by simp

lemma layered_append: "layered (ms @ ns) = layered ms ++ layered ns"
  by (induction ms) (simp_all add: layered_Cons map_add_assoc)

lemma layered_snoc [simp]: "layered (ms @ [m]) = layered ms ++ m"
  by (simp add: layered_append layered_Cons)

lemma layered_restrict: "layered (map (\<lambda>m. m |` A) ms) = layered ms |` A"
  by (induction ms)
    (auto simp: layered_Cons map_add_def restrict_map_def fun_eq_iff split: option.splits)

section \<open>The contract of a table\<close>

locale sorted_run =
  fixes run_ok :: "'r \<Rightarrow> bool"
    and content :: "'r \<Rightarrow> ('k::linorder \<times> 'v) list"
    and run_find :: "'r \<Rightarrow> 'k \<Rightarrow> 'e + 'v option"
    and run_range :: "'r \<Rightarrow> 'k \<Rightarrow> 'k \<Rightarrow> 'e + ('k \<times> 'v) list"
    and run_all :: "'r \<Rightarrow> 'e + ('k \<times> 'v) list"
  assumes content_sorted: "run_ok r \<Longrightarrow> sorted_keys (content r)"
    and find_content: "run_ok r \<Longrightarrow> run_find r k = Inr (map_of (content r) k)"
    and range_content: "run_ok r \<Longrightarrow>
      run_range r a b = Inr (filter (\<lambda>p. a \<le> fst p \<and> fst p < b) (content r))"
    and all_content: "run_ok r \<Longrightarrow> run_all r = Inr (content r)"
begin

abbreviation layers :: "'r list \<Rightarrow> ('k \<rightharpoonup> 'v)" where
  "layers rs \<equiv> layered (map (\<lambda>r. map_of (content r)) rs)"

text \<open>Asking newest to oldest and stopping at the first hit reads the layered content.\<close>

lemma first_hit_layers:
  "\<forall>r \<in> set rs. run_ok r \<Longrightarrow> first_hit run_find k (rev rs) = Inr (layers rs k)"
proof (induction rs rule: rev_induct)
  case Nil
  then show ?case by simp
next
  case (snoc r rs)
  then show ?case
    by (simp add: find_content map_add_def split: option.splits)
qed

text \<open>Merging whole tables oldest to newest computes the layered content.\<close>

lemma merge_all_layers:
  assumes "\<forall>r \<in> set rs. run_ok r" and "sorted_keys acc"
  obtains merged where "merge_runs run_all rs acc = Inr merged" and "sorted_keys merged"
    and "map_of merged = map_of acc ++ layers rs"
    and "set merged \<subseteq> set acc \<union> (\<Union>r \<in> set rs. set (content r))"
  using assms
proof (induction rs arbitrary: acc thesis)
  case Nil
  then show ?case by simp
next
  case (Cons r rs)
  let ?acc = "map_assign_all (content r) acc"
  have r: "run_all r = Inr (content r)" "map_of (rev (content r)) = map_of (content r)"
    using Cons.prems(2) by (simp_all add: all_content content_sorted map_of_rev_sorted)
  obtain merged where m: "merge_runs run_all rs ?acc = Inr merged" "sorted_keys merged"
    "map_of merged = map_of ?acc ++ layers rs"
    "set merged \<subseteq> set ?acc \<union> (\<Union>r \<in> set rs. set (content r))"
    using Cons.IH [of ?acc] Cons.prems by auto
  show ?case
    using m r set_map_assign_all_subset [of "content r" acc]
    by (intro Cons.prems(1) [of merged]) (auto simp: layered_Cons map_add_assoc)
qed

text \<open>Merging the tables' entries of a key range computes the layered content of that range.\<close>

lemma map_of_filter_range:
  "map_of (filter (\<lambda>p. P (fst p)) m) = map_of m |` {k. P k}"
  by (induction m) (auto simp: restrict_map_def fun_eq_iff)

lemma merge_range_layers:
  assumes "\<forall>r \<in> set rs. run_ok r" and "sorted_keys acc"
  obtains merged where "merge_runs (\<lambda>r. run_range r a b) rs acc = Inr merged" and "sorted_keys merged"
    and "map_of merged = map_of acc ++ (layers rs |` {k. a \<le> k \<and> k < b})"
  using assms
proof (induction rs arbitrary: acc thesis)
  case Nil
  then show ?case by simp
next
  case (Cons r rs)
  let ?f = "filter (\<lambda>p. a \<le> fst p \<and> fst p < b) (content r)"
  let ?acc = "map_assign_all ?f acc"
  have "map_of (rev ?f) = map_of (content r) |` {k. a \<le> k \<and> k < b}"
    using Cons.prems(2) by (simp add: map_of_rev_sorted sorted_keys_filter content_sorted
      map_of_filter_range [where P = "\<lambda>k. a \<le> k \<and> k < b"])
  moreover obtain merged where m: "merge_runs (\<lambda>r. run_range r a b) rs ?acc = Inr merged"
    "sorted_keys merged" "map_of merged = map_of ?acc ++ (layers rs |` {k. a \<le> k \<and> k < b})"
    using Cons.IH [of ?acc] Cons.prems by auto
  moreover have "run_range r a b = Inr ?f"
    using Cons.prems(2) by (simp add: range_content)
  ultimately show ?case
    by (intro Cons.prems(1) [of merged])
      (auto simp: layered_Cons map_add_def restrict_map_def fun_eq_iff split: option.splits)
qed

text \<open>The two loops agree.\<close>

lemma first_hit_merge:
  assumes "\<forall>r \<in> set rs. run_ok r" and "merge_runs run_all rs [] = Inr merged"
  shows "first_hit run_find k (rev rs) = Inr (map_of merged k)"
proof -
  obtain m where "merge_runs run_all rs [] = Inr m" and "map_of m = map_of [] ++ layers rs"
    using merge_all_layers [OF assms(1) sorted_keys_Nil] by blast
  then show ?thesis
    using assms by (simp add: first_hit_layers)
qed

end

end
