(* ===== verification/Mem_Table.thy ===== *)
theory Mem_Table
  imports KV_Store Run_Layers
begin

text \<open>
  \<^verbatim>\<open>include/tinylsm/memtable.h\<close> and \<^verbatim>\<open>src/memtable.cpp\<close>: the sorted in-memory table of the
  most recent write for every key, tombstones included, with its running size estimate.
  The estimate is a \<^verbatim>\<open>size_t\<close>, so it is kept as a 64-bit word.
\<close>

section \<open>The code\<close>

record Entry =
  entry_value :: bytes
  is_tombstone :: bool

record MemTable =
  table :: "(bytes \<times> Entry) list"
  approximate_size_bytes :: u64

definition MemTable_init :: MemTable where
  "MemTable_init = \<lparr>table = [], approximate_size_bytes = 0\<rparr>"

definition EntrySize :: "bytes \<Rightarrow> Entry \<Rightarrow> u64" where
  "EntrySize key entry = of_nat (length key) + of_nat (length (entry_value entry))"

definition Upsert :: "bytes \<Rightarrow> Entry \<Rightarrow> MemTable \<Rightarrow> MemTable" where
  "Upsert key entry mt =
     (let mt = (case map_of (table mt) key of
                  Some old \<Rightarrow> mt\<lparr>approximate_size_bytes := approximate_size_bytes mt - EntrySize key old,
                                table := map_assign key entry (table mt)\<rparr>
                | None \<Rightarrow> mt\<lparr>table := map_assign key entry (table mt)\<rparr>)
      in mt\<lparr>approximate_size_bytes := approximate_size_bytes mt + EntrySize key entry\<rparr>)"

definition memtable_put :: "bytes \<Rightarrow> bytes \<Rightarrow> MemTable \<Rightarrow> MemTable" where
  "memtable_put key val mt = Upsert key \<lparr>entry_value = val, is_tombstone = False\<rparr> mt"

definition memtable_remove :: "bytes \<Rightarrow> MemTable \<Rightarrow> MemTable" where
  "memtable_remove key mt = Upsert key \<lparr>entry_value = [], is_tombstone = True\<rparr> mt"

definition memtable_find :: "MemTable \<Rightarrow> bytes \<Rightarrow> Entry option" where
  "memtable_find mt key = map_of (table mt) key"

definition memtable_get :: "MemTable \<Rightarrow> bytes \<Rightarrow> bytes option" where
  "memtable_get mt key =
     (case memtable_find mt key of
        None \<Rightarrow> None
      | Some entry \<Rightarrow> if is_tombstone entry then None else Some (entry_value entry))"

text \<open>The loop of \<open>MemTable::scan\<close> from an iterator position to the first key \<open>\<ge> end\<close>.\<close>

fun scan_loop :: "bytes \<Rightarrow> (bytes \<times> Entry) list \<Rightarrow> (bytes \<times> bytes) list" where
  "scan_loop e [] = []"
| "scan_loop e ((k, entry) # it) =
     (if k < e
      then (if \<not> is_tombstone entry then (k, entry_value entry) # scan_loop e it
            else scan_loop e it)
      else [])"

definition memtable_scan :: "MemTable \<Rightarrow> bytes \<Rightarrow> bytes \<Rightarrow> (bytes \<times> bytes) list" where
  "memtable_scan mt start e = scan_loop e (lower_bound start (table mt))"

definition memtable_size :: "MemTable \<Rightarrow> nat" where
  "memtable_size mt = length (table mt)"

definition memtable_empty :: "MemTable \<Rightarrow> bool" where
  "memtable_empty mt \<longleftrightarrow> table mt = []"

section \<open>What a reader makes of an entry\<close>

definition live :: "Entry \<Rightarrow> bytes option" where
  "live entry = (if is_tombstone entry then None else Some (entry_value entry))"

text \<open>The store a map of entries stands for: tombstones read as absent.\<close>

definition live_store :: "(bytes \<rightharpoonup> Entry) \<Rightarrow> store" where
  "live_store m k = Option.bind (m k) live"

definition put_entry :: "bytes \<Rightarrow> Entry" where
  "put_entry v = \<lparr>entry_value = v, is_tombstone = False\<rparr>"

definition tombstone :: Entry where
  "tombstone = \<lparr>entry_value = [], is_tombstone = True\<rparr>"

text \<open>Tombstones carry no value: what makes an entry survive the on-disk format unchanged.\<close>

definition entry_ok :: "Entry \<Rightarrow> bool" where
  "entry_ok entry \<longleftrightarrow> (is_tombstone entry \<longrightarrow> entry_value entry = [])"

lemma live_simps [simp]:
  "live (put_entry v) = Some v" "live tombstone = None"
  "entry_ok (put_entry v)" "entry_ok tombstone"
  "entry_value (put_entry v) = v" "entry_value tombstone = []"
  "is_tombstone tombstone" "\<not> is_tombstone (put_entry v)"
  by (simp_all add: live_def put_entry_def tombstone_def entry_ok_def)

lemma live_store_upd:
  "live_store (m(k \<mapsto> put_entry v)) = (live_store m)(k \<mapsto> v)"
  "live_store (m(k \<mapsto> tombstone)) = (live_store m)(k := None)"
  by (auto simp: live_store_def fun_eq_iff)

lemma live_store_empty [simp]: "live_store Map.empty = Map.empty"
  by (simp add: live_store_def fun_eq_iff)

section \<open>Invariant and functional correctness\<close>

definition table_bytes :: "(bytes \<times> Entry) list \<Rightarrow> nat" where
  "table_bytes m = (\<Sum>(k, e) \<leftarrow> m. length k + length (entry_value e))"

definition memtable_ok :: "MemTable \<Rightarrow> bool" where
  "memtable_ok mt \<longleftrightarrow>
     sorted_keys (table mt) \<and>
     (\<forall>(k, e) \<in> set (table mt). entry_ok e) \<and>
     approximate_size_bytes mt = of_nat (table_bytes (table mt))"

definition memtable_store :: "MemTable \<Rightarrow> store" where
  "memtable_store mt = live_store (map_of (table mt))"

lemma memtable_ok_init [simp]: "memtable_ok MemTable_init"
  by (simp add: memtable_ok_def MemTable_init_def table_bytes_def)

lemma table_bytes_assign:
  assumes "sorted_keys m"
  shows "table_bytes (map_assign k e m) +
      (case map_of m k of None \<Rightarrow> 0 | Some old \<Rightarrow> length k + length (entry_value old))
    = table_bytes m + length k + length (entry_value e)"
  using assms
proof (induction m)
  case Nil
  then show ?case by (simp add: table_bytes_def)
next
  case (Cons p m)
  obtain x y where p: "p = (x, y)" by force
  have "k < x \<Longrightarrow> map_of m k = None"
    using Cons.prems p by (intro map_of_below) (auto dest: less_trans)
  with Cons p show ?case by (auto simp: table_bytes_def)
qed

lemma table_Upsert: "table (Upsert k e mt) = map_assign k e (table mt)"
  by (simp add: Upsert_def Let_def split: option.split)

lemma size_Upsert:
  assumes "memtable_ok mt"
  shows "approximate_size_bytes (Upsert k e mt) = of_nat (table_bytes (table (Upsert k e mt)))"
proof -
  have "of_nat (table_bytes (map_assign k e (table mt)) +
      (case map_of (table mt) k of None \<Rightarrow> 0 | Some old \<Rightarrow> length k + length (entry_value old)))
    = (of_nat (table_bytes (table mt) + length k + length (entry_value e)) :: u64)"
    using assms by (simp add: table_bytes_assign memtable_ok_def)
  then show ?thesis
    using assms
    by (auto simp: Upsert_def Let_def EntrySize_def memtable_ok_def algebra_simps
        split: option.splits)
qed

lemma memtable_ok_Upsert: "memtable_ok mt \<Longrightarrow> entry_ok e \<Longrightarrow> memtable_ok (Upsert k e mt)"
  using size_Upsert [of mt k e] set_map_assign_subset [of k e "table mt"]
  by (auto simp: memtable_ok_def table_Upsert)

lemma memtable_put_Upsert: "memtable_put k v mt = Upsert k (put_entry v) mt"
  and memtable_remove_Upsert: "memtable_remove k mt = Upsert k tombstone mt"
  by (simp_all add: memtable_put_def memtable_remove_def put_entry_def tombstone_def)

lemma memtable_ok_put [simp]: "memtable_ok mt \<Longrightarrow> memtable_ok (memtable_put k v mt)"
  and memtable_ok_remove [simp]: "memtable_ok mt \<Longrightarrow> memtable_ok (memtable_remove k mt)"
  by (simp_all add: memtable_put_Upsert memtable_remove_Upsert memtable_ok_Upsert)

lemma memtable_store_put: "memtable_store (memtable_put k v mt) = (memtable_store mt)(k \<mapsto> v)"
  and memtable_store_remove: "memtable_store (memtable_remove k mt) = (memtable_store mt)(k := None)"
  by (simp_all add: memtable_store_def memtable_put_Upsert memtable_remove_Upsert table_Upsert
      live_store_upd)

lemma memtable_get_store: "memtable_get mt k = memtable_store mt k"
  by (simp add: memtable_get_def memtable_find_def memtable_store_def live_store_def live_def
      split: option.split)

text \<open>A scan of a sorted table is the live part of its key range.\<close>

lemma scan_loop_eq:
  "scan_loop e it =
     map (\<lambda>(k, en). (k, entry_value en))
       (filter (\<lambda>(k, en). \<not> is_tombstone en) (takeWhile (\<lambda>p. fst p < e) it))"
  by (induction e it rule: scan_loop.induct) auto

lemma sorted_keys_map_snd: "sorted_keys m \<Longrightarrow> sorted_keys (map (\<lambda>(k, en). (k, f en)) m)"
  by (induction m) auto

lemma range_of_live:
  assumes "sorted_keys m"
  shows "range_of (live_store (map_of m)) a b
    (map (\<lambda>(k, en). (k, entry_value en))
       (filter (\<lambda>(k, en). \<not> is_tombstone en) (filter (\<lambda>p. a \<le> fst p \<and> fst p < b) m)))"
  unfolding range_of_def
proof (intro conjI allI)
  show "sorted_keys (map (\<lambda>(k, en). (k, entry_value en))
       (filter (\<lambda>(k, en). \<not> is_tombstone en) (filter (\<lambda>p. a \<le> fst p \<and> fst p < b) m)))"
    using assms by (intro sorted_keys_map_snd sorted_keys_filter)
  fix k v
  show "(k, v) \<in> set (map (\<lambda>(k, en). (k, entry_value en))
       (filter (\<lambda>(k, en). \<not> is_tombstone en) (filter (\<lambda>p. a \<le> fst p \<and> fst p < b) m)))
     \<longleftrightarrow> live_store (map_of m) k = Some v \<and> a \<le> k \<and> k < b"
    using sorted_keys_map_of [OF assms]
    by (auto simp: live_store_def live_def bind_eq_Some_conv image_iff)
qed

lemma memtable_scan_range:
  assumes "memtable_ok mt"
  shows "range_of (memtable_store mt) a b (memtable_scan mt a b)"
proof -
  have s: "sorted_keys (table mt)"
    using assms by (simp add: memtable_ok_def)
  have "takeWhile (\<lambda>p. fst p < b) (lower_bound a (table mt))
      = filter (\<lambda>p. a \<le> fst p \<and> fst p < b) (table mt)"
    using s by (simp add: lower_bound_eq_filter takeWhile_below_eq_filter sorted_keys_filter
        conj_commute)
  then show ?thesis
    using range_of_live [OF s, of a b]
    by (simp add: memtable_store_def memtable_scan_def scan_loop_eq)
qed

interpretation mem_store: kv_store memtable_ok memtable_store
  "\<lambda>k v mt. Some (memtable_put k v mt)" "\<lambda>k mt. Some (memtable_remove k mt)"
  memtable_get memtable_scan
  by unfold_locales
    (auto simp: memtable_store_put memtable_store_remove memtable_get_store memtable_scan_range)

section \<open>Properties\<close>

fun memtable_op :: "kv_op \<Rightarrow> MemTable \<Rightarrow> MemTable" where
  "memtable_op (Put k v) mt = memtable_put k v mt"
| "memtable_op (Remove k) mt = memtable_remove k mt"

definition memtable_run :: "kv_op list \<Rightarrow> MemTable \<Rightarrow> MemTable" where
  "memtable_run ops mt = fold memtable_op ops mt"

lemma memtable_op_store:
  "memtable_ok mt \<Longrightarrow>
     memtable_ok (memtable_op x mt) \<and> memtable_store (memtable_op x mt) = store_op x (memtable_store mt)"
  by (cases x) (auto simp: memtable_store_put memtable_store_remove)

lemma memtable_run_apply: "mem_store.apply_ops ops mt = Some (memtable_run ops mt)"
proof (induction ops arbitrary: mt)
  case Nil
  then show ?case by (simp add: memtable_run_def)
next
  case (Cons x ops)
  then show ?case by (cases x) (simp_all add: memtable_run_def)
qed

lemma memtable_run_ok: "memtable_ok mt \<Longrightarrow> memtable_ok (memtable_run ops mt)"
  using mem_store.apply_ops_view memtable_run_apply by blast

lemma memtable_run_store:
  "memtable_ok mt \<Longrightarrow> memtable_store (memtable_run ops mt) = store_ops ops (memtable_store mt)"
  using mem_store.apply_ops_view memtable_run_apply by blast

text \<open>
  C37. A MemTable is the key-value store of its operations: after any sequence of \<open>put\<close>s
  and \<open>remove\<close>s on a fresh table, \<open>get\<close> returns what the last operation on the key left
  there, and \<open>scan\<close> lists exactly the live entries of the half-open range, in key order.
\<close>

theorem memtable_is_store:
  "memtable_get (memtable_run ops MemTable_init) k = store_ops ops Map.empty k \<and>
   range_of (store_ops ops Map.empty) a b (memtable_scan (memtable_run ops MemTable_init) a b)"
  using mem_store.get_after_ops [OF memtable_ok_init memtable_run_apply]
    mem_store.scan_after_ops [OF memtable_ok_init memtable_run_apply]
  by (simp add: memtable_store_def MemTable_init_def)


end
