(* ===== verification/Upper_Bound.thy ===== *)
theory Upper_Bound
  imports Main
begin

text \<open>
  \<^verbatim>\<open>std::upper_bound\<close> with a comparison function, as the standard library computes it: a
  halving search for the first element the target is less than. It is used by
  \<^verbatim>\<open>SSTableReader::Find\<close> and \<^verbatim>\<open>ScanRaw\<close> on the sparse index. On a range that is
  partitioned by the comparison it returns the partition point; on any other range it still
  stops inside the range, which is all a corrupt index allows to be said.
\<close>

function upper_bound_loop :: "('k \<Rightarrow> 'e \<Rightarrow> bool) \<Rightarrow> 'k \<Rightarrow> 'e list \<Rightarrow> nat \<Rightarrow> nat \<Rightarrow> nat" where
  "upper_bound_loop lt k xs first len =
     (if len = 0 then first
      else let half = len div 2; middle = first + half
           in if lt k (xs ! middle) then upper_bound_loop lt k xs first half
              else upper_bound_loop lt k xs (Suc middle) (len - half - 1))"
  by pat_completeness auto
termination
  by (relation "measure (\<lambda>(lt, k, xs, first, len). len)") auto

declare upper_bound_loop.simps [simp del]

definition upper_bound :: "('k \<Rightarrow> 'e \<Rightarrow> bool) \<Rightarrow> 'k \<Rightarrow> 'e list \<Rightarrow> nat" where
  "upper_bound lt k xs = upper_bound_loop lt k xs 0 (length xs)"

lemma upper_bound_loop_bounds:
  "first \<le> upper_bound_loop lt k xs first len \<and>
   upper_bound_loop lt k xs first len \<le> first + len"
proof (induction lt k xs first len rule: upper_bound_loop.induct)
  case (1 lt k xs first len)
  show ?case
  proof (cases "len = 0")
    case True
    then show ?thesis by (simp add: upper_bound_loop.simps)
  next
    case False
    then show ?thesis
      using "1.IH" [OF False refl refl]
      by (subst (1 2) upper_bound_loop.simps) (auto simp: Let_def)
  qed
qed

lemma upper_bound_le: "upper_bound lt k xs \<le> length xs"
  using upper_bound_loop_bounds [of 0 lt k xs "length xs"] by (simp add: upper_bound_def)

text \<open>Below the result no element is greater than the target, from the result on every one is.\<close>

lemma upper_bound_loop_partition:
  assumes part: "\<And>i j. i < j \<Longrightarrow> j < length xs \<Longrightarrow> lt k (xs ! i) \<Longrightarrow> lt k (xs ! j)"
    and "first + len \<le> length xs"
    and "\<And>i. i < first \<Longrightarrow> \<not> lt k (xs ! i)"
    and "\<And>i. first + len \<le> i \<Longrightarrow> i < length xs \<Longrightarrow> lt k (xs ! i)"
  shows "(\<forall>i < upper_bound_loop lt k xs first len. \<not> lt k (xs ! i)) \<and>
    (\<forall>i. upper_bound_loop lt k xs first len \<le> i \<longrightarrow> i < length xs \<longrightarrow> lt k (xs ! i))"
  using assms
proof (induction lt k xs first len rule: upper_bound_loop.induct)
  case (1 lt k xs first len)
  show ?case
  proof (cases "len = 0")
    case True
    then show ?thesis using "1.prems" by (simp add: upper_bound_loop.simps)
  next
    case False
    let ?m = "first + len div 2"
    have m: "?m < length xs" "len div 2 < len" using False "1.prems"(2) by auto
    show ?thesis
    proof (cases "lt k (xs ! ?m)")
      case True
      have above: "lt k (xs ! i)" if "?m \<le> i" "i < length xs" for i
        using True "1.prems"(1) [of ?m i] that by (cases "?m = i") auto
      have "?m \<le> length xs" using m by simp
      from "1.IH"(1) [OF False refl refl True "1.prems"(1) this "1.prems"(3) above] False True
      show ?thesis by (simp add: upper_bound_loop.simps [of lt k xs first len] Let_def)
    next
      case ge: False
      have below: "\<not> lt k (xs ! i)" if "i < Suc ?m" for i
        using ge "1.prems"(1) [of i ?m] m that by (cases "i = ?m") auto
      have len: "Suc ?m + (len - len div 2 - 1) = first + len" using m by simp
      then have "Suc ?m + (len - len div 2 - 1) \<le> length xs" using "1.prems"(2) by simp
      from "1.IH"(2) [OF False refl refl ge "1.prems"(1) this below] "1.prems"(4) False ge len
      show ?thesis by (simp add: upper_bound_loop.simps [of lt k xs first len] Let_def)
    qed
  qed
qed

lemma upper_bound_partition:
  assumes "\<And>i j. i < j \<Longrightarrow> j < length xs \<Longrightarrow> lt k (xs ! i) \<Longrightarrow> lt k (xs ! j)"
  shows "\<forall>i < upper_bound lt k xs. \<not> lt k (xs ! i)"
    and "\<forall>i. upper_bound lt k xs \<le> i \<longrightarrow> i < length xs \<longrightarrow> lt k (xs ! i)"
  using upper_bound_loop_partition [of xs lt k 0 "length xs"] assms
  by (auto simp: upper_bound_def)

end
