(* ===== verification/Posix_Io.thy ===== *)
theory Posix_Io
  imports LSM_Prelude "HOL-Library.AList"
begin

text \<open>
  The world the engine runs in, and \<^verbatim>\<open>src/posix_io.h\<close>.

  The database directory is an association list from file names to files; a file has its
  content and the length of the prefix that is durable (\<open>fsync\<close> extends it to the whole
  content). Every system call consumes one event of a script, which decides what the
  environment does: let it proceed, make a \<open>write\<close> or \<open>read\<close> short, interrupt it
  (\<^verbatim>\<open>EINTR\<close>), fail it, or kill the process before it runs. An exhausted script lets every
  call proceed. A theorem about all scripts is about every pattern of short writes,
  interruptions and failures and every point at which the process can die.

  A program is a function from the state to a result and the new state. A C++ exception is
  \<open>Throw\<close>, which keeps the state as the code left it; a kill is \<open>Killed\<close>, after which only
  the files matter. The programs are polymorphic in the rest of the state, so that the
  database's own fields can be added to the same record.

  Not modelled: permissions, the file descriptor table (\<open>close\<close> has no effect), and the
  separate durability of directory entries: creating, renaming, removing and truncating
  take effect durably in the order the calls are made.
\<close>

section \<open>Files, events, results\<close>

datatype io_event = Proceed | Short nat | Interrupted | Io_error | Kill

record disk_file =
  content :: bytes
  synced :: nat

record world =
  files :: "(string \<times> disk_file) list"
  script :: "io_event list"

text \<open>
  The exceptions of the code: \<^verbatim>\<open>std::runtime_error\<close> with its message (without the
  \<^verbatim>\<open>strerror\<close> suffix), \<^verbatim>\<open>std::out_of_range\<close> and \<^verbatim>\<open>std::invalid_argument\<close> of the number parsers,
  \<^verbatim>\<open>std::length_error\<close> of a container. The last two are not exceptions of the code:
  \<open>Out_of_bounds\<close> marks an access outside a buffer and \<open>Undefined\<close> a call or an arithmetic
  operation outside its domain, undefined behaviour in C++.
\<close>

datatype error = Runtime_error string | Out_of_range | Invalid_argument | Length_error | Out_of_bounds | Undefined

datatype 'a result = Ret 'a | Throw error | Killed

type_synonym ('s, 'a) prog = "'s \<Rightarrow> 'a result \<times> 's"

definition ret :: "'a \<Rightarrow> ('s, 'a) prog" where
  "ret a s = (Ret a, s)"

definition throw :: "error \<Rightarrow> ('s, 'a) prog" where
  "throw e s = (Throw e, s)"

definition andthen :: "('s, 'a) prog \<Rightarrow> ('a \<Rightarrow> ('s, 'b) prog) \<Rightarrow> ('s, 'b) prog" where
  "andthen m f s = (case m s of
     (Ret a, s') \<Rightarrow> f a s' | (Throw e, s') \<Rightarrow> (Throw e, s') | (Killed, s') \<Rightarrow> (Killed, s'))"

definition lift :: "error + 'a \<Rightarrow> ('s, 'a) prog" where
  "lift r s = (case r of Inl e \<Rightarrow> (Throw e, s) | Inr a \<Rightarrow> (Ret a, s))"

lemma andthen_Ret:
  "andthen m f s = (Ret b, s'') \<longleftrightarrow> (\<exists>a s'. m s = (Ret a, s') \<and> f a s' = (Ret b, s''))"
  by (auto simp: andthen_def split: prod.splits result.splits)

lemma andthen_cases:
  assumes "andthen m f s = (r, s'')"
  obtains (ret) a s' where "m s = (Ret a, s')" "f a s' = (r, s'')"
  | (throw) e where "m s = (Throw e, s'')" "r = Throw e"
  | (killed) "m s = (Killed, s'')" "r = Killed"
  using assms by (auto simp: andthen_def split: prod.splits result.splits)

lemma ret_simps [simp]:
  "ret a s = (Ret b, s') \<longleftrightarrow> a = b \<and> s' = s" "ret a s = (r, s') \<longleftrightarrow> r = Ret a \<and> s' = s"
  "throw e s = (r, s') \<longleftrightarrow> r = Throw e \<and> s' = s"
  "lift (Inl e) s = (r, s') \<longleftrightarrow> r = Throw e \<and> s' = s"
  "lift (Inr a) s = (r, s') \<longleftrightarrow> r = Ret a \<and> s' = s"
  by (auto simp: ret_def throw_def lift_def)

lemma andthen_step: "m s = (Ret a, s') \<Longrightarrow> andthen m f s = f a s'"
  by (simp add: andthen_def)

section \<open>System calls\<close>

definition next_event :: "'x world_scheme \<Rightarrow> io_event \<times> 'x world_scheme" where
  "next_event w = (case script w of [] \<Rightarrow> (Proceed, w) | e # es \<Rightarrow> (e, w\<lparr>script := es\<rparr>))"

definition the_file :: "'x world_scheme \<Rightarrow> string \<Rightarrow> disk_file" where
  "the_file w name =
     (case map_of (files w) name of None \<Rightarrow> \<lparr>content = [], synced = 0\<rparr> | Some f \<Rightarrow> f)"

definition set_file :: "string \<Rightarrow> disk_file \<Rightarrow> 'x world_scheme \<Rightarrow> 'x world_scheme" where
  "set_file name f w = w\<lparr>files := AList.update name f (files w)\<rparr>"

definition append_file :: "string \<Rightarrow> bytes \<Rightarrow> 'x world_scheme \<Rightarrow> 'x world_scheme" where
  "append_file name data w =
     set_file name ((the_file w name)\<lparr>content := content (the_file w name) @ data\<rparr>) w"

text \<open>A call that either succeeds with an effect (\<open>True\<close>) or returns \<open>-1\<close> (\<open>False\<close>).\<close>

definition syscall ::
  "('x world_scheme \<Rightarrow> 'x world_scheme) \<Rightarrow> ('x world_scheme, bool) prog" where
  "syscall effect w =
     (case next_event w of
        (Proceed, w') \<Rightarrow> (Ret True, effect w')
      | (Short n, w') \<Rightarrow> (Ret True, effect w')
      | (Interrupted, w') \<Rightarrow> (Ret False, w')
      | (Io_error, w') \<Rightarrow> (Ret False, w')
      | (Kill, w') \<Rightarrow> (Killed, w'))"

text \<open>\<^verbatim>\<open>open\<close> with \<^verbatim>\<open>O_CREAT\<close>, keeping or (\<^verbatim>\<open>O_TRUNC\<close>) dropping the content of an existing file.\<close>

definition sys_open_append :: "string \<Rightarrow> ('x world_scheme, bool) prog" where
  "sys_open_append name = syscall (\<lambda>w. set_file name (the_file w name) w)"

definition sys_open_trunc :: "string \<Rightarrow> ('x world_scheme, bool) prog" where
  "sys_open_trunc name = syscall (set_file name \<lparr>content = [], synced = 0\<rparr>)"

text \<open>\<^verbatim>\<open>open\<close> with \<^verbatim>\<open>O_RDONLY\<close> fails when there is no such file.\<close>

definition sys_open_read :: "string \<Rightarrow> ('x world_scheme, bool) prog" where
  "sys_open_read name =
     andthen (syscall (\<lambda>w. w)) (\<lambda>ok w. (Ret (ok \<and> map_of (files w) name \<noteq> None), w))"

datatype write_result = Wrote nat | Write_eintr | Write_error

definition sys_write :: "string \<Rightarrow> bytes \<Rightarrow> ('x world_scheme, write_result) prog" where
  "sys_write name data w =
     (case next_event w of
        (Proceed, w') \<Rightarrow> (Ret (Wrote (length data)), append_file name data w')
      | (Short n, w') \<Rightarrow> (Ret (Wrote (min n (length data))), append_file name (take n data) w')
      | (Interrupted, w') \<Rightarrow> (Ret Write_eintr, w')
      | (Io_error, w') \<Rightarrow> (Ret Write_error, w')
      | (Kill, w') \<Rightarrow> (Killed, w'))"

text \<open>\<^verbatim>\<open>read\<close> of at most \<open>count\<close> bytes at an offset: \<open>None\<close> is \<open>-1\<close>, no bytes is end of file.\<close>

definition sys_read :: "string \<Rightarrow> nat \<Rightarrow> nat \<Rightarrow> ('x world_scheme, bytes option) prog" where
  "sys_read name offset count w =
     (case next_event w of
        (Proceed, w') \<Rightarrow> (Ret (Some (take count (drop offset (content (the_file w name))))), w')
      | (Short n, w') \<Rightarrow>
          (Ret (Some (take (min count (max 1 n)) (drop offset (content (the_file w name))))), w')
      | (Interrupted, w') \<Rightarrow> (Ret None, w')
      | (Io_error, w') \<Rightarrow> (Ret None, w')
      | (Kill, w') \<Rightarrow> (Killed, w'))"

definition sys_fsync :: "string \<Rightarrow> ('x world_scheme, bool) prog" where
  "sys_fsync name =
     syscall (\<lambda>w. set_file name ((the_file w name)\<lparr>synced := length (content (the_file w name))\<rparr>) w)"

text \<open>\<^verbatim>\<open>ftruncate\<close> to at most the current length, which is how the code uses it.\<close>

definition sys_ftruncate :: "string \<Rightarrow> nat \<Rightarrow> ('x world_scheme, bool) prog" where
  "sys_ftruncate name n =
     syscall (\<lambda>w. set_file name \<lparr>content = take n (content (the_file w name)),
                               synced = min n (synced (the_file w name))\<rparr> w)"

definition sys_rename :: "string \<Rightarrow> string \<Rightarrow> ('x world_scheme, bool) prog" where
  "sys_rename old new =
     syscall (\<lambda>w. set_file new (the_file w old) (w\<lparr>files := AList.delete old (files w)\<rparr>))"

definition sys_remove :: "string \<Rightarrow> ('x world_scheme, bool) prog" where
  "sys_remove name = syscall (\<lambda>w. w\<lparr>files := AList.delete name (files w)\<rparr>)"

section \<open>posix_io.h\<close>

definition ThrowErrno :: "string \<Rightarrow> ('s, 'a) prog" where
  "ThrowErrno what = throw (Runtime_error what)"

text \<open>The loop of \<open>WriteAll\<close>; \<open>written\<close> is its counter.\<close>

function write_loop :: "string \<Rightarrow> bytes \<Rightarrow> nat \<Rightarrow> ('x world_scheme, unit) prog" where
  "write_loop fd data written w =
     (if written < length data
      then (case sys_write fd (drop written data) w of
              (Ret (Wrote n), w') \<Rightarrow> write_loop fd data (written + n) w'
            | (Ret Write_eintr, w') \<Rightarrow> write_loop fd data written w'
            | (Ret Write_error, w') \<Rightarrow> ThrowErrno ''write failed'' w'
            | (Throw e, w') \<Rightarrow> (Throw e, w')
            | (Killed, w') \<Rightarrow> (Killed, w'))
      else (Ret (), w))"
  by pat_completeness auto
termination
  by (relation "measure (\<lambda>(fd, data, written, w). length (script w) + (length data - written))")
    (auto simp: sys_write_def next_event_def append_file_def set_file_def
      split: list.splits io_event.splits)

declare write_loop.simps [simp del]

definition WriteAll :: "string \<Rightarrow> bytes \<Rightarrow> ('x world_scheme, unit) prog" where
  "WriteAll fd data = write_loop fd data 0"

text \<open>The loop of \<open>ReadAll\<close>; the file offset is the number of bytes read so far.\<close>

function read_loop :: "string \<Rightarrow> bytes \<Rightarrow> ('x world_scheme, bytes) prog" where
  "read_loop fd contents w =
     (case sys_read fd (length contents) 4096 w of
        (Ret (Some chunk), w') \<Rightarrow>
          if chunk \<noteq> [] then read_loop fd (contents @ chunk) w' else (Ret contents, w')
      | (Ret None, w') \<Rightarrow> ThrowErrno ''read failed'' w'
      | (Throw e, w') \<Rightarrow> (Throw e, w')
      | (Killed, w') \<Rightarrow> (Killed, w'))"
  by pat_completeness auto
termination
  by (relation "measure (\<lambda>(fd, contents, w). length (content (the_file w fd)) - length contents)")
    (auto simp: sys_read_def next_event_def the_file_def
      split: list.splits io_event.splits if_splits)

declare read_loop.simps [simp del]

definition ReadAll :: "string \<Rightarrow> ('x world_scheme, bytes) prog" where
  "ReadAll fd = read_loop fd []"

section \<open>Laws of the file table\<close>

lemma map_of_files_set_file [simp]: "map_of (files (set_file n f w)) = (map_of (files w))(n \<mapsto> f)"
  by (simp add: set_file_def update_conv')

lemma the_file_set_file [simp]: "the_file (set_file n f w) m = (if m = n then f else the_file w m)"
  by (simp add: the_file_def)

lemma the_file_some: "map_of (files w) n = Some f \<Longrightarrow> the_file w n = f"
  by (simp add: the_file_def)

lemma the_file_script [simp]: "the_file (w\<lparr>script := s\<rparr>) n = the_file w n"
  by (simp add: the_file_def)

lemma set_file_set_file [simp]: "set_file n f (set_file n g w) = set_file n f w"
  by (simp add: set_file_def)

lemma set_file_script [simp]:
  "set_file n f (w\<lparr>script := s\<rparr>) = (set_file n f w)\<lparr>script := s\<rparr>"
  "script (set_file n f w) = script w"
  by (simp_all add: set_file_def)

lemma set_file_same: "map_of (files w) n = Some f \<Longrightarrow> set_file n f w = w"
  by (simp add: set_file_def update_triv)

lemma append_file_script [simp]:
  "append_file n d (w\<lparr>script := s\<rparr>) = (append_file n d w)\<lparr>script := s\<rparr>"
  "script (append_file n d w) = script w"
  by (simp_all add: append_file_def)

lemma append_file_append [simp]:
  "append_file n e (append_file n d w) = append_file n (d @ e) w"
  by (simp add: append_file_def)

lemma append_file_Nil: "map_of (files w) n \<noteq> None \<Longrightarrow> append_file n [] w = w"
  by (auto simp: append_file_def the_file_def set_file_same)

lemma map_of_files_append_file [simp]:
  "map_of (files (append_file n d w)) =
     (map_of (files w))(n \<mapsto> (the_file w n)\<lparr>content := content (the_file w n) @ d\<rparr>)"
  by (simp add: append_file_def)

lemma next_event_script: "next_event w = (e, w') \<Longrightarrow> w' = w\<lparr>script := tl (script w)\<rparr>"
  by (auto simp: next_event_def split: list.splits)

lemma next_event_done: "script w = [] \<Longrightarrow> next_event w = (Proceed, w)"
  by (simp add: next_event_def)

lemma take_min_length: "take (min n (length xs)) xs = take n xs"
  by (simp add: min_def)

section \<open>What a call can do\<close>

lemma syscall_cases:
  assumes "syscall effect w = (r, w')"
  obtains (succeeds) "r = Ret True" "w' = effect (w\<lparr>script := tl (script w)\<rparr>)"
  | (failed) "r = Ret False" "w' = w\<lparr>script := tl (script w)\<rparr>"
  | (killed) "r = Killed" "w' = w\<lparr>script := tl (script w)\<rparr>"
  using assms
  by (auto simp: syscall_def dest!: next_event_script split: prod.splits io_event.splits)

text \<open>The common pattern: a call whose failure throws. The continuation runs after success.\<close>

lemma checked_syscall:
  assumes "andthen (syscall effect) (\<lambda>ok. if ok then k else ThrowErrno msg) w = (r, w')"
  shows "k (effect (w\<lparr>script := tl (script w)\<rparr>)) = (r, w') \<or>
    (\<forall>a. r \<noteq> Ret a) \<and> w' = w\<lparr>script := tl (script w)\<rparr>"
  using assms
proof (cases rule: andthen_cases)
  case (ret ok w1)
  from ret(1) show ?thesis
    by (cases rule: syscall_cases) (use ret(2) in \<open>auto simp: ThrowErrno_def\<close>)
next
  case (throw e)
  then show ?thesis by (auto elim!: syscall_cases)
next
  case killed
  then show ?thesis by (auto elim!: syscall_cases)
qed

lemma checked_open_read:
  assumes "andthen (sys_open_read name) (\<lambda>ok. if \<not> ok then ThrowErrno msg else k) w = (r, w')"
  shows "map_of (files w) name \<noteq> None \<and> k (w\<lparr>script := tl (script w)\<rparr>) = (r, w') \<or>
    (\<forall>a. r \<noteq> Ret a) \<and> w' = w\<lparr>script := tl (script w)\<rparr>"
proof (cases "next_event w")
  case (Pair e w1)
  then have "w1 = w\<lparr>script := tl (script w)\<rparr>" by (rule next_event_script)
  with Pair assms show ?thesis
    by (cases e) (auto simp: andthen_def sys_open_read_def syscall_def ThrowErrno_def throw_def
        split: if_splits)
qed

lemma syscall_proceeds: "script w = [] \<Longrightarrow> syscall effect w = (Ret True, effect w)"
  by (simp add: syscall_def next_event_done)

lemma sys_write_cases:
  assumes "sys_write fd data w = (r, w')"
  obtains (wrote) n where "r = Ret (Wrote n)" "n \<le> length data"
      "w' = (append_file fd (take n data) w)\<lparr>script := tl (script w)\<rparr>"
  | (stopped) "r = Ret Write_eintr \<or> r = Ret Write_error \<or> r = Killed"
      "w' = w\<lparr>script := tl (script w)\<rparr>"
proof (cases "next_event w")
  case (Pair e w1)
  then have w1: "w1 = w\<lparr>script := tl (script w)\<rparr>" by (rule next_event_script)
  show ?thesis
  proof (cases e)
    case Proceed
    with assms Pair w1 show ?thesis by (intro wrote [of "length data"]) (auto simp: sys_write_def)
  next
    case (Short n)
    with assms Pair w1 show ?thesis
      by (intro wrote [of "min n (length data)"]) (auto simp: sys_write_def take_min_length)
  qed (use assms Pair w1 in \<open>auto simp: sys_write_def intro: stopped\<close>)
qed

text \<open>
  \<open>WriteAll\<close> under every script: the file grows by a prefix of the data, by all of it when
  the call returns; nothing else in the state changes.
\<close>

lemma write_loop_outcome:
  assumes "write_loop fd data n w = (r, w')" and "map_of (files w) fd \<noteq> None"
  shows "\<exists>p s. prefix p (drop n data) \<and> (r = Ret () \<longrightarrow> p = drop n data) \<and>
    w' = (append_file fd p w)\<lparr>script := s\<rparr>"
  using assms
proof (induction fd data n w arbitrary: r w' rule: write_loop.induct)
  case (1 fd data n w)
  show ?case
  proof (cases "n < length data")
    case False
    then have "w' = append_file fd [] w \<and> r = Ret ()"
      using "1.prems" by (simp add: write_loop.simps append_file_Nil)
    with False show ?thesis
      by (intro exI [of _ "[]"] exI [of _ "script w"]) simp
  next
    case True
    obtain c w1 where c: "sys_write fd (drop n data) w = (c, w1)" by force
    from c show ?thesis
    proof (cases rule: sys_write_cases)
      case (wrote m)
      have call: "write_loop fd data (n + m) w1 = (r, w')"
        using "1.prems"(1) True c wrote(1) by (simp add: write_loop.simps [of fd data n w])
      have ex: "map_of (files w1) fd \<noteq> None"
        by (simp add: wrote(3))
      from "1.IH"(1) [OF True c [symmetric] wrote(1) refl call ex]
      obtain p s where p: "prefix p (drop (n + m) data)" "r = Ret () \<longrightarrow> p = drop (n + m) data"
        "w' = (append_file fd p w1)\<lparr>script := s\<rparr>"
        by blast
      have split: "drop n data = take m (drop n data) @ drop (n + m) data"
        by (metis append_take_drop_id drop_drop add.commute)
      have "prefix (take m (drop n data) @ p) (drop n data)"
        using p(1) by (subst split) simp
      moreover have "w' = (append_file fd (take m (drop n data) @ p) w)\<lparr>script := s\<rparr>"
        by (simp add: p(3) wrote(3))
      moreover have "r = Ret () \<longrightarrow> take m (drop n data) @ p = drop n data"
        using p(2) split by metis
      ultimately show ?thesis by blast
    next
      case stopped
      then consider "c = Ret Write_eintr" | "c = Ret Write_error" | "c = Killed" by blast
      then show ?thesis
      proof cases
        case 1
        have call: "write_loop fd data n w1 = (r, w')"
          using "1.prems"(1) True c 1 by (simp add: write_loop.simps [of fd data n w])
        have ex: "map_of (files w1) fd \<noteq> None"
          using stopped(2) "1.prems"(2) by simp
        from "1.IH"(2) [OF True c [symmetric] 1 refl call ex] stopped(2) show ?thesis by auto
      qed (use "1.prems" True c stopped(2) in
        \<open>auto simp: write_loop.simps [of fd data n w] ThrowErrno_def append_file_Nil
          intro!: exI [of _ "[]"] exI [of _ "tl (script w)"]\<close>)
    qed
  qed
qed

lemma WriteAll_outcome:
  assumes "WriteAll fd data w = (r, w')" and "map_of (files w) fd \<noteq> None"
  shows "\<exists>p s. prefix p data \<and> (r = Ret () \<longrightarrow> p = data) \<and> w' = (append_file fd p w)\<lparr>script := s\<rparr>"
  using write_loop_outcome [OF assms(1) [unfolded WriteAll_def] assms(2)] by simp

lemma write_loop_proceeds:
  "script w = [] \<Longrightarrow> map_of (files w) fd \<noteq> None \<Longrightarrow> n \<le> length data \<Longrightarrow>
     write_loop fd data n w = (Ret (), append_file fd (drop n data) w)"
  by (cases "n < length data")
    (simp_all add: write_loop.simps [of fd data n w] sys_write_def next_event_done
      write_loop.simps [of fd data "length data"] append_file_Nil)

lemma WriteAll_proceeds:
  "script w = [] \<Longrightarrow> map_of (files w) fd \<noteq> None \<Longrightarrow> WriteAll fd data w = (Ret (), append_file fd data w)"
  by (simp add: WriteAll_def write_loop_proceeds)

text \<open>Short writes and interruptions alone never keep \<open>WriteAll\<close> from returning.\<close>

fun harmless :: "io_event \<Rightarrow> bool" where
  "harmless Io_error = False"
| "harmless Kill = False"
| "harmless e = True"

lemma in_set_tl: "x \<in> set (tl xs) \<Longrightarrow> x \<in> set xs"
  by (cases xs) auto

lemma write_loop_returns:
  "\<forall>e \<in> set (script w). harmless e \<Longrightarrow> fst (write_loop fd data n w) = Ret ()"
proof (induction fd data n w rule: write_loop.induct)
  case (1 fd data n w)
  show ?case
  proof (cases "n < length data")
    case False
    then show ?thesis by (simp add: write_loop.simps)
  next
    case True
    obtain c w1 where c: "sys_write fd (drop n data) w = (c, w1)" by force
    have h: "\<forall>e \<in> set (script w1). harmless e"
      using c "1.prems"
      by (cases rule: sys_write_cases) (auto dest: in_set_tl)
    have "c \<noteq> Ret Write_error \<and> c \<noteq> Killed"
      using c "1.prems"
      by (auto simp: sys_write_def next_event_def split: list.splits io_event.splits)
    with c show ?thesis
    proof (cases rule: sys_write_cases)
      case (wrote m)
      with "1.IH"(1) [OF True c [symmetric] wrote(1) refl h] True c show ?thesis
        by (simp add: write_loop.simps [of fd data n w])
    next
      case stopped
      then have eintr: "c = Ret Write_eintr"
        using \<open>c \<noteq> Ret Write_error \<and> c \<noteq> Killed\<close> by blast
      with "1.IH"(2) [OF True c [symmetric] eintr refl h] True c show ?thesis
        by (simp add: write_loop.simps [of fd data n w])
    qed
  qed
qed

text \<open>\<open>ReadAll\<close> returns the whole content or fails; it changes nothing.\<close>

lemma sys_read_cases:
  assumes "sys_read fd offset count w = (r, w')"
  obtains (chunk) n where "r = Ret (Some (take n (drop offset (content (the_file w fd)))))"
      "0 < count \<Longrightarrow> 0 < n"
      "w' = w\<lparr>script := tl (script w)\<rparr>"
  | (stopped) "r = Ret None \<or> r = Killed" "w' = w\<lparr>script := tl (script w)\<rparr>"
proof (cases "next_event w")
  case (Pair e w1)
  then have w1: "w1 = w\<lparr>script := tl (script w)\<rparr>" by (rule next_event_script)
  show ?thesis
  proof (cases e)
    case Proceed
    with assms Pair w1 show ?thesis by (intro chunk [of count]) (auto simp: sys_read_def)
  next
    case (Short n)
    with assms Pair w1 show ?thesis
      by (intro chunk [of "min count (max 1 n)"]) (auto simp: sys_read_def)
  qed (use assms Pair w1 in \<open>auto simp: sys_read_def intro: stopped\<close>)
qed

lemma read_loop_outcome:
  assumes "read_loop fd acc w = (r, w')" and "prefix acc (content (the_file w fd))"
  shows "(\<exists>s. w' = w\<lparr>script := s\<rparr>) \<and> (\<forall>c. r = Ret c \<longrightarrow> c = content (the_file w fd))"
  using assms
proof (induction fd acc w arbitrary: r w' rule: read_loop.induct)
  case (1 fd acc w)
  let ?c = "content (the_file w fd)"
  obtain c w1 where c: "sys_read fd (length acc) 4096 w = (c, w1)" by force
  from c show ?case
  proof (cases rule: sys_read_cases)
    case (chunk n)
    show ?thesis
    proof (cases "take n (drop (length acc) ?c) = []")
      case True
      then have "drop (length acc) ?c = []" using chunk(2) by auto
      then have "acc = ?c" using "1.prems"(2) by (auto elim!: prefixE)
      then show ?thesis
        using "1.prems"(1) c chunk True by (auto simp: read_loop.simps [of fd ?c w])
    next
      case False
      have call: "read_loop fd (acc @ take n (drop (length acc) ?c)) w1 = (r, w')"
        using "1.prems"(1) c chunk(1) False by (simp add: read_loop.simps [of fd acc w])
      have pre: "prefix (acc @ take n (drop (length acc) ?c)) (content (the_file w1 fd))"
        using "1.prems"(2) by (auto simp: chunk(3) take_is_prefix elim!: prefixE)
      from "1.IH" [OF c [symmetric] chunk(1) refl False call pre] show ?thesis
        by (auto simp: chunk(3))
    qed
  next
    case stopped
    then show ?thesis
      using "1.prems"(1) c by (auto simp: read_loop.simps [of fd acc w] ThrowErrno_def)
  qed
qed

lemma ReadAll_outcome:
  assumes "ReadAll fd w = (r, w')"
  shows "(\<exists>s. w' = w\<lparr>script := s\<rparr>) \<and> (\<forall>c. r = Ret c \<longrightarrow> c = content (the_file w fd))"
  using read_loop_outcome [OF assms [unfolded ReadAll_def]] by simp

lemma read_loop_proceeds:
  assumes "script w = []" and "prefix acc (content (the_file w fd))"
  shows "read_loop fd acc w = (Ret (content (the_file w fd)), w)"
  using assms
proof (induction fd acc w rule: read_loop.induct)
  case (1 fd acc w)
  let ?c = "content (the_file w fd)"
  have call: "sys_read fd (length acc) 4096 w = (Ret (Some (take 4096 (drop (length acc) ?c))), w)"
    using "1.prems"(1) by (simp add: sys_read_def next_event_done)
  show ?case
  proof (cases "take 4096 (drop (length acc) ?c) = []")
    case True
    then have "acc = ?c" using "1.prems"(2) by (auto elim!: prefixE)
    with call True show ?thesis by (simp add: read_loop.simps [of fd ?c w])
  next
    case False
    have "prefix (acc @ take 4096 (drop (length acc) ?c)) ?c"
      using "1.prems"(2) by (auto simp: take_is_prefix elim!: prefixE)
    with "1.IH" [OF call [symmetric] refl refl False "1.prems"(1)] call False
    show ?thesis by (simp add: read_loop.simps [of fd acc w])
  qed
qed

lemma ReadAll_proceeds: "script w = [] \<Longrightarrow> ReadAll fd w = (Ret (content (the_file w fd)), w)"
  by (simp add: ReadAll_def read_loop_proceeds)

text \<open>
  \<open>ReadAll\<close> returns the whole file or does not return: chunking and short reads never
  lose, repeat or reorder bytes.
\<close>

lemma ReadAll_whole:
  assumes "ReadAll fd w = (Ret c, w')"
  shows "c = content (the_file w fd) \<and> files w' = files w"
proof -
  obtain s where "w' = w\<lparr>script := s\<rparr>" and "c = content (the_file w fd)"
    using ReadAll_outcome [OF assms] by blast
  then show ?thesis by simp
qed

section \<open>Crashes\<close>

text \<open>
  What a crash of the machine can leave of a file: a prefix of its content that keeps at
  least the durable part. The identity is the special case of a killed process.
\<close>

definition crash_file :: "disk_file \<Rightarrow> disk_file \<Rightarrow> bool" where
  "crash_file f f' \<longleftrightarrow>
     prefix (content f') (content f) \<and> synced f \<le> synced f' \<and> synced f' \<le> length (content f')"

definition crash_files :: "(string \<times> disk_file) list \<Rightarrow> (string \<times> disk_file) list \<Rightarrow> bool" where
  "crash_files fs fs' \<longleftrightarrow> list_all2 (\<lambda>(n, f) (n', f'). n = n' \<and> crash_file f f') fs fs'"

lemma crash_files_lookup:
  "crash_files fs fs' \<Longrightarrow>
     (case (map_of fs n, map_of fs' n) of
        (Some f, Some f') \<Rightarrow> crash_file f f' | (None, None) \<Rightarrow> True | _ \<Rightarrow> False)"
  unfolding crash_files_def by (induction rule: list_all2_induct) auto

lemma crash_files_Some:
  "crash_files fs fs' \<Longrightarrow> map_of fs n = Some f \<Longrightarrow> \<exists>f'. map_of fs' n = Some f' \<and> crash_file f f'"
  using crash_files_lookup [of fs fs' n] by (auto split: option.splits)

lemma crash_files_Some':
  "crash_files fs fs' \<Longrightarrow> map_of fs' n = Some f' \<Longrightarrow> \<exists>f. map_of fs n = Some f \<and> crash_file f f'"
  using crash_files_lookup [of fs fs' n] by (auto split: option.splits)

lemma crash_files_names: "crash_files fs fs' \<Longrightarrow> map fst fs' = map fst fs"
  unfolding crash_files_def by (induction rule: list_all2_induct) auto

lemma crash_file_extends:
  "crash_file f f' \<Longrightarrow> n \<le> synced f \<Longrightarrow>
     content f' = take n (content f) @ drop n (content f') \<and>
     prefix (drop n (content f')) (drop n (content f))"
  by (auto simp: crash_file_def prefix_def)

lemma crash_file_synced:
  "crash_file f f' \<Longrightarrow> synced f = length (content f) \<Longrightarrow> content f' = content f"
proof -
  assume f: "crash_file f f'" and "synced f = length (content f)"
  then have "length (content f) \<le> length (content f')" by (simp add: crash_file_def)
  with f show ?thesis by (auto simp: crash_file_def prefix_def)
qed

section \<open>Writing ends\<close>

text \<open>
  \<open>WriteAll\<close> returns: as long as the environment only interrupts and shortens writes
  (finitely often), the loop ends with every byte written, never with an error.
\<close>

lemma WriteAll_returns:
  assumes "\<forall>e \<in> set (script w). harmless e" and "map_of (files w) fd \<noteq> None"
  shows "\<exists>s. WriteAll fd data w = (Ret (), (append_file fd data w)\<lparr>script := s\<rparr>)"
proof -
  obtain r w' where call: "WriteAll fd data w = (r, w')" by force
  moreover have "r = Ret ()"
    using write_loop_returns [OF assms(1), of fd data 0] call by (simp add: WriteAll_def)
  ultimately show ?thesis
    using WriteAll_outcome [OF call assms(2)] by auto
qed

end
