(* ===== verification/Sstable_Format.thy ===== *)
theory Sstable_Format
  imports Wal_Record Mem_Table Upper_Bound Posix_Io
begin

text \<open>
  The on-disk table format of \<^verbatim>\<open>src/sstable.cpp\<close>: what \<^verbatim>\<open>WriteSSTable\<close> puts into the three
  sections, what the constructor of \<^verbatim>\<open>SSTableReader\<close> makes of a file's contents, and the
  reader's lookups. A \<^verbatim>\<open>std::map<std::string, Entry>\<close> is a strictly sorted association
  list. File access is in \<open>Sstable_File\<close>.

  A \<^verbatim>\<open>std::string_view\<close> made from a pointer and a length is a slice of the data; where
  corrupt offsets would make it leave the buffer the model returns \<open>Out_of_bounds\<close>.
\<close>

section \<open>Writing\<close>

definition kSparseIndexInterval :: nat where
  "kSparseIndexInterval = 16"

definition kFooterSize :: nat where
  "kFooterSize = 8 + 8 + 4 + 4"

definition kMagic :: u32 where
  "kMagic = 0x53535442"

definition entry_type :: "Entry \<Rightarrow> RecordType" where
  "entry_type entry = (if is_tombstone entry then kDelete else kPut)"

text \<open>The loop over the entries: the data section and the sampled keys with their offsets.\<close>

fun data_loop ::
  "(bytes \<times> Entry) list \<Rightarrow> nat \<Rightarrow> bytes \<Rightarrow> (bytes \<times> u64) list \<Rightarrow> bytes \<times> (bytes \<times> u64) list" where
  "data_loop [] position data sparse_index = (data, sparse_index)"
| "data_loop ((key, entry) # entries) position data sparse_index =
     (let sparse_index' =
            (if position mod kSparseIndexInterval = 0
             then sparse_index @ [(key, of_nat (length data))] else sparse_index);
          data' = data @ EncodeRecord (entry_type entry) key (entry_value entry)
      in data_loop entries (Suc position) data' sparse_index')"

fun index_loop :: "(bytes \<times> u64) list \<Rightarrow> bytes \<Rightarrow> bytes" where
  "index_loop [] index_bytes = index_bytes"
| "index_loop ((key, offset) # sparse_index) index_bytes =
     (let index_bytes = PutUint32LE index_bytes (of_nat (length key));
          index_bytes = index_bytes @ key;
          index_bytes = PutUint64LE index_bytes offset
      in index_loop sparse_index index_bytes)"

text \<open>The data section, the index section and the footer.\<close>

definition sstable_sections :: "(bytes \<times> Entry) list \<Rightarrow> bytes \<times> bytes \<times> bytes" where
  "sstable_sections entries =
     (let (data, sparse_index) = data_loop entries 0 [] [];
          index_offset = of_nat (length data);
          index_bytes = index_loop sparse_index [];
          index_size = of_nat (length index_bytes);
          footer = PutUint64LE [] index_offset;
          footer = PutUint64LE footer index_size;
          footer = PutUint32LE footer (of_nat (length entries));
          footer = PutUint32LE footer kMagic
      in (data, index_bytes, footer))"

definition sstable_image :: "(bytes \<times> Entry) list \<Rightarrow> bytes" where
  "sstable_image entries =
     (case sstable_sections entries of (data, index_bytes, footer) \<Rightarrow> data @ index_bytes @ footer)"

section \<open>Reading\<close>

record IndexEntry =
  idx_key :: bytes
  idx_offset :: nat

record SSTableReader =
  reader_path :: string
  reader_data :: bytes
  reader_index :: "IndexEntry list"

function index_parse :: "string \<Rightarrow> bytes \<Rightarrow> IndexEntry list \<Rightarrow> error + IndexEntry list" where
  "index_parse path index_view index =
     (if index_view = [] then Inr index
      else if length index_view < 4 then Inl (Runtime_error (''corrupt SSTable index in '' @ path))
      else let key_len = GetUint32LE index_view; index_view = drop 4 index_view
           in if length index_view < unat key_len + 8
              then Inl (Runtime_error (''corrupt SSTable index in '' @ path))
              else let key = take (unat key_len) index_view;
                       index_view = drop (unat key_len) index_view;
                       offset = GetUint64LE index_view;
                       index_view = drop 8 index_view
                   in index_parse path index_view
                        (index @ [\<lparr>idx_key = key, idx_offset = unat offset\<rparr>]))"
  by pat_completeness auto
termination
  by (relation "measure (\<lambda>(path, index_view, index). length index_view)") auto

declare index_parse.simps [simp del]

text \<open>The constructor, after the file has been read. The footer check is 64-bit arithmetic.\<close>

definition sstable_parse :: "string \<Rightarrow> bytes \<Rightarrow> error + SSTableReader" where
  "sstable_parse path contents =
     (if length contents < kFooterSize
      then Inl (Runtime_error (''SSTable too small to contain a footer: '' @ path))
      else let footer = drop (length contents - kFooterSize) contents;
               index_offset = GetUint64LE footer;
               index_size = GetUint64LE (drop 8 footer);
               magic = GetUint32LE (drop 20 footer)
           in if magic \<noteq> kMagic then Inl (Runtime_error (''bad SSTable magic number in '' @ path))
              else if index_offset + index_size + of_nat kFooterSize \<noteq> of_nat (length contents)
              then Inl (Runtime_error (''corrupt SSTable footer offsets in '' @ path))
              else if unat index_offset + unat index_size > length contents then Inl Out_of_bounds
              else let data = take (unat index_offset) contents;
                       index_view = take (unat index_size) (drop (unat index_offset) contents)
                   in case index_parse path index_view [] of
                        Inl e \<Rightarrow> Inl e
                      | Inr index \<Rightarrow>
                          Inr \<lparr>reader_path = path, reader_data = data, reader_index = index\<rparr>)"

text \<open>The comparison both lookups hand to \<^verbatim>\<open>std::upper_bound\<close>.\<close>

definition index_less :: "bytes \<Rightarrow> IndexEntry \<Rightarrow> bool" where
  "index_less k e \<longleftrightarrow> k < idx_key e"

definition record_entry :: "DecodedRecord \<Rightarrow> Entry" where
  "record_entry r = \<lparr>entry_value = rec_value r, is_tombstone = (rec_type r = kDelete)\<rparr>"

function find_loop :: "string \<Rightarrow> bytes \<Rightarrow> bytes \<Rightarrow> error + Entry option" where
  "find_loop path key block =
     (if block = [] then Inr None
      else case DecodeRecord block DecodedRecord_init of
        (kOk, r) \<Rightarrow>
          if rec_key r = key then Inr (Some (record_entry r))
          else if key < rec_key r then Inr None
          else find_loop path key (drop (bytes_consumed r) block)
      | (kIncomplete, r) \<Rightarrow> Inl (Runtime_error (''corrupt SSTable data block in '' @ path))
      | (kCorrupt, r) \<Rightarrow> Inl (Runtime_error (''corrupt SSTable data block in '' @ path)))"
  by pat_completeness auto
termination
  by (relation "measure (\<lambda>(path, key, block). length block)")
    (fastforce dest!: DecodeRecord_consumed [OF sym])+

declare find_loop.simps [simp del]

definition Find :: "SSTableReader \<Rightarrow> bytes \<Rightarrow> error + Entry option" where
  "Find r key =
     (let index = reader_index r; data = reader_data r
      in if index = [] then Inr None
         else let it = upper_bound index_less key index
              in if it = 0 then Inr None
                 else let start_offset = idx_offset (index ! (it - 1));
                          bound_offset =
                            (if it < length index then idx_offset (index ! it) else length data)
                      in if start_offset \<le> bound_offset \<and> bound_offset \<le> length data
                         then find_loop (reader_path r) key
                                (take (bound_offset - start_offset) (drop start_offset data))
                         else Inl Out_of_bounds)"

function scan_raw_loop ::
  "string \<Rightarrow> bytes \<Rightarrow> bytes \<Rightarrow> bytes \<Rightarrow> (bytes \<times> Entry) list \<Rightarrow> error + (bytes \<times> Entry) list" where
  "scan_raw_loop path start e block results =
     (if block = [] then Inr results
      else case DecodeRecord block DecodedRecord_init of
        (kOk, r) \<Rightarrow>
          if e \<le> rec_key r then Inr results
          else scan_raw_loop path start e (drop (bytes_consumed r) block)
                 (if start \<le> rec_key r then results @ [(rec_key r, record_entry r)] else results)
      | (kIncomplete, r) \<Rightarrow> Inl (Runtime_error (''corrupt SSTable data block in '' @ path))
      | (kCorrupt, r) \<Rightarrow> Inl (Runtime_error (''corrupt SSTable data block in '' @ path)))"
  by pat_completeness auto
termination
  by (relation "measure (\<lambda>(path, start, e, block, results). length block)")
    (fastforce dest!: DecodeRecord_consumed [OF sym])+

declare scan_raw_loop.simps [simp del]

definition ScanRaw :: "SSTableReader \<Rightarrow> bytes \<Rightarrow> bytes \<Rightarrow> error + (bytes \<times> Entry) list" where
  "ScanRaw r start e =
     (let index = reader_index r; data = reader_data r
      in if index = [] then Inr []
         else let it = upper_bound index_less start index;
                  start_offset = (if it = 0 then 0 else idx_offset (index ! (it - 1)))
              in if start_offset \<le> length data
                 then scan_raw_loop (reader_path r) start e (drop start_offset data) []
                 else Inl Out_of_bounds)"

function all_raw_loop ::
  "string \<Rightarrow> bytes \<Rightarrow> (bytes \<times> Entry) list \<Rightarrow> error + (bytes \<times> Entry) list" where
  "all_raw_loop path block results =
     (if block = [] then Inr results
      else case DecodeRecord block DecodedRecord_init of
        (kOk, r) \<Rightarrow>
          all_raw_loop path (drop (bytes_consumed r) block)
            (results @ [(rec_key r, record_entry r)])
      | (kIncomplete, r) \<Rightarrow> Inl (Runtime_error (''corrupt SSTable data block in '' @ path))
      | (kCorrupt, r) \<Rightarrow> Inl (Runtime_error (''corrupt SSTable data block in '' @ path)))"
  by pat_completeness auto
termination
  by (relation "measure (\<lambda>(path, block, results). length block)")
    (fastforce dest!: DecodeRecord_consumed [OF sym])+

declare all_raw_loop.simps [simp del]

definition AllRaw :: "SSTableReader \<Rightarrow> error + (bytes \<times> Entry) list" where
  "AllRaw r = all_raw_loop (reader_path r) (reader_data r) []"

definition MergeSSTables :: "SSTableReader list \<Rightarrow> error + (bytes \<times> Entry) list" where
  "MergeSSTables readers = merge_runs AllRaw readers []"

section \<open>What a table's image consists of\<close>

definition entry_bytes :: "bytes \<times> Entry \<Rightarrow> bytes" where
  "entry_bytes p = EncodeRecord (entry_type (snd p)) (fst p) (entry_value (snd p))"

definition entry_fits :: "bytes \<times> Entry \<Rightarrow> bool" where
  "entry_fits p \<longleftrightarrow> entry_ok (snd p) \<and> length (fst p) < 2 ^ 32 \<and> length (entry_value (snd p)) < 2 ^ 32"

definition entries_bytes :: "(bytes \<times> Entry) list \<Rightarrow> bytes" where
  "entries_bytes es = concat (map entry_bytes es)"

definition entry_offset :: "(bytes \<times> Entry) list \<Rightarrow> nat \<Rightarrow> nat" where
  "entry_offset es i = length (entries_bytes (take i es))"

text \<open>Every sixteenth entry is sampled, with the offset of its record.\<close>

definition samples :: "(bytes \<times> Entry) list \<Rightarrow> nat" where
  "samples es = (length es + 15) div 16"

definition sampled :: "(bytes \<times> Entry) list \<Rightarrow> (bytes \<times> nat) list" where
  "sampled es = map (\<lambda>j. (fst (es ! (16 * j)), entry_offset es (16 * j))) [0..<samples es]"

lemma entries_bytes_simps [simp]:
  "entries_bytes [] = []" "entries_bytes (p # es) = entry_bytes p @ entries_bytes es"
  "entries_bytes (es @ fs) = entries_bytes es @ entries_bytes fs"
  by (simp_all add: entries_bytes_def)

lemma samples_index: "j < samples es \<longleftrightarrow> 16 * j < length es"
  unfolding samples_def by linarith

lemma samples_eq_0: "samples es = 0 \<longleftrightarrow> es = []"
  using samples_index [of 0 es] by auto

lemma samples_snoc:
  "samples (es @ [p]) = (if length es mod 16 = 0 then Suc (samples es) else samples es)"
proof -
  have "(n + 16) div 16 = Suc (n div 16)" "(n + 15) div 16 = (if n mod 16 = 0 then n div 16 else Suc (n div 16))"
    for n :: nat
  proof -
    obtain q r where n: "n = 16 * q + r" "r < 16"
      by (metis mult_div_mod_eq mod_less_divisor zero_less_numeral)
    then have "n div 16 = q" and "n mod 16 = r" by (simp_all add: div_nat_eqI)
    with n show "(n + 16) div 16 = Suc (n div 16)"
      and "(n + 15) div 16 = (if n mod 16 = 0 then n div 16 else Suc (n div 16))"
      by (auto intro!: div_nat_eqI)
  qed
  then show ?thesis by (simp add: samples_def add.commute)
qed

lemma samples_at: "n mod 16 = 0 \<Longrightarrow> 16 * ((n + 15) div 16) = (n :: nat)"
  by presburger

lemma sampled_snoc:
  "sampled (es @ [p]) =
     (if length es mod 16 = 0 then sampled es @ [(fst p, length (entries_bytes es))] else sampled es)"
proof -
  have old: "map (\<lambda>j. (fst ((es @ [p]) ! (16 * j)), entry_offset (es @ [p]) (16 * j))) [0..<samples es]
      = sampled es"
    by (auto simp: sampled_def samples_index entry_offset_def nth_append)
  show ?thesis
  proof (cases "length es mod 16 = 0")
    case True
    then have "16 * samples es = length es"
      by (simp add: samples_def samples_at)
    then show ?thesis
      using old True by (simp add: sampled_def samples_snoc entry_offset_def)
  qed (use old in \<open>simp add: sampled_def samples_snoc\<close>)
qed

lemma data_loop_append:
  "data_loop (es @ fs) n d s =
     (case data_loop es n d s of (d', s') \<Rightarrow> data_loop fs (n + length es) d' s')"
  by (induction es n d s rule: data_loop.induct) (simp_all add: Let_def)

lemma data_loop_eq:
  "data_loop es 0 [] [] = (entries_bytes es, map (\<lambda>(k, n). (k, of_nat n)) (sampled es))"
proof (induction es rule: rev_induct)
  case Nil
  then show ?case by (simp add: sampled_def samples_def)
next
  case (snoc p es)
  obtain k e where p: "p = (k, e)" by force
  show ?case
    using snoc p
    by (simp add: data_loop_append sampled_snoc kSparseIndexInterval_def entry_bytes_def)
qed

definition index_entry_bytes :: "bytes \<times> nat \<Rightarrow> bytes" where
  "index_entry_bytes p = PutUint32LE [] (of_nat (length (fst p))) @ fst p @ PutUint64LE [] (of_nat (snd p))"

definition index_entry_fits :: "bytes \<times> nat \<Rightarrow> bool" where
  "index_entry_fits p \<longleftrightarrow> length (fst p) < 2 ^ 32 \<and> snd p < 2 ^ 64"

lemma index_loop_eq:
  "index_loop (map (\<lambda>(k, n). (k, of_nat n)) sp) bs = bs @ concat (map index_entry_bytes sp)"
proof (induction sp arbitrary: bs)
  case Nil
  then show ?case by simp
next
  case (Cons p sp)
  obtain k n where p: "p = (k, n)" by force
  have "PutUint64LE (PutUint32LE bs (of_nat (length k)) @ k) (of_nat n) = bs @ index_entry_bytes p"
    by (simp add: p index_entry_bytes_def PutUint32LE_append [of bs]
        PutUint64LE_append [of "bs @ _"] PutUint64LE_append [of "_ @ _"])
  then show ?case
    using Cons [of "bs @ index_entry_bytes p"] p by (simp add: Let_def)
qed

definition index_section :: "(bytes \<times> Entry) list \<Rightarrow> bytes" where
  "index_section es = concat (map index_entry_bytes (sampled es))"

definition footer_bytes :: "(bytes \<times> Entry) list \<Rightarrow> bytes" where
  "footer_bytes es =
     PutUint64LE [] (of_nat (length (entries_bytes es))) @
     PutUint64LE [] (of_nat (length (index_section es))) @
     PutUint32LE [] (of_nat (length es)) @ PutUint32LE [] kMagic"

lemma sstable_sections_eq: "sstable_sections es = (entries_bytes es, index_section es, footer_bytes es)"
proof -
  have f: "PutUint32LE (PutUint32LE (PutUint64LE (PutUint64LE [] a) b) c) d =
      PutUint64LE [] a @ PutUint64LE [] b @ PutUint32LE [] c @ PutUint32LE [] d" for a b c d
    using PutUint32LE_append PutUint64LE_append by (metis append.assoc)
  show ?thesis
    by (simp add: sstable_sections_def data_loop_eq index_loop_eq Let_def f
        index_section_def footer_bytes_def)
qed

lemma sstable_image_eq: "sstable_image es = entries_bytes es @ index_section es @ footer_bytes es"
  by (simp add: sstable_image_def sstable_sections_eq)

lemma length_footer_bytes [simp]: "length (footer_bytes es) = 24"
  by (simp add: footer_bytes_def)

section \<open>Parsing the index\<close>

lemma index_parse_entry:
  assumes "index_entry_fits p"
  shows "index_parse path (index_entry_bytes p @ rest) index =
    index_parse path rest (index @ [\<lparr>idx_key = fst p, idx_offset = snd p\<rparr>])"
proof -
  have u: "unat (of_nat (length (fst p)) :: u32) = length (fst p)" "unat (of_nat (snd p) :: u64) = snd p"
    using assms by (auto simp: index_entry_fits_def unat_of_nat take_bit_eq_mod)
  have ne: "index_entry_bytes p \<noteq> []" and len: "length (index_entry_bytes p) = 12 + length (fst p)"
    by (simp_all add: index_entry_bytes_def PutUint32LE_def)
  have d4: "drop 4 (index_entry_bytes p) = fst p @ PutUint64LE [] (of_nat (snd p))"
    and d: "drop (length (fst p) + 4) (index_entry_bytes p) = PutUint64LE [] (of_nat (snd p))"
    by (simp_all add: index_entry_bytes_def)
  have g: "GetUint32LE (index_entry_bytes p @ rest) = of_nat (length (fst p))"
    by (simp add: index_entry_bytes_def)
  show ?thesis
    by (subst index_parse.simps)
      (simp add: Let_def g d4 d u ne len)
qed

lemma index_parse_all:
  "\<forall>p \<in> set sp. index_entry_fits p \<Longrightarrow>
     index_parse path (concat (map index_entry_bytes sp)) index =
     Inr (index @ map (\<lambda>(k, n). \<lparr>idx_key = k, idx_offset = n\<rparr>) sp)"
proof (induction sp arbitrary: index)
  case Nil
  then show ?case by (simp add: index_parse.simps)
next
  case (Cons p sp)
  then show ?case by (simp add: index_parse_entry split: prod.split)
qed


section \<open>The reader of an image\<close>

definition table_ok :: "(bytes \<times> Entry) list \<Rightarrow> bool" where
  "table_ok es \<longleftrightarrow>
     sorted_keys es \<and> (\<forall>p \<in> set es. entry_fits p) \<and> length (sstable_image es) < 2 ^ 64"

definition reader_for :: "string \<Rightarrow> (bytes \<times> Entry) list \<Rightarrow> SSTableReader" where
  "reader_for path es =
     \<lparr>reader_path = path, reader_data = entries_bytes es,
      reader_index = map (\<lambda>(k, n). \<lparr>idx_key = k, idx_offset = n\<rparr>) (sampled es)\<rparr>"

lemma entry_offset_le: "entry_offset es i \<le> length (entries_bytes es)"
  unfolding entry_offset_def entries_bytes_def by (rule length_concat_take_le)

lemma entry_offset_mono: "i \<le> j \<Longrightarrow> entry_offset es i \<le> entry_offset es j"
  unfolding entry_offset_def entries_bytes_def by (rule length_concat_take_mono)

lemma sampled_fits:
  assumes "table_ok es" and "p \<in> set (sampled es)"
  shows "index_entry_fits p"
proof -
  from assms(2) obtain j where j: "16 * j < length es" and p: "p = (fst (es ! (16 * j)), entry_offset es (16 * j))"
    by (auto simp: sampled_def samples_index)
  have "entry_fits (es ! (16 * j))" using assms(1) j by (simp add: table_ok_def)
  moreover have "entry_offset es (16 * j) < 2 ^ 64"
    using entry_offset_le [of es "16 * j"] assms(1) by (simp add: table_ok_def sstable_image_eq)
  ultimately show ?thesis by (simp add: p index_entry_fits_def entry_fits_def)
qed

lemma sstable_parse_image:
  assumes ok: "table_ok es"
  shows "sstable_parse path (sstable_image es) = Inr (reader_for path es)"
proof -
  let ?d = "entries_bytes es" and ?i = "index_section es" and ?f = "footer_bytes es"
  have small: "length ?d < 2 ^ 64" "length ?i < 2 ^ 64"
    using ok by (simp_all add: table_ok_def sstable_image_eq)
  then have u: "unat (of_nat (length ?d) :: u64) = length ?d" "unat (of_nat (length ?i) :: u64) = length ?i"
    by (simp_all add: unat_of_nat take_bit_eq_mod)
  have footer: "drop (length (sstable_image es) - 24) (sstable_image es) = ?f"
    by (simp add: sstable_image_eq)
  have f8: "drop 8 ?f = PutUint64LE [] (of_nat (length ?i)) @ PutUint32LE [] (of_nat (length es)) @ PutUint32LE [] kMagic"
    and f20: "drop 20 ?f = PutUint32LE [] kMagic @ []"
    by (simp_all add: footer_bytes_def)
  have fields: "GetUint64LE ?f = of_nat (length ?d)" "GetUint64LE (drop 8 ?f) = of_nat (length ?i)"
    "GetUint32LE (drop 20 ?f) = kMagic"
    unfolding f8 f20 by (simp_all add: footer_bytes_def del: append_Nil2)
  have sum: "of_nat (length ?d) + of_nat (length ?i) + of_nat kFooterSize
      = (of_nat (length (sstable_image es)) :: u64)"
    by (simp add: sstable_image_eq kFooterSize_def)
  have index: "index_parse path ?i [] = Inr (reader_index (reader_for path es))"
    using index_parse_all [of "sampled es" path "[]"] sampled_fits [OF ok]
    by (simp add: index_section_def reader_for_def)
  have data: "take (length ?d) (sstable_image es) = ?d"
    "take (length ?i) (drop (length ?d) (sstable_image es)) = ?i"
    by (simp_all add: sstable_image_eq)
  have len: "\<not> length (sstable_image es) < 24" "\<not> length (sstable_image es) < length ?d + length ?i"
    by (simp_all add: sstable_image_eq)
  have k24: "kFooterSize = 24" by (simp add: kFooterSize_def)
  show ?thesis
    unfolding sstable_parse_def Let_def k24 footer fields u index data
    using sum len by (simp add: k24 index reader_for_def)
qed

section \<open>Lookups in a data section\<close>

lemma DecodeRecord_entry:
  assumes "entry_fits p"
  shows "\<exists>r. DecodeRecord (entry_bytes p @ rest) DecodedRecord_init = (kOk, r) \<and>
    rec_key r = fst p \<and> record_entry r = snd p \<and> bytes_consumed r = length (entry_bytes p)"
proof -
  have "record_ok (entry_type (snd p), fst p, entry_value (snd p))"
    using assms by (auto simp: record_ok_def entry_fits_def entry_ok_def entry_type_def)
  from DecodeRecord_EncodeRecord [OF this, of rest DecodedRecord_init] show ?thesis
    by (auto simp: entry_bytes_def record_entry_def entry_type_def)
qed

lemma entry_bytes_nonempty [simp]: "entry_bytes p \<noteq> []"
  by (metis entry_bytes_def length_EncodeRecord list.size(3) add_is_0 zero_neq_numeral)

lemma find_loop_entries:
  "sorted_keys es \<Longrightarrow> \<forall>p \<in> set es. entry_fits p \<Longrightarrow>
     find_loop path k (entries_bytes es) = Inr (map_of es k)"
proof (induction es)
  case Nil
  then show ?case by (simp add: find_loop.simps)
next
  case (Cons p es)
  obtain x e where p: "p = (x, e)" by force
  from Cons.prems obtain r where r: "DecodeRecord (entry_bytes p @ entries_bytes es) DecodedRecord_init = (kOk, r)"
    "rec_key r = x" "record_entry r = e" "bytes_consumed r = length (entry_bytes p)"
    using DecodeRecord_entry [of p "entries_bytes es"] p by auto
  have "k < x \<Longrightarrow> map_of es k = None"
    using Cons.prems(1) p by (intro map_of_below) (auto dest: less_trans)
  with Cons r p show ?case by (subst find_loop.simps) auto
qed

lemma all_raw_loop_entries:
  "\<forall>p \<in> set es. entry_fits p \<Longrightarrow> all_raw_loop path (entries_bytes es) acc = Inr (acc @ es)"
proof (induction es arbitrary: acc)
  case Nil
  then show ?case by (simp add: all_raw_loop.simps)
next
  case (Cons p es)
  then obtain r where "DecodeRecord (entry_bytes p @ entries_bytes es) DecodedRecord_init = (kOk, r)"
    "rec_key r = fst p" "record_entry r = snd p" "bytes_consumed r = length (entry_bytes p)"
    using DecodeRecord_entry [of p "entries_bytes es"] by auto
  with Cons show ?case by (subst all_raw_loop.simps) simp
qed

lemma scan_raw_loop_entries:
  "sorted_keys es \<Longrightarrow> \<forall>p \<in> set es. entry_fits p \<Longrightarrow>
     scan_raw_loop path a b (entries_bytes es) acc
       = Inr (acc @ filter (\<lambda>p. a \<le> fst p \<and> fst p < b) es)"
proof (induction es arbitrary: acc)
  case Nil
  then show ?case by (simp add: scan_raw_loop.simps)
next
  case (Cons p es)
  then obtain r where r: "DecodeRecord (entry_bytes p @ entries_bytes es) DecodedRecord_init = (kOk, r)"
    "rec_key r = fst p" "record_entry r = snd p" "bytes_consumed r = length (entry_bytes p)"
    using DecodeRecord_entry [of p "entries_bytes es"] by auto
  show ?case
  proof (cases "b \<le> fst p")
    case True
    then have "filter (\<lambda>p. a \<le> fst p \<and> fst p < b) es = []"
      using Cons.prems(1) by (fastforce simp: filter_empty_conv)
    with True r show ?thesis by (subst scan_raw_loop.simps) (simp add: not_less)
  next
    case False
    with Cons r show ?thesis by (subst scan_raw_loop.simps) (simp add: not_le not_less)
  qed
qed


section \<open>The sparse index narrows a lookup without changing its answer\<close>

lemma sorted_keys_nth: "sorted_keys es \<Longrightarrow> i < j \<Longrightarrow> j < length es \<Longrightarrow> fst (es ! i) < fst (es ! j)"
  by (simp add: sorted_keys_def sorted_wrt_iff_nth_less)

lemma map_of_middle:
  assumes "\<forall>p \<in> set xs. fst p < (k :: 'k::linorder)" and "\<forall>p \<in> set zs. k < fst p"
  shows "map_of (xs @ ys @ zs) k = map_of ys k"
proof -
  have "map_of xs k = None"
    unfolding map_of_eq_None_iff using assms(1) by force
  moreover have "map_of zs k = None"
    unfolding map_of_eq_None_iff using assms(2) by force
  ultimately show ?thesis by (simp add: map_add_def split: option.split)
qed

lemma reader_index_simps:
  "length (reader_index (reader_for path es)) = samples es"
  "j < samples es \<Longrightarrow> reader_index (reader_for path es) ! j =
     \<lparr>idx_key = fst (es ! (16 * j)), idx_offset = entry_offset es (16 * j)\<rparr>"
  "reader_index (reader_for path es) = [] \<longleftrightarrow> es = []"
  "reader_data (reader_for path es) = entries_bytes es"
  "reader_path (reader_for path es) = path"
  by (auto simp: reader_for_def sampled_def samples_eq_0)

lemma split_block: "i \<le> j \<Longrightarrow> xs = take i xs @ take (j - i) (drop i xs) @ drop j xs"
  by (metis append.assoc append_take_drop_id le_add_diff_inverse take_add)

text \<open>The search splits the table at a sampled entry.\<close>

definition sample_bound :: "(bytes \<times> Entry) list \<Rightarrow> bytes \<Rightarrow> nat" where
  "sample_bound es k = upper_bound index_less k (reader_index (reader_for [] es))"

lemma sample_bound_reader:
  "upper_bound index_less k (reader_index (reader_for path es)) = sample_bound es k"
  by (simp add: sample_bound_def reader_for_def)

lemma sample_bound_le: "sample_bound es k \<le> samples es"
  using upper_bound_le [of index_less k "reader_index (reader_for [] es)"]
  by (simp add: sample_bound_def reader_index_simps)

lemma sample_bound_splits:
  assumes "sorted_keys es"
  shows "j < sample_bound es k \<Longrightarrow> fst (es ! (16 * j)) \<le> k"
    and "sample_bound es k \<le> j \<Longrightarrow> 16 * j < length es \<Longrightarrow> k < fst (es ! (16 * j))"
proof -
  let ?idx = "reader_index (reader_for [] es)"
  have part: "index_less k (?idx ! j)" if "i < j" "j < length ?idx" "index_less k (?idx ! i)" for i j
  proof -
    have "16 * j < length es" using that(2) by (simp add: reader_index_simps samples_index)
    then have "fst (es ! (16 * i)) < fst (es ! (16 * j))"
      using that(1) by (intro sorted_keys_nth assms) simp_all
    with that show ?thesis by (auto simp: index_less_def reader_index_simps)
  qed
  show "fst (es ! (16 * j)) \<le> k" if "j < sample_bound es k"
    using upper_bound_partition(1) [of ?idx index_less k, OF part] that
      sample_bound_le [of es k]
    by (auto simp: sample_bound_def index_less_def reader_index_simps not_less)
  show "k < fst (es ! (16 * j))" if "sample_bound es k \<le> j" "16 * j < length es"
    using upper_bound_partition(2) [of ?idx index_less k, OF part] that
    by (auto simp: sample_bound_def index_less_def reader_index_simps samples_index)
qed

text \<open>Entries before the chosen block have smaller keys, entries after it have greater ones.\<close>

lemma before_block:
  assumes "sorted_keys es" and "sample_bound es k \<noteq> 0"
    and "p \<in> set (take (16 * (sample_bound es k - 1)) es)"
  shows "fst p < k"
proof -
  let ?j = "sample_bound es k - 1"
  from assms(3) obtain i where i: "i < 16 * ?j" "i < length es" "p = es ! i"
    by (auto simp: in_set_conv_nth)
  have "16 * ?j < length es"
    using sample_bound_le [of es k] assms(2) samples_index [of ?j es] by auto
  then have "fst (es ! i) < fst (es ! (16 * ?j))"
    using i by (intro sorted_keys_nth assms(1))
  also have "\<dots> \<le> k"
    using assms(2) by (intro sample_bound_splits(1) assms(1)) simp
  finally show ?thesis using i by simp
qed

lemma after_block:
  assumes "sorted_keys es" and "p \<in> set (drop (16 * sample_bound es k) es)"
  shows "k < fst p"
proof -
  let ?j = "sample_bound es k"
  from assms(2) obtain i where "i < length (drop (16 * ?j) es)" and "p = drop (16 * ?j) es ! i"
    by (auto simp: in_set_conv_nth)
  then have i: "16 * ?j + i < length es" "p = es ! (16 * ?j + i)" by auto
  then have "k < fst (es ! (16 * ?j))"
    by (intro sample_bound_splits(2) assms(1)) simp_all
  also have "\<dots> \<le> fst (es ! (16 * ?j + i))"
    using sorted_keys_nth [OF assms(1), of "16 * ?j" "16 * ?j + i"] i by (cases "i = 0") auto
  finally show ?thesis using i by simp
qed

lemma Find_reader_for:
  assumes s: "sorted_keys es" and fits: "\<forall>p \<in> set es. entry_fits p"
  shows "Find (reader_for path es) k = Inr (map_of es k)"
proof (cases "es = [] \<or> sample_bound es k = 0")
  case True
  have "map_of es k = None" if "sample_bound es k = 0"
    using after_block [OF s, of _ k] that by (intro map_of_below) simp
  with True show ?thesis
    by (auto simp: Find_def Let_def reader_index_simps sample_bound_reader)
next
  case False
  let ?r = "reader_for path es"
  define u where "u = sample_bound es k"
  define start stop where "start = 16 * (u - 1)" and "stop = (if u < samples es then 16 * u else length es)"
  define block where "block = take (stop - start) (drop start es)"
  have u: "u \<noteq> 0" "u - 1 < samples es" "u \<le> samples es"
    using False sample_bound_le [of es k] by (auto simp: u_def)
  have le: "start \<le> stop"
    using u samples_index [of "u - 1" es] by (auto simp: start_def stop_def)
  have split: "es = take start es @ block @ drop stop es"
    unfolding block_def by (rule split_block [OF le])
  have tail: "drop stop es = drop (16 * u) es"
    using samples_index [of u es] by (auto simp: stop_def)
  have "\<forall>p \<in> set (take start es). fst p < k" "\<forall>p \<in> set (drop stop es). k < fst p"
    unfolding tail start_def using before_block [OF s] after_block [OF s] u(1) u_def by blast+
  from map_of_middle [OF this, of block] have same: "map_of es k = map_of block k"
    by (simp only: split [symmetric])
  have off: "idx_offset (reader_index ?r ! (u - 1)) = entry_offset es start"
    "(if u < samples es then idx_offset (reader_index ?r ! u) else length (entries_bytes es))
       = entry_offset es stop"
    using u by (auto simp: reader_index_simps start_def stop_def) (simp add: entry_offset_def)
  have bytes: "take (entry_offset es stop - entry_offset es start)
      (drop (entry_offset es start) (entries_bytes es)) = entries_bytes block"
    unfolding entry_offset_def entries_bytes_def block_def by (rule slice_concat_map [OF le])
  have "sorted_keys block" "\<forall>p \<in> set block. entry_fits p"
    using s fits unfolding block_def
    by (auto simp: sorted_keys_take sorted_keys_drop dest!: in_set_takeD in_set_dropD)
  then have found: "find_loop path k (entries_bytes block) = Inr (map_of es k)"
    unfolding same by (rule find_loop_entries)
  have bounds: "entry_offset es start \<le> entry_offset es stop \<and> entry_offset es stop \<le> length (entries_bytes es)"
    using entry_offset_mono [OF le] entry_offset_le by blast
  show ?thesis
    unfolding Find_def Let_def sample_bound_reader reader_index_simps(1) reader_index_simps(3-5)
      u_def [symmetric] off bytes found
    using False u bounds by simp
qed

lemma ScanRaw_reader_for:
  assumes s: "sorted_keys es" and fits: "\<forall>p \<in> set es. entry_fits p"
  shows "ScanRaw (reader_for path es) a b = Inr (filter (\<lambda>p. a \<le> fst p \<and> fst p < b) es)"
proof (cases "es = []")
  case True
  then show ?thesis by (simp add: ScanRaw_def Let_def reader_index_simps)
next
  case False
  let ?u = "sample_bound es a" and ?r = "reader_for path es"
  let ?start = "if ?u = 0 then 0 else 16 * (?u - 1)"
  have off: "(if ?u = 0 then 0 else idx_offset (reader_index ?r ! (?u - 1))) = entry_offset es ?start"
    using sample_bound_le [of es a] by (auto simp: reader_index_simps entry_offset_def)
  have block: "drop (entry_offset es ?start) (entries_bytes es) = entries_bytes (drop ?start es)"
    unfolding entry_offset_def entries_bytes_def by (rule drop_concat_map)
  let ?P = "\<lambda>p. a \<le> fst p \<and> fst p < b"
  have "fst p < a" if "p \<in> set (take ?start es)" for p
    using before_block [OF s _, of a p] that by (cases "?u = 0") auto
  then have "filter ?P (take ?start es) = []"
    unfolding filter_empty_conv by (blast dest: leD)
  moreover have "filter ?P es = filter ?P (take ?start es) @ filter ?P (drop ?start es)"
    by (simp only: filter_append [symmetric] append_take_drop_id)
  ultimately have "filter ?P es = filter ?P (drop ?start es)" by simp
  moreover have "scan_raw_loop path a b (entries_bytes (drop ?start es)) [] = Inr (filter ?P (drop ?start es))"
    using s fits scan_raw_loop_entries [of "drop ?start es" path a b "[]"]
    by (simp only: sorted_keys_drop append_Nil) (blast dest: in_set_dropD)
  ultimately have scanned: "scan_raw_loop path a b (entries_bytes (drop ?start es)) [] = Inr (filter ?P es)"
    by simp
  show ?thesis
    unfolding ScanRaw_def Let_def sample_bound_reader off reader_index_simps(3-5) block scanned
    using False entry_offset_le [of es ?start] by simp
qed

lemma AllRaw_reader_for:
  "\<forall>p \<in> set es. entry_fits p \<Longrightarrow> AllRaw (reader_for path es) = Inr es"
  by (simp add: AllRaw_def reader_for_def all_raw_loop_entries)


section \<open>A reader of a well-formed table is a sorted run\<close>

definition reader_ok :: "SSTableReader \<Rightarrow> bool" where
  "reader_ok r \<longleftrightarrow> (\<exists>path es. sorted_keys es \<and> (\<forall>p \<in> set es. entry_fits p) \<and> r = reader_for path es)"

definition reader_entries :: "SSTableReader \<Rightarrow> (bytes \<times> Entry) list" where
  "reader_entries r = (case AllRaw r of Inl e \<Rightarrow> [] | Inr es \<Rightarrow> es)"

lemma reader_ok_for [simp]:
  "sorted_keys es \<Longrightarrow> \<forall>p \<in> set es. entry_fits p \<Longrightarrow> reader_ok (reader_for path es)"
  by (auto simp: reader_ok_def)

lemma reader_entries_for [simp]:
  "\<forall>p \<in> set es. entry_fits p \<Longrightarrow> reader_entries (reader_for path es) = es"
  by (simp add: reader_entries_def AllRaw_reader_for)

lemma reader_okE:
  assumes "reader_ok r"
  obtains path es where "r = reader_for path es" "sorted_keys es" "\<forall>p \<in> set es. entry_fits p"
  using assms unfolding reader_ok_def by blast

interpretation sstable_run: sorted_run reader_ok reader_entries Find ScanRaw AllRaw
  by unfold_locales
    (auto elim!: reader_okE simp: Find_reader_for ScanRaw_reader_for AllRaw_reader_for)

lemma reader_entries_fit: "reader_ok r \<Longrightarrow> p \<in> set (reader_entries r) \<Longrightarrow> entry_fits p"
  by (auto elim!: reader_okE)

lemma MergeSSTables_layers:
  assumes "\<forall>r \<in> set rs. reader_ok r"
  obtains merged where "MergeSSTables rs = Inr merged" and "sorted_keys merged"
    and "map_of merged = sstable_run.layers rs" and "\<forall>p \<in> set merged. entry_fits p"
proof -
  obtain merged where m: "MergeSSTables rs = Inr merged" "sorted_keys merged"
    "map_of merged = sstable_run.layers rs" "set merged \<subseteq> (\<Union>r \<in> set rs. set (reader_entries r))"
    using sstable_run.merge_all_layers [OF assms sorted_keys_Nil] unfolding MergeSSTables_def by auto
  with assms have "\<forall>p \<in> set merged. entry_fits p"
    by (blast intro: reader_entries_fit)
  with m that show ?thesis by blast
qed

section \<open>Properties\<close>

text \<open>
  C11. A written table reads back exactly: parsing the image of a table succeeds, and on the
  resulting reader \<open>Find\<close> (binary search in the sparse index, then a scan of one block)
  answers every key as the table does, tombstones included, \<open>ScanRaw\<close> returns the entries
  of the half-open range in order, and \<open>AllRaw\<close> the whole table; none of them throws.
\<close>

theorem sstable_reads_back:
  assumes "table_ok es"
  shows "\<exists>r. sstable_parse path (sstable_image es) = Inr r \<and>
    (\<forall>k. Find r k = Inr (map_of es k)) \<and>
    (\<forall>a b. ScanRaw r a b = Inr (filter (\<lambda>p. a \<le> fst p \<and> fst p < b) es)) \<and>
    AllRaw r = Inr es"
  using assms
  by (simp add: sstable_parse_image Find_reader_for ScanRaw_reader_for AllRaw_reader_for table_ok_def)

theorem sstable_reads_back_witness:
  "\<exists>r. sstable_parse ''sst-000001.sst''
         (sstable_image [([1], put_entry [7]), ([2], tombstone), ([3, 0], put_entry [])]) = Inr r \<and>
    Find r [2] = Inr (Some tombstone) \<and> Find r [3] = Inr None"
proof -
  have "table_ok [([1], put_entry [7]), ([2], tombstone), ([3, 0], put_entry [])]"
    by (simp add: table_ok_def entry_fits_def sstable_image_eq entry_bytes_def length_EncodeRecord
        index_section_def sampled_def samples_def index_entry_bytes_def entry_type_def)
  from sstable_reads_back [OF this, of "''sst-000001.sst''"] show ?thesis by auto
qed

text \<open>
  C12. Merging is invisible to readers: for readers of any tables given oldest first,
  \<open>MergeSSTables\<close> yields one sorted table, and looking a key up in it gives what asking the
  readers newest to oldest and stopping at the first hit gives.
\<close>

theorem merge_preserves_lookups:
  assumes "\<forall>(path, es) \<in> set tables. sorted_keys es \<and> (\<forall>p \<in> set es. entry_fits p)"
  shows "\<exists>merged. MergeSSTables (map (\<lambda>(path, es). reader_for path es) tables) = Inr merged \<and>
    sorted_keys merged \<and>
    (\<forall>k. first_hit Find k (rev (map (\<lambda>(path, es). reader_for path es) tables)) = Inr (map_of merged k))"
proof -
  have ok: "\<forall>r \<in> set (map (\<lambda>(path, es). reader_for path es) tables). reader_ok r"
    using assms by auto
  obtain merged where "MergeSSTables (map (\<lambda>(path, es). reader_for path es) tables) = Inr merged"
    and "sorted_keys merged"
    using MergeSSTables_layers [OF ok] by blast
  then show ?thesis
    using sstable_run.first_hit_merge [OF ok] by (auto simp: MergeSSTables_def)
qed

theorem merge_preserves_lookups_witness:
  "\<exists>merged. MergeSSTables [reader_for ''a'' [([1], put_entry [7]), ([2], put_entry [8])],
                          reader_for ''b'' [([2], tombstone)]] = Inr merged \<and>
    sorted_keys merged \<and> map_of merged [2] = Some tombstone"
proof -
  let ?a = "[([1], put_entry [7]), ([2], put_entry [8])]" and ?b = "[([2], tombstone)]"
  have "\<forall>(path, es) \<in> set [(''a'', ?a), (''b'', ?b)]. sorted_keys es \<and> (\<forall>p \<in> set es. entry_fits p)"
    by (simp add: entry_fits_def)
  from merge_preserves_lookups [OF this] obtain merged
    where "MergeSSTables [reader_for ''a'' ?a, reader_for ''b'' ?b] = Inr merged" "sorted_keys merged"
      and "first_hit Find [2] [reader_for ''b'' ?b, reader_for ''a'' ?a] = Inr (map_of merged [2])"
    by auto
  then show ?thesis
    by (auto simp: Find_reader_for entry_fits_def)
qed

text \<open>
  C39. The footer check can be passed by wrapping around: a 24-byte file whose index offset
  is \<open>2 ^ 64 - 8\<close> and whose index size is 8 has the right sum, and the constructor then forms
  a view outside the buffer instead of reporting a corrupt footer.
\<close>

theorem footer_check_wraps:
  "sstable_parse path (PutUint64LE [] (- 8) @ PutUint64LE [] 8 @ PutUint32LE [] 0 @ PutUint32LE [] kMagic)
     = Inl Out_of_bounds"
proof -
  let ?c = "PutUint64LE [] (- 8) @ PutUint64LE [] 8 @ PutUint32LE [] 0 @ PutUint32LE [] kMagic"
  have d: "drop 8 ?c = PutUint64LE [] 8 @ PutUint32LE [] 0 @ PutUint32LE [] kMagic"
    "drop 20 ?c = PutUint32LE [] kMagic @ []"
    by simp_all
  have g: "GetUint64LE ?c = - 8" "GetUint64LE (drop 8 ?c) = 8" "GetUint32LE (drop 20 ?c) = kMagic"
    unfolding d by (simp_all del: append_Nil2)
  have len: "length ?c = 24" by simp
  show ?thesis
    unfolding sstable_parse_def Let_def len kFooterSize_def
    by (simp add: g del: drop_append)
qed

end
