(* ===== verification/Wal_Log.thy ===== *)
theory Wal_Log
  imports Wal_Record Posix_Io
begin

text \<open>
  \<^verbatim>\<open>include/tinylsm/wal.h\<close> and \<^verbatim>\<open>src/wal.cpp\<close>: the write-ahead log file. The file
  descriptor is the file's name. \<open>Replay\<close>'s callback is a function on a state it threads.
\<close>

section \<open>The code\<close>

definition wal_open :: "string \<Rightarrow> ('x world_scheme, unit) prog" where
  "wal_open path =
     andthen (sys_open_append path) (\<lambda>opened.
       if opened then ret () else ThrowErrno (''failed to open WAL file '' @ path))"

definition wal_append ::
  "string \<Rightarrow> RecordType \<Rightarrow> bytes \<Rightarrow> bytes \<Rightarrow> ('x world_scheme, unit) prog" where
  "wal_append path type key val =
     andthen (WriteAll path (EncodeRecord type key val)) (\<lambda>_.
     andthen (sys_fsync path) (\<lambda>ok.
       if ok then ret () else ThrowErrno (''failed to fsync WAL file '' @ path)))"

text \<open>The loop of \<open>Replay\<close>: applies each valid record and counts the bytes that are valid.\<close>

function replay_loop ::
  "(RecordType \<Rightarrow> bytes \<Rightarrow> bytes \<Rightarrow> 'm \<Rightarrow> 'm) \<Rightarrow> bytes \<Rightarrow> nat \<Rightarrow> 'm \<Rightarrow> nat \<times> 'm" where
  "replay_loop apply remaining valid_end m =
     (case DecodeRecord remaining DecodedRecord_init of
        (kOk, r) \<Rightarrow>
          replay_loop apply (drop (bytes_consumed r) remaining) (valid_end + bytes_consumed r)
            (apply (rec_type r) (rec_key r) (rec_value r) m)
      | (kIncomplete, r) \<Rightarrow> (valid_end, m)
      | (kCorrupt, r) \<Rightarrow> (valid_end, m))"
  by pat_completeness auto
termination
  by (relation "measure (\<lambda>(apply, remaining, valid_end, m). length remaining)")
    (fastforce dest!: DecodeRecord_consumed [OF sym])+

declare replay_loop.simps [simp del]

definition wal_replay ::
  "string \<Rightarrow> (RecordType \<Rightarrow> bytes \<Rightarrow> bytes \<Rightarrow> 'm \<Rightarrow> 'm) \<Rightarrow> 'm \<Rightarrow> ('x world_scheme, 'm) prog" where
  "wal_replay path apply m =
     andthen (sys_open_read path) (\<lambda>opened.
       if \<not> opened then ThrowErrno (''failed to open WAL file for replay '' @ path)
       else andthen (ReadAll path) (\<lambda>contents.
         let (valid_end, m') = replay_loop apply contents 0 m
         in if valid_end < length contents
            then andthen (sys_ftruncate path valid_end) (\<lambda>ok.
                   if ok then ret m'
                   else ThrowErrno (''failed to truncate torn tail from WAL file '' @ path))
            else ret m'))"

definition wal_reset :: "string \<Rightarrow> ('x world_scheme, unit) prog" where
  "wal_reset path =
     andthen (sys_ftruncate path 0) (\<lambda>ok.
       if ok then ret () else ThrowErrno (''failed to reset WAL file '' @ path))"

section \<open>Replay reads the records at the front of the file\<close>

definition apply_records ::
  "(RecordType \<Rightarrow> bytes \<Rightarrow> bytes \<Rightarrow> 'm \<Rightarrow> 'm) \<Rightarrow> log_record list \<Rightarrow> 'm \<Rightarrow> 'm" where
  "apply_records apply rs m = fold (\<lambda>(t, k, v). apply t k v) rs m"

text \<open>The records of a log file and the length they occupy.\<close>

abbreviation records :: "bytes \<Rightarrow> log_record list" where
  "records data \<equiv> fst (parse_records data)"

definition valid_length :: "bytes \<Rightarrow> nat" where
  "valid_length data = length data - length (snd (parse_records data))"

lemma valid_length_le: "valid_length data \<le> length data"
  by (simp add: valid_length_def)

lemma replay_loop_records:
  "replay_loop f data n m = (n + valid_length data, apply_records f (records data) m)"
proof (induction f data n m rule: replay_loop.induct)
  case (1 f data n m)
  show ?case
  proof (cases data rule: decode_cases)
    case (ok r)
    have "length (snd (parse_records (drop (bytes_consumed r) data))) \<le> length data - bytes_consumed r"
      using parse_records_rest [of "drop (bytes_consumed r) data"] by simp
    with "1.IH" [OF ok(1) [symmetric] refl] ok show ?thesis
      by (simp add: replay_loop.simps [of f data n m] parse_records_ok valid_length_def
          apply_records_def)
  next
    case (stop st)
    then show ?thesis
      by (cases st) (simp_all add: replay_loop.simps parse_records_stop valid_length_def
          apply_records_def)
  qed
qed

text \<open>A log is clean when it holds whole records only.\<close>

definition clean_log :: "bytes \<Rightarrow> bool" where
  "clean_log data \<longleftrightarrow> snd (parse_records data) = []"

lemma clean_log_valid: "clean_log (take (valid_length data) data)"
  and records_valid: "records (take (valid_length data) data) = records data"
  using parse_records_consumed [of data] by (simp_all add: clean_log_def valid_length_def)

lemma clean_log_Nil [simp]: "clean_log []" "records [] = []"
  by (simp_all add: clean_log_def wal_frames.parse_nil)

lemma clean_log_append_record:
  assumes "clean_log data" and "record_ok (t, k, v)"
  shows "clean_log (data @ EncodeRecord t k v)"
    and "records (data @ EncodeRecord t k v) = records data @ [(t, k, v)]"
  using assms parse_records_append [of data "EncodeRecord t k v"]
    wal_frames.parse_all [of "[(t, k, v)]"]
  by (simp_all add: clean_log_def encode_record_def)

lemma clean_log_append_torn:
  assumes "clean_log data" and "record_ok (t, k, v)" and "strict_prefix p (EncodeRecord t k v)"
  shows "records (data @ p) = records data" and "valid_length (data @ p) = length data"
  using assms parse_records_append [of data p] wal_frames.parse_torn [of "(t, k, v)" p]
  by (simp_all add: clean_log_def encode_record_def valid_length_def)

text \<open>Appending any prefix of a record to a clean log adds the record or nothing.\<close>

lemma clean_log_append_prefix:
  assumes "clean_log data" and "record_ok (t, k, v)" and "prefix p (EncodeRecord t k v)"
  shows "records (data @ p) = records data \<or>
    p = EncodeRecord t k v \<and> records (data @ p) = records data @ [(t, k, v)]"
  using clean_log_append_record [OF assms(1,2)] clean_log_append_torn [OF assms(1,2)] assms(3)
  by (cases "p = EncodeRecord t k v") (auto simp: strict_prefix_def)

text \<open>Whole records in front of anything.\<close>

lemma clean_log_concat:
  assumes "\<forall>r \<in> set rs. record_ok r"
  shows "records (concat (map encode_record rs) @ tail) = rs @ records tail"
    and "valid_length (concat (map encode_record rs) @ tail)
      = length (concat (map encode_record rs)) + valid_length tail"
  using wal_frames.parse_frames [OF assms, of tail] parse_records_rest [of tail]
  by (simp_all add: valid_length_def)

section \<open>Outcomes under every script\<close>

lemma wal_append_outcome:
  assumes call: "wal_append path t k v w = (r, w')"
    and f: "map_of (files w) path = Some f"
  shows "\<exists>p y s. prefix p (EncodeRecord t k v) \<and>
    w' = (set_file path (f\<lparr>content := content f @ p, synced := y\<rparr>) w)\<lparr>script := s\<rparr> \<and>
    (y = synced f \<or> y = length (content f @ p)) \<and>
    (r = Ret () \<longrightarrow> p = EncodeRecord t k v \<and> y = length (content f @ p))"
proof -
  let ?e = "EncodeRecord t k v"
  have ex: "map_of (files w) path \<noteq> None" using f by simp
  have partial: ?thesis if "prefix p ?e" and "w' = (append_file path p w)\<lparr>script := s\<rparr>"
    and "\<forall>a. r \<noteq> Ret a" for p s
    using that f
    by (intro exI [of _ p] exI [of _ "synced f"] exI [of _ s]) (simp add: append_file_def the_file_some)
  from call [unfolded wal_append_def] show ?thesis
  proof (cases rule: andthen_cases)
    case (ret a w1)
    from WriteAll_outcome [OF ret(1) ex] obtain s where w1: "w1 = (append_file path ?e w)\<lparr>script := s\<rparr>"
      by auto
    from checked_syscall [OF ret(2) [unfolded sys_fsync_def]] show ?thesis
    proof
      assume "(\<forall>a. r \<noteq> Ret a) \<and> w' = w1\<lparr>script := tl (script w1)\<rparr>"
      with partial [of ?e "tl s"] w1 show ?thesis by simp
    next
      assume "Posix_Io.ret () (set_file path
          ((the_file (w1\<lparr>script := tl (script w1)\<rparr>) path)
             \<lparr>synced := length (content (the_file (w1\<lparr>script := tl (script w1)\<rparr>) path))\<rparr>)
          (w1\<lparr>script := tl (script w1)\<rparr>)) = (r, w')"
      with w1 f show ?thesis
        by (intro exI [of _ ?e] exI [of _ "length (content f @ ?e)"] exI [of _ "tl s"])
          (simp add: append_file_def the_file_some)
    qed
  next
    case (throw e)
    with WriteAll_outcome [OF throw(1) ex] partial show ?thesis by blast
  next
    case killed
    with WriteAll_outcome [OF killed(1) ex] partial show ?thesis by blast
  qed
qed

lemma wal_replay_outcome:
  assumes call: "wal_replay path app m w = (r, w')"
    and f: "map_of (files w) path = Some f"
  shows "\<exists>c y s. w' = (set_file path (f\<lparr>content := c, synced := y\<rparr>) w)\<lparr>script := s\<rparr> \<and>
    (c = content f \<and> y = synced f \<or>
     c = take (valid_length (content f)) (content f) \<and> y = min (valid_length (content f)) (synced f)) \<and>
    (\<forall>m'. r = Ret m' \<longrightarrow>
       m' = apply_records app (records (content f)) m \<and>
       c = take (valid_length (content f)) (content f))"
proof -
  let ?vl = "valid_length (content f)" and ?m = "apply_records app (records (content f)) m"
  have unchanged: ?thesis if "\<exists>s. w' = w\<lparr>script := s\<rparr>" and "\<forall>a. r \<noteq> Ret a"
    using that f by (auto simp: set_file_same intro!: exI [of _ "content f"] exI [of _ "synced f"])
  from checked_open_read [OF call [unfolded wal_replay_def]] show ?thesis
  proof
    assume "(\<forall>a. r \<noteq> Ret a) \<and> w' = w\<lparr>script := tl (script w)\<rparr>"
    then show ?thesis using unchanged by blast
  next
    let ?w1 = "w\<lparr>script := tl (script w)\<rparr>"
    assume "map_of (files w) path \<noteq> None \<and> andthen (ReadAll path) (\<lambda>contents.
         let (valid_end, m') = replay_loop app contents 0 m
         in if valid_end < length contents
            then andthen (sys_ftruncate path valid_end) (\<lambda>ok.
                   if ok then ret m'
                   else ThrowErrno (''failed to truncate torn tail from WAL file '' @ path))
            else ret m') ?w1 = (r, w')"
    then have "andthen (ReadAll path) (\<lambda>contents.
         let (valid_end, m') = replay_loop app contents 0 m
         in if valid_end < length contents
            then andthen (sys_ftruncate path valid_end) (\<lambda>ok.
                   if ok then ret m'
                   else ThrowErrno (''failed to truncate torn tail from WAL file '' @ path))
            else ret m') ?w1 = (r, w')" by (rule conjunct2)
    then show ?thesis
    proof (cases rule: andthen_cases)
      case (ret c w2)
      from ReadAll_outcome [OF ret(1)] f obtain s2
        where c: "c = content f" and w2: "w2 = w\<lparr>script := s2\<rparr>"
        by (auto simp: the_file_some)
      note step = ret(2) [unfolded c replay_loop_records, simplified]
      show ?thesis
      proof (cases "?vl < length (content f)")
        case True
        with step have "andthen (syscall (\<lambda>w. set_file path \<lparr>content = take ?vl (content (the_file w path)),
                synced = min ?vl (synced (the_file w path))\<rparr> w)) (\<lambda>ok.
            if ok then Posix_Io.ret ?m
            else ThrowErrno (''failed to truncate torn tail from WAL file '' @ path)) w2 = (r, w')"
          by (simp add: sys_ftruncate_def)
        from checked_syscall [OF this] show ?thesis
        proof (elim disjE)
          assume "(\<forall>a. r \<noteq> Ret a) \<and> w' = w2\<lparr>script := tl (script w2)\<rparr>"
          with w2 show ?thesis by (intro unchanged) auto
        qed (use w2 f in \<open>cases f; auto simp: the_file_some
              intro!: exI [of _ "take ?vl (content f)"] exI [of _ "min ?vl (synced f)"]\<close>)
      next
        case False
        then have "?vl = length (content f)"
          using valid_length_le [of "content f"] by simp
        with step w2 f show ?thesis
          by (auto simp: set_file_same intro!: exI [of _ "content f"] exI [of _ "synced f"])
      qed
    next
      case (throw e)
      with ReadAll_outcome [OF throw(1)] unchanged show ?thesis by auto
    next
      case killed
      with ReadAll_outcome [OF killed(1)] unchanged show ?thesis by auto
    qed
  qed
qed

lemma wal_reset_outcome:
  assumes "wal_reset path w = (r, w')" and f: "map_of (files w) path = Some f"
  shows "\<exists>s. w' = (set_file path (f\<lparr>content := [], synced := 0\<rparr>) w)\<lparr>script := s\<rparr> \<and> r = Ret () \<or>
    (\<forall>a. r \<noteq> Ret a) \<and> w' = w\<lparr>script := s\<rparr>"
  using checked_syscall [OF assms(1) [unfolded wal_reset_def sys_ftruncate_def]] f
  by (cases f) (auto simp: the_file_some)

lemma wal_open_outcome:
  assumes "wal_open path w = (r, w')"
  shows "\<exists>s. w' = (set_file path (the_file w path) w)\<lparr>script := s\<rparr> \<and> r = Ret () \<or>
    (\<forall>a. r \<noteq> Ret a) \<and> w' = w\<lparr>script := s\<rparr>"
  using checked_syscall [OF assms(1) [unfolded wal_open_def sys_open_append_def]]
  by auto

section \<open>Outcomes when nothing fails\<close>

lemma wal_replay_proceeds:
  assumes "script w = []" and f: "map_of (files w) path = Some f"
  shows "wal_replay path app m w =
    (Ret (apply_records app (records (content f)) m),
     if valid_length (content f) < length (content f)
     then set_file path \<lparr>content = take (valid_length (content f)) (content f),
                         synced = min (valid_length (content f)) (synced f)\<rparr> w
     else w)"
  using assms
  by (simp add: wal_replay_def andthen_def sys_open_read_def syscall_proceeds ReadAll_proceeds
      the_file_some sys_ftruncate_def ret_def replay_loop_records)

lemma wal_append_proceeds:
  assumes "script w = []" and f: "map_of (files w) path = Some f"
  shows "wal_append path t k v w =
    (Ret (), set_file path (f\<lparr>content := content f @ EncodeRecord t k v,
                synced := length (content f @ EncodeRecord t k v)\<rparr>) w)"
  using assms
  by (simp add: wal_append_def andthen_def WriteAll_proceeds sys_fsync_def syscall_proceeds ret_def
     append_file_def the_file_some)

lemma wal_reset_proceeds:
  assumes "script w = []" and f: "map_of (files w) path = Some f"
  shows "wal_reset path w = (Ret (), set_file path \<lparr>content = [], synced = 0\<rparr> w)"
  using assms
  by (simp add: wal_reset_def andthen_def sys_ftruncate_def syscall_proceeds ret_def the_file_some)

lemma wal_open_proceeds:
  "script w = [] \<Longrightarrow> wal_open path w = (Ret (), set_file path (the_file w path) w)"
  by (simp add: wal_open_def andthen_def sys_open_append_def syscall_proceeds ret_def)

section \<open>A failed append\<close>

text \<open>The pieces of the last property: a write torn after five bytes, and the record after it.\<close>

lemma torn_write_then_failure:
  assumes "length data = 15" and "script w = [Short 5, Io_error]" and "map_of (files w) fd \<noteq> None"
  shows "WriteAll fd data w =
    (Throw (Runtime_error ''write failed''), (append_file fd (take 5 data) w)\<lparr>script := []\<rparr>)"
  using assms
  by (simp add: WriteAll_def write_loop.simps [of fd data 0] write_loop.simps [of fd data 5]
      sys_write_def next_event_def ThrowErrno_def throw_def)

lemma crc_second_record: "Crc32 [1, 1, 0, 0, 0, 1, 0, 0, 0, 98, 50] = 294358546"
  by (simp add: Crc32_ref crc32_ref_def crc_ref_step_def crc_bits_numeral)

lemma body_second_record: "record_body kPut [98] [50] = [1, 1, 0, 0, 0, 1, 0, 0, 0, 98, 50]"
  by (simp add: record_body_eq PutUint32LE_def)

lemma torn_length_field:
  assumes "length a = 5" and "length (a @ EncodeRecord kPut [98] [50] @ rest) < 294358546"
  shows "DecodeRecord (a @ EncodeRecord kPut [98] [50] @ rest) out = (kIncomplete, out)"
  using assms
  by (simp add: DecodeRecord_def Let_def kHeaderSize_def EncodeRecord_def body_second_record crc_second_record
      )

section \<open>Properties\<close>

text \<open>
  C17. \<open>Replay\<close> of a log that holds whole records followed by a torn or damaged tail, under
  every script: if it returns, the callback has been applied to exactly those records in
  order and the file is cut to exactly them; if it throws or dies, the file still holds
  them; and it does return when no call fails.
\<close>

theorem wal_replay_exact:
  assumes call: "wal_replay path app m w = (r, w')"
    and f: "map_of (files w) path = Some f"
    and log: "content f = concat (map encode_record rs) @ tail"
    and good: "\<forall>x \<in> set rs. record_ok x"
    and torn: "fst (DecodeRecord tail DecodedRecord_init) \<noteq> kOk"
  shows "(\<forall>m'. r = Ret m' \<longrightarrow>
            m' = fold (\<lambda>(t, k, v). app t k v) rs m \<and>
            content (the_file w' path) = concat (map encode_record rs)) \<and>
         prefix (concat (map encode_record rs)) (content (the_file w' path)) \<and>
         (script w = [] \<longrightarrow> (\<exists>m'. r = Ret m'))"
proof -
  have "parse_records tail = ([], tail)"
    using torn by (cases "DecodeRecord tail DecodedRecord_init") (simp add: parse_records_stop)
  then have rs: "records (content f) = rs" and
    vl: "take (valid_length (content f)) (content f) = concat (map encode_record rs)"
    using clean_log_concat [OF good, of tail] log by (simp_all add: valid_length_def)
  from wal_replay_outcome [OF call f, unfolded rs vl] log
  have "(\<forall>m'. r = Ret m' \<longrightarrow> m' = apply_records app rs m \<and>
            content (the_file w' path) = concat (map encode_record rs)) \<and>
      prefix (concat (map encode_record rs)) (content (the_file w' path))"
    by (elim exE conjE) auto
  moreover have "\<exists>m'. r = Ret m'" if "script w = []"
    using wal_replay_proceeds [OF that f, of app m] call by simp
  ultimately show ?thesis by (simp add: apply_records_def)
qed

theorem wal_replay_exact_witness:
  "\<exists>w'. wal_replay ''wal.log'' (\<lambda>t k v rs. rs @ [(t, k, v)]) []
      \<lparr>files = [(''wal.log'', \<lparr>content = EncodeRecord kPut [1] [2] @ EncodeRecord kDelete [1] [] @ [7, 7],
                              synced = 0\<rparr>)], script = []\<rparr>
    = (Ret [(kPut, [1], [2]), (kDelete, [1], [])], w') \<and>
    content (the_file w' ''wal.log'') = EncodeRecord kPut [1] [2] @ EncodeRecord kDelete [1] []"
proof -
  let ?rs = "[(kPut, [1], [2]), (kDelete, [1], [])]"
  let ?f = "\<lparr>content = EncodeRecord kPut [1] [2] @ EncodeRecord kDelete [1] [] @ [7, 7], synced = 0\<rparr>"
  let ?w = "\<lparr>files = [(''wal.log'', ?f)], script = []\<rparr>"
  obtain r w' where call: "wal_replay ''wal.log'' (\<lambda>t k v rs. rs @ [(t, k, v)]) [] ?w = (r, w')"
    by fastforce
  have "fst (DecodeRecord [7, 7] DecodedRecord_init) \<noteq> kOk"
    by (simp add: DecodeRecord_def kHeaderSize_def)
  from wal_replay_exact [OF call, of ?f ?rs "[7, 7]", OF _ _ _ this] call show ?thesis
    by (auto simp: encode_record_def record_ok_def)
qed

text \<open>
  C10. Durability and atomicity of \<open>Append\<close>, under every script and every crash of the
  machine during or after it: on a clean durable log, the records found afterwards are the
  old ones, or the old ones and the new one; and the new one is there for sure when
  \<open>Append\<close> returned.
\<close>

theorem wal_append_durable:
  assumes call: "wal_append path t k v w = (r, w')"
    and f: "map_of (files w) path = Some f"
    and log: "content f = concat (map encode_record rs)" "synced f = length (content f)"
    and good: "\<forall>x \<in> set rs. record_ok x" and new: "record_ok (t, k, v)"
    and crash: "crash_files (files w') fs'"
  shows "\<exists>f'. map_of fs' path = Some f' \<and>
    (fst (parse_records (content f')) = rs \<and> r \<noteq> Ret () \<or>
     fst (parse_records (content f')) = rs @ [(t, k, v)])"
proof -
  from wal_append_outcome [OF call f] obtain p y s where p: "prefix p (EncodeRecord t k v)"
    and w': "w' = (set_file path (f\<lparr>content := content f @ p, synced := y\<rparr>) w)\<lparr>script := s\<rparr>"
    and y: "y = synced f \<or> y = length (content f @ p)"
    and r: "r = Ret () \<longrightarrow> p = EncodeRecord t k v \<and> y = length (content f @ p)"
    by blast
  have "map_of (files w') path = Some (f\<lparr>content := content f @ p, synced := y\<rparr>)"
    using w' by simp
  from crash_files_Some [OF crash this] obtain f' where f': "map_of fs' path = Some f'"
    and c: "crash_file (f\<lparr>content := content f @ p, synced := y\<rparr>) f'"
    by blast
  then obtain q where q: "content f' = content f @ q" "prefix q p"
    using y log(2) crash_file_extends [OF c, of "length (content f)"] by auto
  have old: "clean_log (content f)" "records (content f) = rs"
    using clean_log_concat [OF good, of "[]"] log(1)
    by (simp_all add: clean_log_def wal_frames.parse_all [OF good])
  have "prefix q (EncodeRecord t k v)" using q p by auto
  from clean_log_append_prefix [OF old(1) new this]
  have outcome: "records (content f') = rs \<or>
      q = EncodeRecord t k v \<and> records (content f') = rs @ [(t, k, v)]"
    using q old by simp
  have "r = Ret () \<Longrightarrow> q = EncodeRecord t k v"
    using r crash_file_synced [OF c] q(1) by auto
  then show ?thesis
    using f' outcome clean_log_append_record [OF old(1) new] old q by auto
qed

theorem wal_append_durable_witness:
  "\<exists>f'. map_of [(''wal.log'', \<lparr>content = EncodeRecord kPut [1] [2], synced = 15\<rparr>)] ''wal.log'' = Some f' \<and>
     (fst (parse_records (content f')) = [] \<and> Ret () \<noteq> Ret () \<or>
      fst (parse_records (content f')) = [] @ [(kPut, [1], [2])])"
proof -
  let ?w = "\<lparr>files = [(''wal.log'', \<lparr>content = [], synced = 0\<rparr>)], script = []\<rparr>"
  let ?f' = "\<lparr>content = EncodeRecord kPut [1] [2], synced = 15\<rparr>"
  let ?w' = "\<lparr>files = [(''wal.log'', ?f')], script = []\<rparr>"
  have call: "wal_append ''wal.log'' kPut [1] [2] ?w = (Ret (), ?w')"
    by (subst wal_append_proceeds [where f = "\<lparr>content = [], synced = 0\<rparr>"])
      (simp_all add: set_file_def length_EncodeRecord)
  have "crash_files (files ?w') (files ?w')"
    by (simp add: crash_files_def crash_file_def length_EncodeRecord)
  from wal_append_durable [OF call, of "\<lparr>content = [], synced = 0\<rparr>" "[]", OF _ _ _ _ _ this]
  show ?thesis by (simp add: record_ok_def)
qed

text \<open>
  Cutting a log anywhere, as a crash can, keeps every record whose bytes are before the cut
  and invents none.
\<close>

lemma wal_cut_keeps_whole_records:
  assumes "\<forall>x \<in> set rs. record_ok x" and "prefix data (concat (map encode_record rs))"
    and "length (concat (map encode_record (take n rs))) \<le> length data" and "n \<le> length rs"
  shows "prefix (take n rs) (fst (parse_records data)) \<and> prefix (fst (parse_records data)) rs"
  using wal_frames.parse_cut_keeps [OF assms] by blast

text \<open>
  C18. A write error in the middle of a record is not repaired: after an \<open>Append\<close> that threw
  with five bytes written, the next \<open>Append\<close> returns normally and is durable, but it landed
  behind the torn bytes, and \<open>Replay\<close> delivers nothing.
\<close>

theorem append_failure_hides_later_record:
  "\<exists>w1 w2 w3. wal_append ''wal.log'' kPut [97] [49]
       \<lparr>files = [(''wal.log'', \<lparr>content = [], synced = 0\<rparr>)], script = [Short 5, Io_error]\<rparr>
     = (Throw (Runtime_error ''write failed''), w1) \<and>
   wal_append ''wal.log'' kPut [98] [50] w1 = (Ret (), w2) \<and>
   wal_replay ''wal.log'' (\<lambda>t k v rs. rs @ [(t, k, v)]) [] w2 = (Ret [], w3)"
proof -
  let ?A = "EncodeRecord kPut [97] [49]" and ?B = "EncodeRecord kPut [98] [50]"
  let ?w0 = "\<lparr>files = [(''wal.log'', \<lparr>content = [], synced = 0\<rparr>)], script = [Short 5, Io_error]\<rparr>"
  let ?w1 = "(append_file ''wal.log'' (take 5 ?A) ?w0)\<lparr>script := []\<rparr>"
  have w1: "wal_append ''wal.log'' kPut [97] [49] ?w0 = (Throw (Runtime_error ''write failed''), ?w1)"
    using torn_write_then_failure [of ?A ?w0 "''wal.log''"]
    by (simp add: wal_append_def andthen_def length_EncodeRecord)
  let ?f1 = "\<lparr>content = take 5 ?A, synced = 0\<rparr>"
  let ?f2 = "\<lparr>content = take 5 ?A @ ?B, synced = length (take 5 ?A @ ?B)\<rparr>"
  let ?w2 = "set_file ''wal.log'' ?f2 ?w1"
  have w2: "wal_append ''wal.log'' kPut [98] [50] ?w1 = (Ret (), ?w2)"
    using wal_append_proceeds [of ?w1 "''wal.log''" ?f1] by (simp add: the_file_def)
  have "records (take 5 ?A @ ?B) = []"
    using torn_length_field [of "take 5 ?A" "[]" DecodedRecord_init]
    by (simp add: length_EncodeRecord parse_records_stop)
  then have "\<exists>w3. wal_replay ''wal.log'' (\<lambda>t k v rs. rs @ [(t, k, v)]) [] ?w2 = (Ret [], w3)"
    by (subst wal_replay_proceeds [where f = ?f2]) (simp_all add: apply_records_def)
  with w1 w2 show ?thesis by blast
qed

end
