(* ===== verification/Sstable_File.thy ===== *)
theory Sstable_File
  imports Sstable_Format Wal_Log
begin

text \<open>
  The file side of \<^verbatim>\<open>src/sstable.cpp\<close>: \<open>WriteSSTable\<close> (temporary file, three writes,
  \<^verbatim>\<open>fsync\<close>, rename) and opening a reader. When a write throws, the C++ code leaks the
  descriptor and leaves the temporary file; both are visible here only as the file that stays.
\<close>

section \<open>The code\<close>

definition WriteSSTable :: "string \<Rightarrow> (bytes \<times> Entry) list \<Rightarrow> ('x world_scheme, unit) prog" where
  "WriteSSTable path entries =
     (case sstable_sections entries of (data, index_bytes, footer) \<Rightarrow>
      let tmp_path = path @ ''.tmp''
      in andthen (sys_open_trunc tmp_path) (\<lambda>opened.
         if opened then
           andthen (WriteAll tmp_path data) (\<lambda>_.
           andthen (WriteAll tmp_path index_bytes) (\<lambda>_.
           andthen (WriteAll tmp_path footer) (\<lambda>_.
           andthen (sys_fsync tmp_path) (\<lambda>synced.
           if synced then
             andthen (sys_rename tmp_path path) (\<lambda>renamed.
             if renamed then ret ()
             else throw (Runtime_error (''failed to rename '' @ tmp_path @ '' to '' @ path)))
           else ThrowErrno (''failed to fsync SSTable temp file '' @ tmp_path)))))
         else ThrowErrno (''failed to create SSTable temp file '' @ tmp_path)))"

definition SSTableReader_open :: "string \<Rightarrow> ('x world_scheme, SSTableReader) prog" where
  "SSTableReader_open path =
     andthen (sys_open_read path) (\<lambda>opened.
       if \<not> opened then ThrowErrno (''failed to open SSTable '' @ path)
       else andthen (ReadAll path) (\<lambda>contents. lift (sstable_parse path contents)))"

section \<open>Which files a call touches\<close>

text \<open>At most the file \<open>n\<close> differs, and nothing but files and script.\<close>

definition touches :: "string \<Rightarrow> 'x world_scheme \<Rightarrow> 'x world_scheme \<Rightarrow> bool" where
  "touches n w w' \<longleftrightarrow>
     (\<exists>fs s t. w' = w\<lparr>files := fs, script := s\<rparr> \<and> map_of fs = (map_of (files w))(n := t))"

lemma touches_refl [intro, simp]: "touches n w w"
  unfolding touches_def
  by (intro exI [of _ "files w"] exI [of _ "script w"] exI [of _ "map_of (files w) n"]) simp

lemma touches_steps:
  assumes "touches n w w'"
  shows "touches n w (w'\<lparr>script := s\<rparr>)" and "touches n w (set_file n f w')"
    and "touches n w (append_file n d w')"
proof -
  from assms obtain fs s' t where w': "w' = w\<lparr>files := fs, script := s'\<rparr>"
    and fs: "map_of fs = (map_of (files w))(n := t)"
    unfolding touches_def by blast
  show "touches n w (w'\<lparr>script := s\<rparr>)"
    unfolding touches_def using w' fs by auto
  show set: "touches n w (set_file n f w')" for f
    unfolding touches_def set_file_def using w' fs
    by (intro exI [of _ "AList.update n f fs"] exI [of _ s'] exI [of _ "Some f"]) (simp add: update_conv')
  show "touches n w (append_file n d w')"
    unfolding append_file_def by (rule set)
qed

lemma touches_other: "touches n w w' \<Longrightarrow> m \<noteq> n \<Longrightarrow> map_of (files w') m = map_of (files w) m"
  by (auto simp: touches_def)

definition sstable_file :: "(bytes \<times> Entry) list \<Rightarrow> disk_file" where
  "sstable_file es = \<lparr>content = sstable_image es, synced = length (sstable_image es)\<rparr>"

text \<open>A step that fails keeps what was touched; a step that succeeds hands over to the rest.\<close>

lemma checked_step:
  assumes "andthen (syscall effect) (\<lambda>ok. if ok then k else ThrowErrno msg) w1 = (r, w')"
    and "touches fd w w1"
  obtains (failed) "\<forall>a. r \<noteq> Ret a" "touches fd w w'"
  | (passed) s where "k (effect (w1\<lparr>script := s\<rparr>)) = (r, w')"
  using checked_syscall [OF assms(1)] assms(2) by (auto intro!: touches_steps)

lemma WriteAll_step:
  assumes "andthen (WriteAll fd data) k w1 = (r, w')" and "touches fd w w1"
    and "map_of (files w1) fd \<noteq> None"
  obtains (failed) "\<forall>a. r \<noteq> Ret a" "touches fd w w'"
  | (passed) s where "k () ((append_file fd data w1)\<lparr>script := s\<rparr>) = (r, w')"
  using assms(1)
proof (cases rule: andthen_cases)
  case (ret a w2)
  with WriteAll_outcome [OF ret(1) assms(3)] that(2) show ?thesis by auto
next
  case (throw e)
  with WriteAll_outcome [OF throw(1) assms(3)] assms(2) that(1) show ?thesis
    by (auto intro!: touches_steps)
next
  case killed
  with WriteAll_outcome [OF killed(1) assms(3)] assms(2) that(1) show ?thesis
    by (auto intro!: touches_steps)
qed

text \<open>The target path: untouched until the rename, complete and durable from then on.\<close>

lemma WriteSSTable_outcome:
  assumes call: "WriteSSTable path es w = (r, w')"
  obtains (written) fs s where "r = Ret ()" "w' = w\<lparr>files := fs, script := s\<rparr>"
      "map_of fs = (map_of (files w))(path @ ''.tmp'' := None, path \<mapsto> sstable_file es)"
  | (failed) "\<forall>a. r \<noteq> Ret a" "touches (path @ ''.tmp'') w w'"
proof -
  let ?tmp = "path @ ''.tmp''"
  note code = call [unfolded WriteSSTable_def sstable_sections_eq prod.case Let_def sys_open_trunc_def
      sys_fsync_def sys_rename_def, folded ThrowErrno_def]
  note touched = touches_steps touches_refl
  from code touches_refl show ?thesis
  proof (cases rule: checked_step)
    case (passed s1)
    let ?w1 = "set_file ?tmp \<lparr>content = [], synced = 0\<rparr> (w\<lparr>script := s1\<rparr>)"
    have t1: "touches ?tmp w ?w1" and e1: "map_of (files ?w1) ?tmp \<noteq> None"
      by (intro touched) simp
    from passed t1 e1 show ?thesis
    proof (cases rule: WriteAll_step)
      case (passed s2)
      let ?w2 = "(append_file ?tmp (entries_bytes es) ?w1)\<lparr>script := s2\<rparr>"
      have t2: "touches ?tmp w ?w2" and e2: "map_of (files ?w2) ?tmp \<noteq> None"
        by (intro touched) simp
      from passed t2 e2 show ?thesis
      proof (cases rule: WriteAll_step)
        case (passed s3)
        let ?w3 = "(append_file ?tmp (index_section es) ?w2)\<lparr>script := s3\<rparr>"
        have t3: "touches ?tmp w ?w3" and e3: "map_of (files ?w3) ?tmp \<noteq> None"
          by (intro touched) simp
        from passed t3 e3 show ?thesis
        proof (cases rule: WriteAll_step)
          case (passed s4)
          let ?w4 = "(append_file ?tmp (footer_bytes es) ?w3)\<lparr>script := s4\<rparr>"
          have t4: "touches ?tmp w ?w4" by (intro touched)
          from passed t4 show ?thesis
          proof (cases rule: checked_step)
            case (passed s5)
            let ?w5 = "set_file ?tmp (sstable_file es) (w\<lparr>script := s5\<rparr>)"
            have "set_file ?tmp ((the_file (?w4\<lparr>script := s5\<rparr>) ?tmp)
                \<lparr>synced := length (content (the_file (?w4\<lparr>script := s5\<rparr>) ?tmp))\<rparr>) (?w4\<lparr>script := s5\<rparr>) = ?w5"
              by (simp add: append_file_def sstable_file_def sstable_image_eq)
            note passed5 = passed [unfolded this]
            have t5: "touches ?tmp w ?w5" by (intro touched)
            from passed5 t5 show ?thesis
            proof (cases rule: checked_step)
              case (passed s6)
              then show ?thesis
                by (intro written [where fs = "files w'" and s = "script w'"])
                  (auto simp: set_file_def update_conv' delete_conv' the_file_def)
            qed (rule failed)
          qed (rule failed)
        qed (rule failed)
      qed (rule failed)
    qed (rule failed)
  qed (rule failed)
qed


lemma WriteSSTable_proceeds:
  assumes "script w = []"
  shows "\<exists>fs. WriteSSTable path es w = (Ret (), w\<lparr>files := fs\<rparr>) \<and>
    map_of fs = (map_of (files w))(path @ ''.tmp'' := None, path \<mapsto> sstable_file es)"
  using assms
  by (simp add: WriteSSTable_def sstable_sections_eq sys_open_trunc_def andthen_def syscall_proceeds
      WriteAll_proceeds sys_fsync_def sys_rename_def ret_def Let_def append_file_def)
    (simp add: set_file_def sstable_file_def sstable_image_eq,
      rule exI, rule conjI, rule refl, simp add: update_conv' delete_conv')

lemma SSTableReader_open_outcome:
  assumes call: "SSTableReader_open path w = (r, w')"
  shows "\<exists>s. w' = w\<lparr>script := s\<rparr> \<and>
    (\<forall>rd. r = Ret rd \<longrightarrow> (\<exists>f. map_of (files w) path = Some f \<and> sstable_parse path (content f) = Inr rd))"
proof (cases "map_of (files w) path")
  case None
  with checked_open_read [OF call [unfolded SSTableReader_open_def]] show ?thesis by auto
next
  case (Some f)
  from checked_open_read [OF call [unfolded SSTableReader_open_def]] show ?thesis
  proof (elim disjE conjE)
    assume "andthen (ReadAll path) (\<lambda>contents. lift (sstable_parse path contents))
      (w\<lparr>script := tl (script w)\<rparr>) = (r, w')"
    then show ?thesis
    proof (cases rule: andthen_cases)
      case (ret c w2)
      with ReadAll_outcome [OF ret(1)] Some show ?thesis
        by (cases "sstable_parse path c") (auto simp: the_file_some)
    qed (auto dest!: ReadAll_outcome)
  qed auto
qed

lemma SSTableReader_open_proceeds:
  "script w = [] \<Longrightarrow> map_of (files w) path = Some f \<Longrightarrow>
     SSTableReader_open path w = lift (sstable_parse path (content f)) w"
  by (simp add: SSTableReader_open_def sys_open_read_def andthen_def syscall_proceeds
      ReadAll_proceeds the_file_some)


lemma crash_sstable_file: "crash_file (sstable_file es) f' \<Longrightarrow> f' = sstable_file es"
  using crash_file_synced [of "sstable_file es" f']
  by (cases f') (auto simp: sstable_file_def crash_file_def)

lemma tmp_neq [simp]: "path @ ''.tmp'' \<noteq> path" "path \<noteq> path @ ''.tmp''"
  by auto

text \<open>
  What \<open>WriteSSTable\<close> writes, the constructor of \<open>SSTableReader\<close> opens: when no call
  fails, writing any table the format can hold and opening it returns the reader of exactly
  that table.
\<close>

lemma sstable_write_open:
  assumes "script w = []" and "table_ok es"
  shows "\<exists>w'. andthen (WriteSSTable path es) (\<lambda>_. SSTableReader_open path) w
      = (Ret (reader_for path es), w')"
proof -
  obtain fs where "WriteSSTable path es w = (Ret (), w\<lparr>files := fs\<rparr>)"
    and "map_of fs = (map_of (files w))(path @ ''.tmp'' := None, path \<mapsto> sstable_file es)"
    using WriteSSTable_proceeds [OF assms(1)] by blast
  then show ?thesis
    using assms by (simp add: andthen_def SSTableReader_open_proceeds sstable_file_def
        sstable_parse_image lift_def)
qed

section \<open>Properties\<close>

text \<open>
  C13. Writing a table is atomic under every script and every crash: if \<open>WriteSSTable\<close>
  returned, the complete table is at the path and survives the crash; if it threw or died,
  the path still holds what it held before; files other than the path and its temporary
  file never change.
\<close>

theorem sstable_write_atomic:
  assumes call: "WriteSSTable path es w = (r, w')" and crash: "crash_files (files w') fs'"
  shows "(if r = Ret () then map_of fs' path = Some (sstable_file es)
          else map_of (files w') path = map_of (files w) path) \<and>
    (\<forall>n. n \<notin> {path, path @ ''.tmp''} \<longrightarrow> map_of (files w') n = map_of (files w) n)"
  using call
proof (cases rule: WriteSSTable_outcome)
  case (written fs s)
  then have "map_of (files w') path = Some (sstable_file es)" by simp
  from crash_files_Some [OF crash this] have "map_of fs' path = Some (sstable_file es)"
    using crash_sstable_file by auto
  with written show ?thesis by simp
next
  case failed
  then show ?thesis by (auto dest: touches_other)
qed

theorem sstable_write_atomic_witness:
  "\<exists>w' :: world. WriteSSTable ''t'' [([1], put_entry [2])]
      \<lparr>files = [(''t'', \<lparr>content = [9], synced = 1\<rparr>)], script = [Proceed, Short 3, Kill]\<rparr> = (Killed, w') \<and>
    map_of (files w') ''t'' = Some \<lparr>content = [9], synced = 1\<rparr>"
proof -
  let ?w = "\<lparr>files = [(''t'', \<lparr>content = [9], synced = 1\<rparr>)], script = [Proceed, Short 3, Kill]\<rparr> :: world"
  have len: "length (entries_bytes [([1], put_entry [2])]) = 15"
    by (simp add: entry_bytes_def length_EncodeRecord entry_type_def)
  let ?d = "entries_bytes [([1], put_entry [2])]"
  let ?w' = "\<lparr>files = [(''t'', \<lparr>content = [9], synced = 1\<rparr>), (''t.tmp'', \<lparr>content = take 3 ?d, synced = 0\<rparr>)],
    script = []\<rparr> :: world"
  have call: "WriteSSTable ''t'' [([1], put_entry [2])] ?w = (Killed, ?w')"
    using len
    by (simp add: WriteSSTable_def sstable_sections_eq Let_def andthen_def sys_open_trunc_def syscall_def
        next_event_def WriteAll_def write_loop.simps [of _ ?d 0] write_loop.simps [of _ ?d 3]
        sys_write_def append_file_def set_file_def the_file_def del: entries_bytes_simps)
  moreover have "crash_files (files ?w') (files ?w')"
    using len by (simp add: crash_files_def crash_file_def)
  ultimately show ?thesis
    using sstable_write_atomic [OF call] by simp
qed


end
