(* ===== verification/Db_Names.thy ===== *)
theory Db_Names
  imports Posix_Io
begin

text \<open>
  The file names of a database directory: the helpers at the top of \<^verbatim>\<open>src/database.cpp\<close> and
  the two library functions they and the constructor use, \<^verbatim>\<open>std::stoull\<close> on a string of
  digits and \<^verbatim>\<open>std::filesystem::path::extension\<close>. Characters are \<^typ>\<open>char\<close>, names strings.
\<close>

section \<open>The code\<close>

text \<open>\<^verbatim>\<open>"%llu"\<close>, and the zero padding of \<^verbatim>\<open>"%06llu"\<close>.\<close>

fun digit_char :: "nat \<Rightarrow> char" where
  "digit_char d = char_of (48 + d)"

function decimal :: "nat \<Rightarrow> string" where
  "decimal n = (if n < 10 then [digit_char n] else decimal (n div 10) @ [digit_char (n mod 10)])"
  by pat_completeness auto
termination by (relation "measure (\<lambda>n. n)") auto

declare decimal.simps [simp del]

definition zero_padded :: "nat \<Rightarrow> string \<Rightarrow> string" where
  "zero_padded width s = replicate (width - length s) (CHR ''0'') @ s"

definition SSTableFilename :: "u64 \<Rightarrow> string" where
  "SSTableFilename number = ''sst-'' @ zero_padded 6 (decimal (unat number)) @ ''.sst''"

definition isdigit :: "char \<Rightarrow> bool" where
  "isdigit c \<longleftrightarrow> 48 \<le> (of_char c :: nat) \<and> (of_char c :: nat) \<le> 57"

text \<open>\<^verbatim>\<open>std::stoull\<close> of a non-empty string of digits: the number, or \<^verbatim>\<open>std::out_of_range\<close>.\<close>

definition digits_value :: "string \<Rightarrow> nat" where
  "digits_value s = foldl (\<lambda>n c. 10 * n + (of_char c - 48)) 0 s"

definition stoull :: "string \<Rightarrow> error + u64" where
  "stoull digits =
     (if digits_value digits < 2 ^ 64 then Inr (of_nat (digits_value digits)) else Inl Out_of_range)"

definition ParseSSTableNumber :: "string \<Rightarrow> error + u64 option" where
  "ParseSSTableNumber filename =
     (let kPrefix = ''sst-''; kSuffix = ''.sst''
      in if length filename \<le> length kPrefix + length kSuffix then Inr None
         else if take (length kPrefix) filename \<noteq> kPrefix then Inr None
         else if drop (length filename - length kSuffix) filename \<noteq> kSuffix then Inr None
         else let digits = take (length filename - length kPrefix - length kSuffix)
                             (drop (length kPrefix) filename);
                  all_digits = (digits \<noteq> [] \<and> list_all isdigit digits)
              in if \<not> all_digits then Inr None
                 else case stoull digits of Inl e \<Rightarrow> Inl e | Inr number \<Rightarrow> Inr (Some number))"

text \<open>
  \<^verbatim>\<open>path::extension\<close> of a file name: from the last period on, nothing when there is none, when
  it is the first character, or for the names dot and dot-dot.
\<close>

definition path_extension :: "string \<Rightarrow> string" where
  "path_extension name =
     (let stem = rev (dropWhile (\<lambda>c. c \<noteq> CHR ''.'') (rev name)); n = length stem
      in if name = ''.'' \<or> name = ''..'' \<or> n \<le> 1 then [] else drop (n - 1) name)"

section \<open>Numbers and names\<close>

lemma of_char_digit: "d < 10 \<Longrightarrow> of_char (digit_char d) = 48 + (d :: nat)"
  by simp

lemma isdigit_digit: "d < 10 \<Longrightarrow> isdigit (digit_char d)"
  by (simp add: isdigit_def)

lemma digits_value_snoc: "digits_value (s @ [c]) = 10 * digits_value s + (of_char c - 48)"
  by (simp add: digits_value_def)

lemma digits_value_decimal [simp]: "digits_value (decimal n) = n"
proof (induction n rule: decimal.induct)
  case (1 n)
  show ?case
  proof (cases "n < 10")
    case True
    then show ?thesis by (simp add: decimal.simps [of n] digits_value_def)
  next
    case False
    with 1 show ?thesis by (simp add: decimal.simps [of n] digits_value_snoc)
  qed
qed

lemma digits_decimal: "list_all isdigit (decimal n)" "decimal n \<noteq> []"
proof (induction n rule: decimal.induct)
  case (1 n)
  { case 1 then show ?case using "1.IH" by (simp add: decimal.simps [of n] isdigit_digit del: digit_char.simps) }
  { case 2 then show ?case by (simp add: decimal.simps [of n]) }
qed

lemma digits_value_zeros: "digits_value (replicate m (CHR ''0'') @ s) = digits_value s"
  by (induction m) (simp_all add: digits_value_def)

lemma unat_word_less: "unat (n :: u64) < 2 ^ 64"
  using unsigned_less [of n] by simp

lemma stoull_padded: "stoull (zero_padded 6 (decimal (unat number))) = Inr number"
  using unat_word_less [of number]
  by (simp add: stoull_def zero_padded_def digits_value_zeros)

lemma digits_padded:
  "list_all isdigit (zero_padded m (decimal n))" "zero_padded m (decimal n) \<noteq> []"
  using digits_decimal [of n] by (auto simp: zero_padded_def list_all_iff isdigit_def)

text \<open>File names and numbers round trip, so two tables never share a name.\<close>

lemma Parse_Filename: "ParseSSTableNumber (SSTableFilename n) = Inr (Some n)"
  using digits_padded [of 6 "unat n"]
  by (simp add: ParseSSTableNumber_def SSTableFilename_def Let_def stoull_padded)

lemma SSTableFilename_inj [simp]: "SSTableFilename m = SSTableFilename n \<longleftrightarrow> m = n"
  by (metis Parse_Filename Inr_inject option.inject)


section \<open>Names that are not table names\<close>

lemma extension_tmp [simp]: "path_extension (SSTableFilename n @ ''.tmp'') = ''.tmp''"
  by (simp add: path_extension_def SSTableFilename_def Let_def)

lemma extension_sst [simp]: "path_extension (SSTableFilename n) = ''.sst''"
  by (simp add: path_extension_def SSTableFilename_def Let_def)

lemma extension_wal [simp]: "path_extension ''wal.log'' = ''.log''"
  by (simp add: path_extension_def Let_def)

lemma Parse_wal [simp]: "ParseSSTableNumber ''wal.log'' = Inr None"
  by (simp add: ParseSSTableNumber_def Let_def)

lemma Parse_tmp [simp]: "ParseSSTableNumber (SSTableFilename n @ ''.tmp'') = Inr None"
  by (simp add: ParseSSTableNumber_def SSTableFilename_def Let_def)

lemma names_differI: "path_extension a \<noteq> path_extension b \<Longrightarrow> a \<noteq> b"
  by blast

lemma names_differ [simp]:
  "SSTableFilename n \<noteq> ''wal.log''" "''wal.log'' \<noteq> SSTableFilename n"
  "SSTableFilename n @ ''.tmp'' \<noteq> ''wal.log''" "''wal.log'' \<noteq> SSTableFilename n @ ''.tmp''"
  "SSTableFilename m \<noteq> SSTableFilename n @ ''.tmp''" "SSTableFilename n @ ''.tmp'' \<noteq> SSTableFilename m"
  by (rule names_differI, simp)+


section \<open>Properties\<close>

text \<open>
  C40. Not every name that parses is one the engine writes: a stray \<^verbatim>\<open>sst-1.sst\<close> parses to
  the number 1, whose file name is another one, and a name with more digits than 64 bits
  hold makes the parser throw instead of skipping the file.
\<close>

theorem parse_accepts_foreign_names:
  "ParseSSTableNumber ''sst-1.sst'' = Inr (Some 1) \<and> SSTableFilename 1 = ''sst-000001.sst'' \<and>
   ParseSSTableNumber ''sst-18446744073709551616.sst'' = Inl Out_of_range"
proof -
  have "decimal 1 = ''1''" by (simp add: decimal.simps) (simp add: char_of_def bit_0)
  moreover have "digits_value ''18446744073709551616'' = 18446744073709551616"
    by (simp add: digits_value_def)
  moreover have "digits_value ''1'' = 1" by (simp add: digits_value_def)
  moreover have "zero_padded 6 ''1'' = ''000001''" by (simp add: zero_padded_def numeral_eq_Suc)
  ultimately show ?thesis
    by (simp add: ParseSSTableNumber_def SSTableFilename_def Let_def stoull_def isdigit_def)
qed

end
