(* ===== verification/Database.thy ===== *)
theory Database
  imports Sstable_File Db_Names
begin

text \<open>
  \<^verbatim>\<open>include/tinylsm/database.h\<close> and \<^verbatim>\<open>src/database.cpp\<close>: the engine, without the background
  thread (theory \<open>Compaction\<close>). The object's fields extend the record of the world its file
  operations act on, so one state is passed through. File names are relative to the
  database directory. \<^verbatim>\<open>put\<close>, \<^verbatim>\<open>remove\<close> and the flush they trigger run under the exclusive
  lock, \<^verbatim>\<open>get\<close> and \<^verbatim>\<open>scan\<close> under the shared one: each is one step here.
\<close>

section \<open>The code\<close>

record database = world +
  flush_threshold_bytes :: u64
  compaction_trigger_count :: nat
  next_sstable_number :: u64
  memtable :: MemTable
  sstables :: "SSTableReader list"
  compaction_requested :: bool

definition update :: "('s \<Rightarrow> 's) \<Rightarrow> ('s, unit) prog" where
  "update f s = (Ret (), f s)"

definition wal_path :: string where
  "wal_path = ''wal.log''"

subsection \<open>Opening\<close>

text \<open>\<^verbatim>\<open>directory_iterator\<close>: the names in the directory, in an unspecified order.\<close>

definition sys_list :: "('x world_scheme, string list) prog" where
  "sys_list = andthen (syscall (\<lambda>w. w)) (\<lambda>ok.
     if ok then (\<lambda>w. (Ret (remdups (map fst (files w))), w))
     else ThrowErrno ''directory iterator cannot open directory'')"

fun remove_tmp_files :: "string list \<Rightarrow> ('x world_scheme, unit) prog" where
  "remove_tmp_files [] = ret ()"
| "remove_tmp_files (name # names) =
     (if path_extension name = ''.tmp''
      then andthen (sys_remove name) (\<lambda>_. remove_tmp_files names)
      else remove_tmp_files names)"

fun find_numbers :: "string list \<Rightarrow> u64 list \<Rightarrow> error + u64 list" where
  "find_numbers [] numbers = Inr numbers"
| "find_numbers (name # names) numbers =
     (case ParseSSTableNumber name of
        Inl e \<Rightarrow> Inl e
      | Inr None \<Rightarrow> find_numbers names numbers
      | Inr (Some number) \<Rightarrow> find_numbers names (numbers @ [number]))"

fun open_sstables :: "u64 list \<Rightarrow> ('x database_scheme, unit) prog" where
  "open_sstables [] = ret ()"
| "open_sstables (number # numbers) =
     andthen (SSTableReader_open (SSTableFilename number)) (\<lambda>reader.
     andthen (update (\<lambda>s. s\<lparr>sstables := sstables s @ [reader], next_sstable_number := number + 1\<rparr>)) (\<lambda>_.
     open_sstables numbers))"

text \<open>The callback handed to \<open>Replay\<close>.\<close>

definition replay_record :: "RecordType \<Rightarrow> bytes \<Rightarrow> bytes \<Rightarrow> MemTable \<Rightarrow> MemTable" where
  "replay_record type key val mt =
     (if type = kPut then memtable_put key val mt else memtable_remove key mt)"

definition Database_init :: "u64 \<Rightarrow> nat \<Rightarrow> (string \<times> disk_file) list \<Rightarrow> io_event list \<Rightarrow> database" where
  "Database_init threshold trigger fs es =
     \<lparr>files = fs, script = es, flush_threshold_bytes = threshold, compaction_trigger_count = trigger,
      next_sstable_number = 1, memtable = MemTable_init, sstables = [], compaction_requested = False\<rparr>"

definition discover_sstables :: "('x database_scheme, unit) prog" where
  "discover_sstables =
     andthen sys_list (\<lambda>names.
     andthen (remove_tmp_files names) (\<lambda>_.
     andthen sys_list (\<lambda>names.
     andthen (lift (find_numbers names [])) (\<lambda>numbers.
     open_sstables (sort numbers)))))"

definition recover_wal :: "('x database_scheme, unit) prog" where
  "recover_wal =
     andthen (wal_open wal_path) (\<lambda>_ s.
     andthen (wal_replay wal_path replay_record (memtable s)) (\<lambda>mt.
     update (\<lambda>s. s\<lparr>memtable := mt\<rparr>)) s)"

text \<open>The constructor's body, on an object whose fields are initialised.\<close>

definition Database_construct :: "('x database_scheme, unit) prog" where
  "Database_construct =
     andthen (syscall (\<lambda>w. w)) (\<lambda>created.
     if created then andthen discover_sstables (\<lambda>_. recover_wal)
     else ThrowErrno ''cannot create directories'')"

subsection \<open>Updates\<close>

definition MaybeTriggerCompaction :: "('x database_scheme, unit) prog" where
  "MaybeTriggerCompaction =
     update (\<lambda>s. if length (sstables s) < compaction_trigger_count s then s
                 else s\<lparr>compaction_requested := True\<rparr>)"

definition Flush :: "('x database_scheme, unit) prog" where
  "Flush s =
     (let sstable_path = SSTableFilename (next_sstable_number s)
      in andthen (WriteSSTable sstable_path (table (memtable s))) (\<lambda>_.
         andthen (SSTableReader_open sstable_path) (\<lambda>reader.
         andthen (update (\<lambda>s. s\<lparr>sstables := sstables s @ [reader]\<rparr>)) (\<lambda>_.
         andthen (update (\<lambda>s. s\<lparr>next_sstable_number := next_sstable_number s + 1\<rparr>)) (\<lambda>_.
         andthen (wal_reset wal_path) (\<lambda>_.
         andthen (update (\<lambda>s. s\<lparr>memtable := MemTable_init\<rparr>)) (\<lambda>_.
         MaybeTriggerCompaction)))))) s)"

definition MaybeFlush :: "('x database_scheme, unit) prog" where
  "MaybeFlush s =
     (if flush_threshold_bytes s \<le> approximate_size_bytes (memtable s) then Flush s else ret () s)"

definition Database_put :: "bytes \<Rightarrow> bytes \<Rightarrow> ('x database_scheme, unit) prog" where
  "Database_put key val =
     andthen (wal_append wal_path kPut key val) (\<lambda>_.
     andthen (update (\<lambda>s. s\<lparr>memtable := memtable_put key val (memtable s)\<rparr>)) (\<lambda>_.
     MaybeFlush))"

definition Database_remove :: "bytes \<Rightarrow> ('x database_scheme, unit) prog" where
  "Database_remove key =
     andthen (wal_append wal_path kDelete key []) (\<lambda>_.
     andthen (update (\<lambda>s. s\<lparr>memtable := memtable_remove key (memtable s)\<rparr>)) (\<lambda>_.
     MaybeFlush))"

subsection \<open>Reads\<close>

definition Database_get :: "'x database_scheme \<Rightarrow> bytes \<Rightarrow> error + bytes option" where
  "Database_get s key =
     (case memtable_find (memtable s) key of
        Some entry \<Rightarrow> Inr (live entry)
      | None \<Rightarrow>
          (case first_hit Find key (rev (sstables s)) of
             Inl e \<Rightarrow> Inl e
           | Inr (Some entry) \<Rightarrow> Inr (live entry)
           | Inr None \<Rightarrow> Inr None))"

definition live_entries :: "(bytes \<times> Entry) list \<Rightarrow> (bytes \<times> bytes) list" where
  "live_entries merged =
     map (\<lambda>(k, entry). (k, entry_value entry)) (filter (\<lambda>(k, entry). \<not> is_tombstone entry) merged)"

definition Database_scan :: "'x database_scheme \<Rightarrow> bytes \<Rightarrow> bytes \<Rightarrow> error + (bytes \<times> bytes) list" where
  "Database_scan s start e =
     (case merge_runs (\<lambda>r. ScanRaw r start e) (sstables s) [] of
        Inl err \<Rightarrow> Inl err
      | Inr merged \<Rightarrow>
          Inr (live_entries
            (map_assign_all (takeWhile (\<lambda>p. fst p < e) (lower_bound start (table (memtable s)))) merged)))"

definition sstable_count :: "'x database_scheme \<Rightarrow> nat" where
  "sstable_count s = length (sstables s)"

section \<open>What the object's fields stand for\<close>

abbreviation run_layers :: "SSTableReader list \<Rightarrow> (bytes \<rightharpoonup> Entry)" where
  "run_layers rs \<equiv> layered (map (\<lambda>r. map_of (reader_entries r)) rs)"

definition db_entries :: "'x database_scheme \<Rightarrow> (bytes \<rightharpoonup> Entry)" where
  "db_entries s = run_layers (sstables s) ++ map_of (table (memtable s))"

definition db_view :: "'x database_scheme \<Rightarrow> store" where
  "db_view s = live_store (db_entries s)"

definition reads_ok :: "'x database_scheme \<Rightarrow> bool" where
  "reads_ok s \<longleftrightarrow> sorted_keys (table (memtable s)) \<and> (\<forall>r \<in> set (sstables s). reader_ok r)"

lemma Database_get_view:
  assumes "reads_ok s"
  shows "Database_get s k = Inr (db_view s k)"
proof -
  have "first_hit Find k (rev (sstables s)) = Inr (run_layers (sstables s) k)"
    using assms by (intro sstable_run.first_hit_layers) (simp add: reads_ok_def)
  then show ?thesis
    by (simp add: Database_get_def memtable_find_def db_view_def db_entries_def live_store_def
        map_add_def split: option.splits)
qed

lemma Database_scan_view:
  assumes "reads_ok s"
  shows "\<exists>res. Database_scan s a b = Inr res \<and> range_of (db_view s) a b res"
proof -
  let ?K = "{k. a \<le> k \<and> k < b}" and ?mt = "table (memtable s)"
  obtain merged where m: "merge_runs (\<lambda>r. ScanRaw r a b) (sstables s) [] = Inr merged"
    "sorted_keys merged" "map_of merged = map_of [] ++ (run_layers (sstables s) |` ?K)"
    using sstable_run.merge_range_layers [of "sstables s" "[]" a b] assms
    by (auto simp: reads_ok_def)
  let ?tail = "takeWhile (\<lambda>p. fst p < b) (lower_bound a ?mt)"
  have s: "sorted_keys ?mt" using assms by (simp add: reads_ok_def)
  then have tail: "?tail = filter (\<lambda>p. a \<le> fst p \<and> fst p < b) ?mt"
    by (simp add: lower_bound_eq_filter takeWhile_below_eq_filter sorted_keys_filter conj_commute)
  define all where "all = map_assign_all ?tail merged"
  have sorted: "sorted_keys all" using m(2) by (simp add: all_def)
  have "map_of (rev ?tail) = map_of ?mt |` ?K"
    unfolding tail using s
    by (simp add: map_of_rev_sorted sorted_keys_filter
        sstable_run.map_of_filter_range [where P = "\<lambda>k. a \<le> k \<and> k < b"])
  then have final: "map_of all = db_entries s |` ?K"
    using m(3) by (auto simp: all_def db_entries_def map_add_def restrict_map_def fun_eq_iff split: option.splits)
  have whole: "filter (\<lambda>p. a \<le> fst p \<and> fst p < b) all = all"
    using sorted_keys_map_of [OF sorted] by (auto simp: filter_id_conv final restrict_map_def split: if_splits)
  have "range_of (live_store (map_of all)) a b (live_entries all)"
    using range_of_live [OF sorted, of a b] unfolding whole live_entries_def .
  moreover have "live_store (map_of all) = live_store (db_entries s) |` ?K"
    by (simp add: final live_store_def restrict_map_def fun_eq_iff)
  ultimately have "range_of (db_view s) a b (live_entries all)"
    by (auto simp: range_of_def db_view_def restrict_map_def split: if_splits)
  then show ?thesis using m(1) by (simp add: Database_scan_def all_def)
qed

end
