(* ===== verification/Durability.thy ===== *)
theory Durability
  imports Database
begin

text \<open>
  What the files of a database directory stand for, and what every update does to them.
\<close>

section \<open>The store on disk\<close>

type_synonym directory = "string \<rightharpoonup> disk_file"

definition wal_content :: "directory \<Rightarrow> bytes" where
  "wal_content m = (case m wal_path of None \<Rightarrow> [] | Some f \<Rightarrow> content f)"

definition sst_numbers :: "directory \<Rightarrow> u64 list" where
  "sst_numbers m = sorted_list_of_set {n. m (SSTableFilename n) \<noteq> None}"

definition table_at :: "directory \<Rightarrow> u64 \<Rightarrow> (bytes \<times> Entry) list" where
  "table_at m n =
     (case m (SSTableFilename n) of None \<Rightarrow> []
      | Some f \<Rightarrow> (case sstable_parse (SSTableFilename n) (content f) of
                    Inl e \<Rightarrow> [] | Inr r \<Rightarrow> reader_entries r))"

definition disk_readers :: "directory \<Rightarrow> SSTableReader list" where
  "disk_readers m = map (\<lambda>n. reader_for (SSTableFilename n) (table_at m n)) (sst_numbers m)"

fun record_op :: "log_record \<Rightarrow> kv_op" where
  "record_op (t, k, v) = (if t = kPut then Put k v else Remove k)"

fun op_record :: "kv_op \<Rightarrow> log_record" where
  "op_record (Put k v) = (kPut, k, v)"
| "op_record (Remove k) = (kDelete, k, [])"

text \<open>The log's records, in order, on top of the tables, the newest last.\<close>

definition disk_store :: "directory \<Rightarrow> store" where
  "disk_store m =
     store_ops (map record_op (records (wal_content m))) (live_store (run_layers (disk_readers m)))"

text \<open>Every file with a table's name is a complete table, under the name the engine gives it.\<close>

definition dir_ok :: "directory \<Rightarrow> bool" where
  "dir_ok m \<longleftrightarrow> (\<forall>name f. m name = Some f \<longrightarrow>
     (case ParseSSTableNumber name of
        Inl e \<Rightarrow> False
      | Inr None \<Rightarrow> True
      | Inr (Some n) \<Rightarrow> name = SSTableFilename n \<and> (\<exists>es. table_ok es \<and> f = sstable_file es)))"

lemma wal_path_names [simp]:
  "SSTableFilename n \<noteq> wal_path" "wal_path \<noteq> SSTableFilename n"
  "SSTableFilename n @ ''.tmp'' \<noteq> wal_path" "wal_path \<noteq> SSTableFilename n @ ''.tmp''"
  "ParseSSTableNumber wal_path = Inr None"
  by (simp_all add: wal_path_def)

lemma op_record_op [simp]: "record_op (op_record x) = x"
  by (cases x) simp_all

lemma dir_ok_table:
  assumes "dir_ok m" and "m (SSTableFilename n) = Some f"
  obtains es where "table_ok es" "f = sstable_file es" "table_at m n = es"
proof -
  from assms obtain es where es: "table_ok es" "f = sstable_file es"
    unfolding dir_ok_def by (auto simp: Parse_Filename dest!: spec [of _ "SSTableFilename n"])
  then have "table_at m n = es"
    using assms(2) by (simp add: table_at_def sstable_file_def sstable_parse_image table_ok_def)
  with es that show ?thesis by blast
qed

lemma set_sst_numbers [simp]: "n \<in> set (sst_numbers m) \<longleftrightarrow> m (SSTableFilename n) \<noteq> None"
  by (simp add: sst_numbers_def)

lemma table_at_ok: "dir_ok m \<Longrightarrow> n \<in> set (sst_numbers m) \<Longrightarrow> table_ok (table_at m n)"
  by (auto elim!: dir_ok_table)

lemma disk_readers_ok: "dir_ok m \<Longrightarrow> r \<in> set (disk_readers m) \<Longrightarrow> reader_ok r"
  using table_at_ok [of m] by (auto simp: disk_readers_def table_ok_def)

text \<open>The tables depend on the files with a table's name only.\<close>

lemma same_tables:
  assumes "\<And>n. m' (SSTableFilename n) = m (SSTableFilename n)"
  shows "sst_numbers m' = sst_numbers m" and "disk_readers m' = disk_readers m"
  by (simp_all add: sst_numbers_def disk_readers_def table_at_def assms)

lemma dir_ok_upd_other:
  "dir_ok m \<Longrightarrow> ParseSSTableNumber name = Inr None \<Longrightarrow> dir_ok (m(name := t))"
  by (auto simp: dir_ok_def)

lemma dir_ok_upd_table:
  "dir_ok m \<Longrightarrow> table_ok es \<Longrightarrow> dir_ok (m(SSTableFilename n \<mapsto> sstable_file es))"
  by (auto simp: dir_ok_def Parse_Filename)

text \<open>A new table with the largest number becomes the newest layer.\<close>

lemma sst_numbers_new:
  assumes "\<forall>k \<in> set (sst_numbers m). k < n"
  shows "sst_numbers (m(SSTableFilename n \<mapsto> f)) = sst_numbers m @ [n]"
proof -
  let ?m = "m(SSTableFilename n \<mapsto> f)"
  have "sorted_wrt (<) (sst_numbers m @ [n])"
    using assms by (simp add: sorted_wrt_append sst_numbers_def del: set_sst_numbers)
  moreover have "sorted_wrt (<) (sst_numbers ?m)"
    by (simp add: sst_numbers_def)
  moreover have "set (sst_numbers ?m) = set (sst_numbers m @ [n])"
    by (auto split: if_splits)
  ultimately show ?thesis by (metis strict_sorted_equal)
qed

lemma disk_readers_new:
  assumes "\<forall>k \<in> set (sst_numbers m). k < n" and "table_ok es"
  shows "disk_readers (m(SSTableFilename n \<mapsto> sstable_file es))
    = disk_readers m @ [reader_for (SSTableFilename n) es]"
proof -
  have "table_at (m(SSTableFilename n \<mapsto> sstable_file es)) k = table_at m k" if "k \<noteq> n" for k
    using that by (simp add: table_at_def)
  moreover have "table_at (m(SSTableFilename n \<mapsto> sstable_file es)) n = es"
    using assms(2) by (simp add: table_at_def sstable_file_def sstable_parse_image table_ok_def)
  ultimately show ?thesis
    using assms(1) by (auto simp: disk_readers_def sst_numbers_new)
qed

section \<open>Replaying the log\<close>

lemma memtable_run_simps [simp]:
  "memtable_run [] mt = mt" "memtable_run (x # xs) mt = memtable_run xs (memtable_op x mt)"
  "memtable_run (xs @ ys) mt = memtable_run ys (memtable_run xs mt)"
  by (simp_all add: memtable_run_def)

lemma apply_records_memtable:
  "apply_records replay_record rs mt = memtable_run (map record_op rs) mt"
  by (induction rs arbitrary: mt) (auto simp: apply_records_def replay_record_def)

lemma live_store_run:
  "live_store (base ++ map_of (table (memtable_run ops mt)))
     = store_ops ops (live_store (base ++ map_of (table mt)))"
proof (induction ops arbitrary: mt)
  case Nil
  then show ?case by simp
next
  case (Cons x ops)
  have "live_store (base ++ map_of (table (memtable_op x mt)))
      = store_op x (live_store (base ++ map_of (table mt)))"
    by (cases x) (simp_all only: memtable_op.simps memtable_put_Upsert memtable_remove_Upsert
        table_Upsert map_of_map_assign map_add_upd live_store_upd store_op.simps)
  with Cons show ?case by simp
qed

lemma table_init [simp]: "table MemTable_init = []"
  by (simp add: MemTable_init_def)

lemma live_store_replay:
  "live_store (base ++ map_of (table (memtable_run ops MemTable_init))) = store_ops ops (live_store base)"
  using live_store_run [of base ops MemTable_init] by simp

text \<open>Replaying the log on top of a table that already holds its outcome changes nothing.\<close>

lemma replay_idempotent:
  "store_ops ops (live_store (base ++ map_of (table (memtable_run ops MemTable_init))))
     = store_ops ops (live_store base)"
proof -
  let ?T = "map_of (table (memtable_run ops MemTable_init))"
  have "base ++ ?T ++ ?T = base ++ ?T"
    by (simp add: map_add_def fun_eq_iff split: option.split)
  then show ?thesis
    by (metis live_store_replay)
qed


section \<open>States in which everything acknowledged is on disk\<close>

abbreviation dir :: "'x world_scheme \<Rightarrow> directory" where
  "dir w \<equiv> map_of (files w)"

definition wal_durable :: "directory \<Rightarrow> bool" where
  "wal_durable m \<longleftrightarrow> (\<forall>f. m wal_path = Some f \<longrightarrow> synced f = length (content f))"

text \<open>
  Two lists of tables that read the same under any newer layers: while a compaction runs, the
  disk also holds tables the object has dropped or not taken up yet.
\<close>

definition tables_agree :: "SSTableReader list \<Rightarrow> SSTableReader list \<Rightarrow> bool" where
  "tables_agree rs rs' \<longleftrightarrow>
     (\<forall>newer. live_store (run_layers rs ++ newer) = live_store (run_layers rs' ++ newer))"

lemma tables_agree_refl [simp]: "tables_agree rs rs"
  by (simp add: tables_agree_def)

lemma tables_agree_append: "tables_agree rs rs' \<Longrightarrow> tables_agree (rs @ news) (rs' @ news)"
  unfolding tables_agree_def map_append layered_append map_add_assoc [symmetric] by blast

lemma tables_agree_store: "tables_agree rs rs' \<Longrightarrow> live_store (run_layers rs) = live_store (run_layers rs')"
  unfolding tables_agree_def by (metis map_add_empty)

text \<open>
  \<open>db_sound\<close> is what the client calls need and keep; \<open>db_good\<close> is the state between
  compactions, when the object's tables are exactly those on disk.
\<close>

definition db_sound :: "'x database_scheme \<Rightarrow> bool" where
  "db_sound s \<longleftrightarrow>
     dir_ok (dir s) \<and>
     (\<forall>r \<in> set (sstables s). reader_ok r) \<and> tables_agree (disk_readers (dir s)) (sstables s) \<and>
     (\<forall>n \<in> set (sst_numbers (dir s)). n < next_sstable_number s) \<and>
     dir s wal_path \<noteq> None \<and> clean_log (wal_content (dir s)) \<and>
     memtable s = memtable_run (map record_op (records (wal_content (dir s)))) MemTable_init \<and>
     table_ok (table (memtable s))"

definition db_good :: "'x database_scheme \<Rightarrow> bool" where
  "db_good s \<longleftrightarrow>
     dir_ok (dir s) \<and>
     sstables s = disk_readers (dir s) \<and>
     (\<forall>n \<in> set (sst_numbers (dir s)). n < next_sstable_number s) \<and>
     dir s wal_path \<noteq> None \<and> clean_log (wal_content (dir s)) \<and>
     memtable s = memtable_run (map record_op (records (wal_content (dir s)))) MemTable_init \<and>
     table_ok (table (memtable s))"

lemma db_good_iff: "db_good s \<longleftrightarrow> db_sound s \<and> sstables s = disk_readers (dir s)"
  using disk_readers_ok [of "dir s"] unfolding db_good_def db_sound_def by auto

lemma db_good_sound: "db_good s \<Longrightarrow> db_sound s"
  by (simp add: db_good_iff)

text \<open>A directory a new process can open, and what the checks of the proof need of it.\<close>

definition recoverable :: "directory \<Rightarrow> bool" where
  "recoverable m \<longleftrightarrow>
     dir_ok m \<and> (\<forall>n \<in> set (sst_numbers m). n < - 1) \<and>
     table_ok (table (memtable_run (map record_op (records (wal_content m))) MemTable_init))"

lemma recoverable_same:
  assumes "recoverable m" and "dir_ok m'" and "\<And>n. m' (SSTableFilename n) = m (SSTableFilename n)"
    and "wal_content m' = wal_content m"
  shows "recoverable m'"
  using assms by (simp add: recoverable_def)

lemma db_sound_recoverable: "db_sound s \<Longrightarrow> recoverable (dir s)"
  unfolding db_sound_def recoverable_def
  by (metis less_le_trans word_order.extremum)

lemmas db_good_recoverable = db_sound_recoverable [OF db_good_sound]

text \<open>The update keeps within what the format and the counters can represent.\<close>

definition op_fits :: "kv_op \<Rightarrow> 'x database_scheme \<Rightarrow> bool" where
  "op_fits x s \<longleftrightarrow> table_ok (table (memtable_op x (memtable s))) \<and> next_sstable_number s < - 1"

definition Database_op :: "kv_op \<Rightarrow> ('x database_scheme, unit) prog" where
  "Database_op x = (case x of Put k v \<Rightarrow> Database_put k v | Remove k \<Rightarrow> Database_remove k)"

lemma db_sound_view:
  assumes "db_sound s"
  shows "db_view s = disk_store (dir s)"
proof -
  have agree: "tables_agree (disk_readers (dir s)) (sstables s)" and
    mt: "memtable s = memtable_run (map record_op (records (wal_content (dir s)))) MemTable_init"
    using assms unfolding db_sound_def by blast+
  have "db_view s = live_store (run_layers (disk_readers (dir s)) ++ map_of (table (memtable s)))"
    using agree unfolding db_view_def db_entries_def tables_agree_def by metis
  then show ?thesis unfolding mt disk_store_def live_store_replay .
qed

lemmas db_good_view = db_sound_view [OF db_good_sound]

lemma db_sound_reads: "db_sound s \<Longrightarrow> reads_ok s"
  unfolding db_sound_def reads_ok_def table_ok_def by blast

lemmas db_good_reads = db_sound_reads [OF db_good_sound]

lemma memtable_op_entry: "map_of (table (memtable_op x mt)) (op_key x) = Some e \<Longrightarrow>
    e = (case x of Put k v \<Rightarrow> put_entry v | Remove k \<Rightarrow> tombstone)"
  by (cases x) (simp_all add: memtable_put_Upsert memtable_remove_Upsert table_Upsert)

lemma op_fits_record: "op_fits x s \<Longrightarrow> record_ok (op_record x)"
proof -
  assume "op_fits x s"
  then have ok: "table_ok (table (memtable_op x (memtable s)))"
    by (simp add: op_fits_def)
  let ?e = "case x of Put k v \<Rightarrow> put_entry v | Remove k \<Rightarrow> tombstone"
  have "map_of (table (memtable_op x (memtable s))) (op_key x) = Some ?e"
    by (cases x) (simp_all add: memtable_put_Upsert memtable_remove_Upsert table_Upsert)
  then have "(op_key x, ?e) \<in> set (table (memtable_op x (memtable s)))"
    by (rule map_of_SomeD)
  then have "entry_fits (op_key x, ?e)"
    using ok by (auto simp: table_ok_def)
  then show ?thesis
    by (cases x) (auto simp: entry_fits_def record_ok_def)
qed

section \<open>Restarts\<close>

text \<open>
  What a new process can find: the files as the old one left them (the process died), or,
  when the machine went down, files cut anywhere behind their durable part.
\<close>

definition restart :: "bool \<Rightarrow> (string \<times> disk_file) list \<Rightarrow> (string \<times> disk_file) list \<Rightarrow> bool" where
  "restart machine fs fs' \<longleftrightarrow> fs' = fs \<or> machine \<and> crash_files fs fs'"

lemma restart_table:
  assumes "restart b fs fs'" and "dir_ok (map_of fs)"
  shows "map_of fs' (SSTableFilename n) = map_of fs (SSTableFilename n)"
proof (cases "fs' = fs")
  case False
  with assms have c: "crash_files fs fs'" by (simp add: restart_def)
  show ?thesis
  proof (cases "map_of fs (SSTableFilename n)")
    case None
    then show ?thesis using crash_files_Some' [OF c] by (metis not_None_eq)
  next
    case (Some f)
    with assms(2) obtain es where "f = sstable_file es" by (rule dir_ok_table)
    with crash_files_Some [OF c Some] Some show ?thesis
      using crash_sstable_file by auto
  qed
qed simp

lemma restart_dir_ok:
  assumes r: "restart b fs fs'" and ok: "dir_ok (map_of fs)"
  shows "dir_ok (map_of fs')"
  unfolding dir_ok_def
proof (intro allI impI)
  fix name f' assume f': "map_of fs' name = Some f'"
  obtain f where f: "map_of fs name = Some f"
    using r f' crash_files_Some' [of fs fs' name f'] by (auto simp: restart_def)
  with ok have n: "case ParseSSTableNumber name of Inl e \<Rightarrow> False | Inr None \<Rightarrow> True
      | Inr (Some n) \<Rightarrow> name = SSTableFilename n \<and> (\<exists>es. table_ok es \<and> f = sstable_file es)"
    by (simp add: dir_ok_def)
  then show "case ParseSSTableNumber name of Inl e \<Rightarrow> False | Inr None \<Rightarrow> True
      | Inr (Some n) \<Rightarrow> name = SSTableFilename n \<and> (\<exists>es. table_ok es \<and> f' = sstable_file es)"
    using restart_table [OF r ok] f f' by (auto split: sum.splits option.splits)
qed

lemma restart_wal:
  assumes "restart b fs fs'" and "map_of fs wal_path = Some f" and "b \<Longrightarrow> n \<le> synced f"
    and "n \<le> length (content f)"
  shows "\<exists>f'. map_of fs' wal_path = Some f' \<and> take n (content f') = take n (content f) \<and>
    n \<le> length (content f') \<and> prefix (drop n (content f')) (drop n (content f))"
proof (cases "fs' = fs")
  case True
  then show ?thesis using assms by simp
next
  case False
  then have b: "b" and c: "crash_files fs fs'" using assms(1) by (auto simp: restart_def)
  from crash_files_Some [OF c assms(2)] obtain f' where f': "map_of fs' wal_path = Some f'"
    and cf: "crash_file f f'" by blast
  from crash_file_extends [OF cf assms(3) [OF b]] have e: "content f' = take n (content f) @ drop n (content f')"
    and p: "prefix (drop n (content f')) (drop n (content f))"
    by auto
  have "n \<le> length (content f')"
    using arg_cong [OF e, of length] assms(4) by (cases "n \<le> length (content f')") auto
  moreover have "take n (content f') = take n (content f)"
    using e assms(4) by (metis append_eq_conv_conj length_take min.absorb2)
  ultimately show ?thesis using f' p by blast
qed

text \<open>After a restart the tables are the same ones, so the store depends on the log only.\<close>

lemma restart_store:
  assumes "restart b fs fs'" and "dir_ok (map_of fs)"
  shows "disk_store (map_of fs') =
    store_ops (map record_op (records (wal_content (map_of fs')))) (live_store (run_layers (disk_readers (map_of fs))))"
  using same_tables(2) [of "map_of fs'" "map_of fs"] restart_table [OF assms]
  by (simp add: disk_store_def)


lemma restart_wal_durable:
  assumes "restart b fs fs'" and "map_of fs wal_path = Some f" and "synced f = length (content f)"
  shows "\<exists>f'. map_of fs' wal_path = Some f' \<and> content f' = content f"
  using restart_wal [OF assms(1,2), of "length (content f)"] assms(3) by fastforce

lemma restart_durable:
  assumes "restart b fs fs'" and "wal_durable (map_of fs)"
  shows "wal_durable (map_of fs')"
  unfolding wal_durable_def
proof (intro allI impI)
  fix f' assume f': "map_of fs' wal_path = Some f'"
  show "synced f' = length (content f')"
  proof (cases "fs' = fs")
    case True
    with f' assms(2) show ?thesis by (simp add: wal_durable_def)
  next
    case False
    then have "crash_files fs fs'" using assms(1) by (simp add: restart_def)
    from crash_files_Some' [OF this f'] obtain f where f: "map_of fs wal_path = Some f" "crash_file f f'" by blast
    then have full: "synced f = length (content f)" using assms(2) unfolding wal_durable_def by blast
    have "content f' = content f" by (rule crash_file_synced [OF f(2) full])
    with f(2) full show ?thesis by (simp add: crash_file_def)
  qed
qed

definition stable :: "(string \<times> disk_file) list \<Rightarrow> store \<Rightarrow> bool" where
  "stable fs st \<longleftrightarrow> (\<forall>b fs'. restart b fs fs' \<longrightarrow> recoverable (map_of fs') \<and> disk_store (map_of fs') = st)"

lemma stableI:
  assumes "recoverable (map_of fs)" and "wal_durable (map_of fs)"
    and "disk_store (map_of fs) = st"
  shows "stable fs st"
  unfolding stable_def
proof (intro allI impI conjI)
  fix b fs' assume r: "restart b fs fs'"
  have ok: "dir_ok (map_of fs)" using assms(1) by (simp add: recoverable_def)
  have wal: "wal_content (map_of fs') = wal_content (map_of fs)"
  proof (cases "map_of fs wal_path")
    case None
    then have "map_of fs' wal_path = None"
      using r crash_files_Some' [of fs fs' wal_path] by (cases "map_of fs' wal_path") (auto simp: restart_def)
    with None show ?thesis by (simp add: wal_content_def)
  next
    case (Some f)
    with assms(2) have "synced f = length (content f)" by (simp add: wal_durable_def)
    from restart_wal_durable [OF r Some this] Some show ?thesis
      by (auto simp: wal_content_def)
  qed
  then show "disk_store (map_of fs') = st"
    using restart_store [OF r ok] assms(3) by (simp add: disk_store_def)
  show "recoverable (map_of fs')"
    using restart_dir_ok [OF r ok] restart_table [OF r ok] assms(1) wal by (simp add: recoverable_def)
qed

section \<open>A flush\<close>

lemma andthen_update [simp]: "andthen (update f) k s = k () (f s)"
  by (simp add: andthen_def update_def)

lemma update_result [simp]: "update f s = (r, s') \<longleftrightarrow> r = Ret () \<and> s' = f s"
  by (auto simp: update_def)

lemma next_number_greater: "(n :: u64) < - 1 \<Longrightarrow> n < n + 1"
  by (simp add: word_less_nat_alt unat_word_ariths(1) unsigned_minus_1_eq_mask mask_eq_exp_minus_1)

text \<open>The directory after the table of a flush has appeared.\<close>

lemma flushed_directory:
  assumes good: "db_sound s"
    and m: "m = (dir s)(SSTableFilename (next_sstable_number s) @ ''.tmp'' := t,
                        SSTableFilename (next_sstable_number s) \<mapsto> sstable_file (table (memtable s)))"
  shows "dir_ok m" and "m wal_path = dir s wal_path"
    and "sst_numbers m = sst_numbers (dir s) @ [next_sstable_number s]"
    and "disk_readers m = disk_readers (dir s) @ [reader_for (SSTableFilename (next_sstable_number s)) (table (memtable s))]"
    and "disk_store m = db_view s" and "next_sstable_number s < - 1 \<Longrightarrow> recoverable m"
proof -
  let ?n = "next_sstable_number s" and ?T = "table (memtable s)"
  let ?m0 = "(dir s)(SSTableFilename ?n @ ''.tmp'' := t)"
  have T: "table_ok ?T" using good unfolding db_sound_def by blast
  have same: "sst_numbers ?m0 = sst_numbers (dir s)" "disk_readers ?m0 = disk_readers (dir s)"
    using same_tables [of ?m0 "dir s"] by simp_all
  have above: "\<forall>k \<in> set (sst_numbers ?m0). k < ?n"
    unfolding same using good by (simp add: db_sound_def)
  show ok: "dir_ok m"
    unfolding m using good T by (intro dir_ok_upd_table dir_ok_upd_other) (simp_all add: db_sound_def)
  show wal: "m wal_path = dir s wal_path" by (simp add: m)
  show numbers: "sst_numbers m = sst_numbers (dir s) @ [?n]"
    unfolding m using sst_numbers_new [OF above] same by simp
  show readers: "disk_readers m = disk_readers (dir s) @ [reader_for (SSTableFilename ?n) ?T]"
    unfolding m using disk_readers_new [OF above T] same by simp
  have log: "wal_content m = wal_content (dir s)" by (simp add: wal_content_def wal)
  show "recoverable m" if "?n < - 1"
    using db_sound_recoverable [OF good] ok that log numbers
    by (auto simp: recoverable_def simp del: set_sst_numbers)
  have "reader_entries (reader_for (SSTableFilename ?n) ?T) = ?T"
    using T by (intro reader_entries_for) (simp add: table_ok_def)
  then have "disk_store m = store_ops (map record_op (records (wal_content (dir s))))
      (live_store (run_layers (disk_readers (dir s)) ++ map_of ?T))"
    by (simp add: disk_store_def readers log)
  also have "\<dots> = disk_store (dir s)"
    using good replay_idempotent [of _ "run_layers (disk_readers (dir s))"]
    by (auto simp: db_sound_def disk_store_def)
  finally show "disk_store m = db_view s" by (simp add: db_sound_view [OF good])
qed

lemma touched_tmp_stable:
  assumes "touches (SSTableFilename n @ ''.tmp'') s s'" and good: "db_sound s"
    and durable: "wal_durable (dir s)"
  shows "stable (files s') (db_view s)" and "wal_durable (dir s')"
proof -
  from assms(1) obtain t where m: "dir s' = (dir s)(SSTableFilename n @ ''.tmp'' := t)"
    by (auto simp: touches_def)
  have wal: "dir s' wal_path = dir s wal_path" by (simp add: m)
  have "dir_ok (dir s')"
    unfolding m using good by (intro dir_ok_upd_other) (simp_all add: db_sound_def)
  then have "recoverable (dir s')"
    by (rule recoverable_same [OF db_sound_recoverable [OF good]])
      (simp_all add: m wal_content_def)
  moreover have "disk_store (dir s') = db_view s"
    using same_tables(2) [of "dir s'" "dir s"] db_sound_view [OF good]
    by (simp add: disk_store_def wal_content_def wal) (simp add: m)
  ultimately show "stable (files s') (db_view s)"
    using good durable wal by (intro stableI) (simp_all add: db_sound_def wal_durable_def)
  show "wal_durable (dir s')" using durable by (simp add: wal_durable_def wal)
qed

text \<open>A state with more tables, the same new ones in memory and on disk.\<close>

definition extends :: "'x database_scheme \<Rightarrow> 'x database_scheme \<Rightarrow> bool" where
  "extends s s' \<longleftrightarrow> next_sstable_number s \<le> next_sstable_number s' \<and>
     (\<exists>extra ns. sstables s' = sstables s @ extra \<and>
        sst_numbers (dir s') = sst_numbers (dir s) @ ns \<and>
        disk_readers (dir s') = disk_readers (dir s) @ extra \<and>
        (\<forall>n \<in> set ns. next_sstable_number s \<le> n))"

lemma extends_same:
  "sstables s' = sstables s \<Longrightarrow> sst_numbers (dir s') = sst_numbers (dir s) \<Longrightarrow>
   disk_readers (dir s') = disk_readers (dir s) \<Longrightarrow> next_sstable_number s' = next_sstable_number s \<Longrightarrow> extends s s'"
  by (simp add: extends_def)

lemma extends_trans:
  assumes "extends s s'" and "extends s' s''"
  shows "extends s s''"
proof -
  obtain extra ns where 1: "next_sstable_number s \<le> next_sstable_number s'"
    "sstables s' = sstables s @ extra" "sst_numbers (dir s') = sst_numbers (dir s) @ ns"
    "disk_readers (dir s') = disk_readers (dir s) @ extra" "\<forall>n \<in> set ns. next_sstable_number s \<le> n"
    using assms(1) unfolding extends_def by blast
  obtain extra' ns' where 2: "next_sstable_number s' \<le> next_sstable_number s''"
    "sstables s'' = sstables s' @ extra'" "sst_numbers (dir s'') = sst_numbers (dir s') @ ns'"
    "disk_readers (dir s'') = disk_readers (dir s') @ extra'" "\<forall>n \<in> set ns'. next_sstable_number s' \<le> n"
    using assms(2) unfolding extends_def by blast
  have "\<forall>n \<in> set (ns @ ns'). next_sstable_number s \<le> n"
    using 1(1,5) 2(5) by (auto intro: order_trans)
  then show ?thesis
    unfolding extends_def using 1 2
    by (intro conjI exI [of _ "extra @ extra'"] exI [of _ "ns @ ns'"]) (auto intro: order_trans)
qed

lemma extends_good: "db_good s \<Longrightarrow> extends s s' \<Longrightarrow> db_sound s' \<Longrightarrow> db_good s'"
  by (auto simp: db_good_iff extends_def)

lemma Flush_sound:
  assumes call: "Flush s = (r, s')" and good: "db_sound s" and durable: "wal_durable (dir s)"
    and room: "next_sstable_number s < - 1"
  shows "stable (files s') (db_view s) \<and> wal_durable (dir s') \<and>
    (r = Ret () \<longrightarrow> db_sound s' \<and> db_view s' = db_view s \<and> extends s s')"
proof -
  let ?n = "next_sstable_number s" and ?T = "table (memtable s)"
  let ?path = "SSTableFilename ?n"
  from good obtain f where f: "dir s wal_path = Some f"
    and parts: "dir_ok (dir s)" "table_ok ?T"
    by (auto simp: db_sound_def)
  show ?thesis
    using call [unfolded Flush_def Let_def]
  proof (cases rule: andthen_cases)
    case (ret a s1)
    from ret(1) obtain fs es where s1: "s1 = s\<lparr>files := fs, script := es\<rparr>"
      and fs: "map_of fs = (dir s)(?path @ ''.tmp'' := None, ?path \<mapsto> sstable_file ?T)"
      by (cases rule: WriteSSTable_outcome) auto
    note m = flushed_directory [OF good fs]
    have stable1: "stable fs (db_view s)"
      using m room durable f by (intro stableI) (auto simp: wal_durable_def)
    have durable1: "wal_durable (map_of fs)" using durable by (simp add: wal_durable_def m(2))
    from ret(2) show ?thesis
    proof (cases rule: andthen_cases)
      case (ret rd s2)
      from SSTableReader_open_outcome [OF ret(1)] obtain es2 where s2: "s2 = s1\<lparr>script := es2\<rparr>"
        and rd: "sstable_parse ?path (sstable_image ?T) = Inr rd"
        by (auto simp: s1 fs sstable_file_def)
      then have reader: "rd = reader_for ?path ?T"
        using parts(2) by (simp add: sstable_parse_image)
      let ?s3 = "s\<lparr>files := fs, script := es2, sstables := sstables s @ [rd], next_sstable_number := ?n + 1\<rparr>"
      from ret(2) have call3: "andthen (wal_reset wal_path)
          (\<lambda>_. andthen (update (\<lambda>s. s\<lparr>memtable := MemTable_init\<rparr>)) (\<lambda>_. MaybeTriggerCompaction)) ?s3 = (r, s')"
        by (simp add: s2 s1)
      then show ?thesis
      proof (cases rule: andthen_cases)
        case (ret u s4)
        have f3: "map_of (files ?s3) wal_path = Some f" using m(2) f by (simp add: fs)
        from wal_reset_outcome [OF ret(1) f3] obtain es4
          where s4: "s4 = (set_file wal_path (f\<lparr>content := [], synced := 0\<rparr>) ?s3)\<lparr>script := es4\<rparr>"
          by auto
        let ?m4 = "(map_of fs)(wal_path \<mapsto> f\<lparr>content := [], synced := 0\<rparr>)"
        from ret(2) s4 have s': "r = Ret ()" "dir s' = ?m4" "sstables s' = sstables s @ [rd]"
          "next_sstable_number s' = ?n + 1" "memtable s' = MemTable_init"
          by (auto simp: MaybeTriggerCompaction_def set_file_def update_conv')
        have tables: "sst_numbers ?m4 = sst_numbers (dir s) @ [?n]" "disk_readers ?m4 = disk_readers (dir s) @ [rd]"
          using same_tables [of ?m4 "map_of fs"] m(3,4) reader by simp_all
        have wal: "wal_content ?m4 = []" by (simp add: wal_content_def)
        have "?n < ?n + 1" using room by (rule next_number_greater)
        then have above: "\<forall>k \<in> set (sst_numbers ?m4). k < ?n + 1"
          unfolding tables using good by (auto simp: db_sound_def simp del: set_sst_numbers dest: less_trans)
        have ok: "dir_ok ?m4" using m(1) by (intro dir_ok_upd_other) simp_all
        have empty: "table_ok (table MemTable_init)"
          by (simp add: table_ok_def sstable_image_eq index_section_def sampled_def samples_def)
        have "reader_ok rd" using parts(2) by (simp add: reader table_ok_def)
        moreover have "tables_agree (disk_readers (dir s) @ [rd]) (sstables s @ [rd])"
          using good by (intro tables_agree_append) (simp add: db_sound_def)
        moreover have "\<forall>r \<in> set (sstables s). reader_ok r" using good by (simp add: db_sound_def)
        ultimately have good': "db_sound s'"
          using s' ok tables above wal empty by (simp add: db_sound_def)
        moreover have "extends s s'"
          using s' tables \<open>?n < ?n + 1\<close> by (simp add: extends_def)
        moreover have view: "db_view s' = db_view s"
        proof -
          have "reader_entries rd = ?T"
            unfolding reader using parts(2) by (intro reader_entries_for) (simp add: table_ok_def)
          then show ?thesis
            using s' by (simp add: db_view_def db_entries_def)
        qed
        moreover have durable': "wal_durable (dir s')"
          by (simp add: s' wal_durable_def)
        moreover have "stable (files s') (db_view s)"
          using db_sound_recoverable [OF good'] view durable' db_sound_view [OF good']
          by (intro stableI) simp_all
        ultimately show ?thesis by simp
      next
        case (throw e)
        with wal_reset_outcome [OF throw(1), of f] stable1 durable1 m(2) f show ?thesis
          by (auto simp: fs)
      next
        case killed
        with wal_reset_outcome [OF killed(1), of f] stable1 durable1 m(2) f show ?thesis
          by (auto simp: fs)
      qed
    next
      case (throw e)
      with SSTableReader_open_outcome [OF throw(1)] stable1 durable1 show ?thesis by (auto simp: s1)
    next
      case killed
      with SSTableReader_open_outcome [OF killed(1)] stable1 durable1 show ?thesis by (auto simp: s1)
    qed
  next
    case (throw e)
    from throw(1) touched_tmp_stable [OF _ good durable] throw(2) show ?thesis
      by (cases rule: WriteSSTable_outcome) auto
  next
    case killed
    from killed(1) touched_tmp_stable [OF _ good durable] killed(2) show ?thesis
      by (cases rule: WriteSSTable_outcome) auto
  qed
qed


section \<open>One update\<close>

text \<open>The log with a record appended, and the memtable with the same operation applied.\<close>

lemma logged_sound:
  assumes good: "db_sound s" and fits: "op_fits x s" and f: "dir s wal_path = Some f"
    and rec: "op_record x = (t, k, v)"
    and s2: "dir s2 = (dir s)(wal_path \<mapsto> f\<lparr>content := content f @ EncodeRecord t k v, synced := y\<rparr>)"
      "sstables s2 = sstables s" "next_sstable_number s2 = next_sstable_number s"
      "memtable s2 = memtable_op x (memtable s)"
  shows "db_sound s2" and "db_view s2 = store_op x (db_view s)" and "extends s s2"
proof -
  have rok: "record_ok (t, k, v)" using op_fits_record [OF fits] rec by simp
  have log: "clean_log (content f)" "memtable s = memtable_run (map record_op (records (content f))) MemTable_init"
    using good f by (simp_all add: db_sound_def wal_content_def)
  note app = clean_log_append_record [OF log(1) rok]
  have wal: "wal_content (dir s2) = content f @ EncodeRecord t k v"
    by (simp add: wal_content_def s2)
  have op: "record_op (t, k, v) = x" using rec op_record_op [of x] by simp
  have run: "memtable s2 = memtable_run (map record_op (records (wal_content (dir s2)))) MemTable_init"
    unfolding s2(4) log(2) wal app(2) by (simp add: op del: record_op.simps)
  have tables: "sst_numbers (dir s2) = sst_numbers (dir s)" "disk_readers (dir s2) = disk_readers (dir s)"
    using same_tables [of "dir s2" "dir s"] by (simp_all add: s2)
  have "dir_ok (dir s2)"
    unfolding s2 using good by (intro dir_ok_upd_other) (simp_all add: db_sound_def)
  moreover have "table_ok (table (memtable s2))"
    using fits by (simp add: op_fits_def s2)
  moreover have "dir s2 wal_path \<noteq> None" by (simp add: s2)
  ultimately show g: "db_sound s2"
    using good app(1) wal tables run s2(2,3) unfolding db_sound_def by simp
  show "extends s s2" using tables s2(2,3) by (intro extends_same)
  show "db_view s2 = store_op x (db_view s)"
    unfolding db_sound_view [OF g] db_sound_view [OF good] disk_store_def tables wal app(2)
    using f by (simp add: op wal_content_def store_ops_append del: record_op.simps)
qed

lemma logged_good:
  fixes s s2 :: "'x database_scheme"
  assumes "db_good s" and "op_fits x s" and "dir s wal_path = Some f" and "op_record x = (t, k, v)"
    and "dir s2 = (dir s)(wal_path \<mapsto> f\<lparr>content := content f @ EncodeRecord t k v, synced := y\<rparr>)"
      "sstables s2 = sstables s" "next_sstable_number s2 = next_sstable_number s"
      "memtable s2 = memtable_op x (memtable s)"
  shows "db_good s2" and "db_view s2 = store_op x (db_view s)"
  using logged_sound [OF db_good_sound [OF assms(1)] assms(2-8)] extends_good [OF assms(1)] by blast+

lemma Database_op_code:
  "op_record x = (t, k, v) \<Longrightarrow> Database_op x =
     andthen (wal_append wal_path t k v) (\<lambda>_.
     andthen (update (\<lambda>s. s\<lparr>memtable := memtable_op x (memtable s)\<rparr>)) (\<lambda>_. MaybeFlush))"
  by (cases x) (auto simp: Database_op_def Database_put_def Database_remove_def)

lemma torn_append_restart:
  assumes good: "db_sound s" and fits: "op_fits x s" and f: "dir s wal_path = Some f" and durable: "synced f = length (content f)"
    and rec: "op_record x = (t, k, v)" "record_ok (t, k, v)"
    and m: "dir s' = (dir s)(wal_path \<mapsto> f\<lparr>content := content f @ p, synced := y\<rparr>)"
    and p: "prefix p (EncodeRecord t k v)" and y: "length (content f) \<le> y"
    and restart: "restart b (files s') fs'"
  shows "recoverable (map_of fs') \<and> disk_store (map_of fs') \<in> {db_view s, store_op x (db_view s)}"
proof -
  let ?g = "f\<lparr>content := content f @ p, synced := y\<rparr>"
  have ok: "dir_ok (dir s')"
    unfolding m using good by (intro dir_ok_upd_other) (simp_all add: db_sound_def)
  have g: "dir s' wal_path = Some ?g" by (simp add: m)
  from restart_wal [OF restart g, of "length (content f)"] y obtain f'
    where f': "map_of fs' wal_path = Some f'" "take (length (content f)) (content f') = content f"
      "prefix (drop (length (content f)) (content f')) p"
    by auto
  then have c: "content f' = content f @ drop (length (content f)) (content f')"
    by (metis append_take_drop_id)
  have pre: "prefix (drop (length (content f)) (content f')) (EncodeRecord t k v)"
    using f'(3) p by auto
  have clean: "clean_log (content f)"
    using good f by (simp add: db_sound_def wal_content_def)
  have recs: "records (content f') = records (content f) \<or> records (content f') = records (content f) @ [(t, k, v)]"
    using clean_log_append_prefix [OF clean rec(2) pre] c by metis
  have tables: "sst_numbers (dir s') = sst_numbers (dir s)" "disk_readers (dir s') = disk_readers (dir s)"
    using same_tables [of "dir s'" "dir s"] by (simp_all add: m)
  have op: "record_op (t, k, v) = x" using rec(1) op_record_op [of x] by simp
  have log: "memtable s = memtable_run (map record_op (records (content f))) MemTable_init"
    using good f by (simp add: db_sound_def wal_content_def)
  have "table_ok (table (memtable_run (map record_op (records (content f'))) MemTable_init))"
    using recs fits good db_sound_recoverable [OF good] f log op
    by (auto simp: op_fits_def recoverable_def wal_content_def simp del: record_op.simps)
  moreover have "\<forall>n \<in> set (sst_numbers (map_of fs')). n < - 1"
    using db_sound_recoverable [OF good] restart_table [OF restart ok]
    by (simp add: recoverable_def m)
  ultimately have "recoverable (map_of fs')"
    using restart_dir_ok [OF restart ok] f'(1) by (simp add: recoverable_def wal_content_def)
  moreover have "disk_store (map_of fs') \<in> {db_view s, store_op x (db_view s)}"
    using restart_store [OF restart ok] recs tables op f f'(1) db_sound_view [OF good]
    by (auto simp: disk_store_def wal_content_def store_ops_append simp del: record_op.simps)
  ultimately show ?thesis by blast
qed

lemma after_append:
  fixes s s' :: "'x database_scheme"
  assumes good: "db_sound s" and fits: "op_fits x s" and f: "dir s wal_path = Some f"
    and rec: "op_record x = (t, k, v)" and append: "wal_append wal_path t k v s = (Ret a, s1)"
    and rest: "MaybeFlush (s1\<lparr>memtable := memtable_op x (memtable s1)\<rparr>) = (r, s')"
  shows "stable (files s') (store_op x (db_view s)) \<and> wal_durable (dir s') \<and>
    (r = Ret () \<longrightarrow> db_sound s' \<and> db_view s' = store_op x (db_view s) \<and> extends s s')"
proof -
  from wal_append_outcome [OF append f] obtain es
    where s1: "s1 = (set_file wal_path (f\<lparr>content := content f @ EncodeRecord t k v,
        synced := length (content f @ EncodeRecord t k v)\<rparr>) s)\<lparr>script := es\<rparr>"
    by auto
  let ?s2 = "s1\<lparr>memtable := memtable_op x (memtable s1)\<rparr>"
  have same: "memtable s1 = memtable s" "sstables s1 = sstables s"
    "next_sstable_number s1 = next_sstable_number s"
    by (simp_all add: s1 set_file_def)
  have m2: "dir ?s2 = (dir s)(wal_path \<mapsto> f\<lparr>content := content f @ EncodeRecord t k v,
        synced := length (content f @ EncodeRecord t k v)\<rparr>)"
    by (simp add: s1)
  have s2: "sstables ?s2 = sstables s" "next_sstable_number ?s2 = next_sstable_number s"
    "memtable ?s2 = memtable_op x (memtable s)"
    by (simp_all add: same)
  note good2 = logged_sound [OF good fits f rec m2 s2]
  have durable2: "wal_durable (dir ?s2)" by (simp only: m2 wal_durable_def) simp
  show ?thesis
  proof (cases "flush_threshold_bytes ?s2 \<le> approximate_size_bytes (memtable ?s2)")
    case True
    with rest have "Flush ?s2 = (r, s')" by (simp add: MaybeFlush_def)
    from Flush_sound [OF this good2(1) durable2] fits good2(2) same(3)
    have "stable (files s') (store_op x (db_view s)) \<and> wal_durable (dir s') \<and>
        (r = Ret () \<longrightarrow> db_sound s' \<and> db_view s' = store_op x (db_view s) \<and> extends ?s2 s')"
      by (simp add: op_fits_def)
    with extends_trans [OF good2(3)] show ?thesis by blast
  next
    case False
    with rest have s': "s' = ?s2" by (simp add: MaybeFlush_def)
    have "stable (files ?s2) (store_op x (db_view s))"
      using db_sound_recoverable [OF good2(1)] good2 durable2 db_sound_view [OF good2(1)]
      by (intro stableI) (auto simp: db_sound_def)
    with s' good2 durable2 show ?thesis by simp
  qed
qed

lemma op_sound:
  assumes call: "Database_op x s = (r, s')" and good: "db_sound s" and durable: "wal_durable (dir s)"
    and fits: "op_fits x s"
  shows "(\<forall>b fs'. restart b (files s') fs' \<longrightarrow>
        recoverable (map_of fs') \<and> disk_store (map_of fs') \<in> {db_view s, store_op x (db_view s)}) \<and>
    (r = Ret () \<longrightarrow> db_sound s' \<and> db_view s' = store_op x (db_view s) \<and> wal_durable (dir s') \<and> extends s s')"
proof -
  obtain t k v where rec: "op_record x = (t, k, v)" by (cases "op_record x")
  from good obtain f where f: "dir s wal_path = Some f" by (auto simp: db_sound_def)
  have rok: "record_ok (t, k, v)" using op_fits_record [OF fits] rec by simp
  have sync: "synced f = length (content f)" using durable f by (simp add: wal_durable_def)
  have torn: ?thesis if "wal_append wal_path t k v s = (r0, s')" "\<forall>a. r \<noteq> Ret a" for r0
  proof -
    from wal_append_outcome [OF that(1) f] obtain p y es where p: "prefix p (EncodeRecord t k v)"
      and s': "s' = (set_file wal_path (f\<lparr>content := content f @ p, synced := y\<rparr>) s)\<lparr>script := es\<rparr>"
      and y: "y = synced f \<or> y = length (content f @ p)"
      by blast
    have m: "dir s' = (dir s)(wal_path \<mapsto> f\<lparr>content := content f @ p, synced := y\<rparr>)"
      by (simp add: s')
    have "length (content f) \<le> y" using y sync by auto
    from torn_append_restart [OF good fits f sync rec rok m p this] that(2) show ?thesis by blast
  qed
  from call [unfolded Database_op_code [OF rec]] show ?thesis
  proof (cases rule: andthen_cases)
    case (ret a s1)
    from after_append [OF good fits f rec ret(1)] ret(2) show ?thesis by (simp add: stable_def)
  next
    case (throw e)
    then show ?thesis using torn by blast
  next
    case killed
    then show ?thesis using torn by blast
  qed
qed

lemma op_outcome:
  assumes "Database_op x s = (r, s')" and "db_good s" and "wal_durable (dir s)" and "op_fits x s"
  shows "(\<forall>b fs'. restart b (files s') fs' \<longrightarrow>
        recoverable (map_of fs') \<and> disk_store (map_of fs') \<in> {db_view s, store_op x (db_view s)}) \<and>
    (r = Ret () \<longrightarrow> db_good s' \<and> db_view s' = store_op x (db_view s) \<and> wal_durable (dir s'))"
  using op_sound [OF assms(1) db_good_sound [OF assms(2)] assms(3,4)] extends_good [OF assms(2)] by blast

end
