(* ===== verification/Recovery.thy ===== *)
theory Recovery
  imports Durability
begin

text \<open>
  The constructor of \<^verbatim>\<open>Database\<close> on any directory a crash can leave, and the promises of
  the engine over whole runs: sequences of updates, a crash at any point, a reopening.
\<close>

section \<open>Temporary files\<close>

lemma remove_tmp_files_outcome:
  "remove_tmp_files names w = (r, w') \<Longrightarrow>
     (\<exists>fs es. w' = w\<lparr>files := fs, script := es\<rparr> \<and>
        (\<forall>n. path_extension n \<noteq> ''.tmp'' \<longrightarrow> map_of fs n = dir w n) \<and>
        (\<forall>n f. map_of fs n = Some f \<longrightarrow> dir w n = Some f)) \<and>
     (script w = [] \<longrightarrow> r = Ret () \<and> script w' = [])"
proof (induction names arbitrary: w)
  case Nil
  then show ?case by (auto intro!: exI [of _ "files w"] exI [of _ "script w"])
next
  case (Cons name names)
  show ?case
  proof (cases "path_extension name = ''.tmp''")
    case False
    with Cons show ?thesis by simp
  next
    case True
    with Cons.prems have call: "andthen (sys_remove name) (\<lambda>_. remove_tmp_files names) w = (r, w')"
      by simp
    then show ?thesis
    proof (cases rule: andthen_cases)
      case (ret b w1)
      have "w1 = w\<lparr>files := files w1, script := script w1\<rparr> \<and>
          (files w1 = files w \<or> files w1 = AList.delete name (files w)) \<and> script w1 = tl (script w)"
        using ret(1) unfolding sys_remove_def by (cases rule: syscall_cases) auto
      then obtain fs1 es1 where w1: "w1 = w\<lparr>files := fs1, script := es1\<rparr>"
        and fs1: "fs1 = files w \<or> fs1 = AList.delete name (files w)"
        and es1: "es1 = tl (script w)"
        by blast
      from Cons.IH [OF ret(2)] obtain fs es where w': "w' = w1\<lparr>files := fs, script := es\<rparr>"
        and keep: "\<forall>n. path_extension n \<noteq> ''.tmp'' \<longrightarrow> map_of fs n = dir w1 n"
        and sub: "\<forall>n f. map_of fs n = Some f \<longrightarrow> dir w1 n = Some f"
        and fin: "script w1 = [] \<longrightarrow> r = Ret () \<and> script w' = []"
        by blast
      have d1: "path_extension n \<noteq> ''.tmp'' \<Longrightarrow> dir w1 n = dir w n"
        and d2: "dir w1 n = Some f \<Longrightarrow> dir w n = Some f" for n f
        using fs1 True by (auto simp: w1 delete_conv' split: if_splits)
      have "w' = w\<lparr>files := fs, script := es\<rparr>" by (simp add: w' w1)
      moreover have "\<forall>n. path_extension n \<noteq> ''.tmp'' \<longrightarrow> map_of fs n = dir w n"
        using keep d1 by simp
      moreover have "\<forall>n f. map_of fs n = Some f \<longrightarrow> dir w n = Some f"
        using sub d2 by blast
      moreover have "script w = [] \<longrightarrow> r = Ret () \<and> script w' = []"
        using fin es1 by (simp add: w1)
      ultimately show ?thesis by blast
    next
      case (throw e)
      then show ?thesis unfolding sys_remove_def by (auto elim!: syscall_cases)
    next
      case killed
      have "script w \<noteq> []"
        using killed(1) by (auto simp: sys_remove_def syscall_proceeds)
      moreover from killed(1) have "w' = w\<lparr>script := tl (script w)\<rparr>"
        unfolding sys_remove_def by (cases rule: syscall_cases) auto
      ultimately show ?thesis
        by (auto intro!: exI [of _ "files w"] exI [of _ "tl (script w)"])
    qed
  qed
qed

section \<open>Finding and opening the tables\<close>

lemma find_numbers_ok:
  assumes "dir_ok m" and "set names \<subseteq> dom m" and "distinct names"
  shows "\<exists>ns. find_numbers names acc = Inr (acc @ ns) \<and> distinct ns \<and>
    (\<forall>n. n \<in> set ns \<longleftrightarrow> SSTableFilename n \<in> set names)"
  using assms(2,3)
proof (induction names arbitrary: acc)
  case Nil
  then show ?case by simp
next
  case (Cons name names)
  then obtain f where "m name = Some f" by auto
  with assms(1) have p: "case ParseSSTableNumber name of Inl e \<Rightarrow> False | Inr None \<Rightarrow> True
      | Inr (Some n) \<Rightarrow> name = SSTableFilename n \<and> (\<exists>es. table_ok es \<and> f = sstable_file es)"
    by (simp add: dir_ok_def)
  then consider (other) "ParseSSTableNumber name = Inr None"
    | (table) n where "ParseSSTableNumber name = Inr (Some n)" "name = SSTableFilename n"
    by (auto split: sum.splits option.splits)
  then show ?case
  proof cases
    case other
    from Cons.IH [of acc] Cons.prems obtain ns where ns: "find_numbers names acc = Inr (acc @ ns)"
      "distinct ns" "\<forall>n. n \<in> set ns \<longleftrightarrow> SSTableFilename n \<in> set names"
      by auto
    have "SSTableFilename n \<noteq> name" for n
      using other Parse_Filename [of n] by auto
    with ns other show ?thesis by auto
  next
    case table
    from Cons.IH [of "acc @ [n]"] Cons.prems obtain ns
      where ns: "find_numbers names (acc @ [n]) = Inr ((acc @ [n]) @ ns)"
      "distinct ns" "\<forall>n. n \<in> set ns \<longleftrightarrow> SSTableFilename n \<in> set names"
      by auto
    with table Cons.prems(2) show ?thesis by (intro exI [of _ "n # ns"]) auto
  qed
qed

text \<open>Whatever the order of the directory, the sorted numbers are those of the tables.\<close>

lemma found_numbers:
  assumes "dir_ok (dir w)" and "dir w = map_of (files w)"
  shows "\<exists>ns. find_numbers (remdups (map fst (files w))) [] = Inr ns \<and> sort ns = sst_numbers (dir w)"
proof -
  have "set (remdups (map fst (files w))) = dom (dir w)"
    by (simp add: dom_map_of_conv_image_fst)
  with find_numbers_ok [OF assms(1), of "remdups (map fst (files w))" "[]"] obtain ns
    where ns: "find_numbers (remdups (map fst (files w))) [] = Inr ns" "distinct ns"
      "\<forall>n. n \<in> set ns \<longleftrightarrow> SSTableFilename n \<in> dom (dir w)"
    by auto
  have "sorted_wrt (<) (sort ns)" using ns(2) by (simp add: strict_sorted_iff)
  moreover have "sorted_wrt (<) (sst_numbers (dir w))" by (simp add: sst_numbers_def)
  moreover have "set (sort ns) = set (sst_numbers (dir w))" using ns(3) by auto
  ultimately have "sort ns = sst_numbers (dir w)" by (metis strict_sorted_equal)
  with ns(1) show ?thesis by blast
qed

lemma open_sstables_outcome:
  assumes "dir_ok (dir s)" and "\<forall>n \<in> set ns. dir s (SSTableFilename n) \<noteq> None"
    and "open_sstables ns s = (r, s')"
  shows "files s' = files s \<and> (r = Ret () \<longrightarrow> (\<exists>es. s' = s\<lparr>script := es,
      sstables := sstables s @ map (\<lambda>n. reader_for (SSTableFilename n) (table_at (dir s) n)) ns,
      next_sstable_number := (if ns = [] then next_sstable_number s else last ns + 1)\<rparr>)) \<and>
    (script s = [] \<longrightarrow> r = Ret () \<and> script s' = [])"
  using assms
proof (induction ns arbitrary: s)
  case Nil
  then show ?case by (auto intro!: exI [of _ "script s"])
next
  case (Cons n ns)
  from Cons.prems(2) obtain f where f: "dir s (SSTableFilename n) = Some f" by auto
  with Cons.prems(1) obtain es where es: "table_ok es" "f = sstable_file es" "table_at (dir s) n = es"
    by (rule dir_ok_table)
  from Cons.prems(3) have call: "andthen (SSTableReader_open (SSTableFilename n)) (\<lambda>reader.
     andthen (update (\<lambda>s. s\<lparr>sstables := sstables s @ [reader], next_sstable_number := n + 1\<rparr>)) (\<lambda>_.
     open_sstables ns)) s = (r, s')" by simp
  have proceeds: "SSTableReader_open (SSTableFilename n) s = (Ret (reader_for (SSTableFilename n) es), s)"
    if "script s = []"
    using SSTableReader_open_proceeds [OF that f] es(1,2) by (simp add: sstable_file_def sstable_parse_image)
  from call show ?case
  proof (cases rule: andthen_cases)
    case (ret rd s1)
    from SSTableReader_open_outcome [OF ret(1)] f es obtain sc
      where s1: "s1 = s\<lparr>script := sc\<rparr>" and rd: "rd = reader_for (SSTableFilename n) es"
      by (auto simp: sstable_file_def sstable_parse_image)
    let ?s2 = "s1\<lparr>sstables := sstables s1 @ [rd], next_sstable_number := n + 1\<rparr>"
    have d: "dir ?s2 = dir s" by (simp add: s1)
    from ret(2) have call2: "open_sstables ns ?s2 = (r, s')" by simp
    have pre: "dir_ok (dir ?s2)" "\<forall>n \<in> set ns. dir ?s2 (SSTableFilename n) \<noteq> None"
      using Cons.prems(1,2) by (simp_all add: s1)
    have "script s1 = []" if "script s = []"
      using proceeds [OF that] ret(1) that by simp
    then have sc: "sc = []" if "script s = []" using that by (simp add: s1)
    from Cons.IH [OF pre call2] show ?thesis
      using sc by (auto simp: s1 rd es(3))
  next
    case (throw e)
    with SSTableReader_open_outcome [OF throw(1)] proceeds show ?thesis by auto
  next
    case killed
    with SSTableReader_open_outcome [OF killed(1)] proceeds show ?thesis by auto
  qed
qed


section \<open>The constructor\<close>

text \<open>What a crash can leave of the log.\<close>

definition wal_cut :: "directory \<Rightarrow> bytes \<Rightarrow> bool" where
  "wal_cut m c \<longleftrightarrow>
     (case m wal_path of
        None \<Rightarrow> c = []
      | Some f \<Rightarrow> prefix c (content f) \<and> (c = content f \<or> synced f \<le> length c))"

text \<open>What opening may do to a directory: everything that is stored stays, also after a crash.\<close>

definition keeps :: "directory \<Rightarrow> directory \<Rightarrow> bool" where
  "keeps m m' \<longleftrightarrow> dir_ok m' \<and> (\<forall>n. m' (SSTableFilename n) = m (SSTableFilename n)) \<and>
     records (wal_content m') = records (wal_content m) \<and> (wal_durable m \<longrightarrow> wal_durable m') \<and>
     (\<forall>c'. wal_cut m' c' \<longrightarrow> (\<exists>c. wal_cut m c \<and> records c = records c'))"

lemma dir_ok_subset: "dir_ok m \<Longrightarrow> (\<And>n f. m' n = Some f \<Longrightarrow> m n = Some f) \<Longrightarrow> dir_ok m'"
  unfolding dir_ok_def by blast

lemma keeps_refl: "dir_ok m \<Longrightarrow> keeps m m"
  by (auto simp: keeps_def)

lemma keeps_trans:
  assumes "keeps m m1" and "keeps m1 m2"
  shows "keeps m m2"
proof -
  have "\<exists>c. wal_cut m c \<and> records c = records c'" if "wal_cut m2 c'" for c'
    using that assms unfolding keeps_def by metis
  then show ?thesis using assms unfolding keeps_def by simp
qed

lemma keeps_disk:
  assumes "keeps m m'"
  shows "sst_numbers m' = sst_numbers m" and "disk_readers m' = disk_readers m"
    and "disk_store m' = disk_store m" and "recoverable m \<Longrightarrow> recoverable m'"
  using same_tables [of m' m] assms
  by (simp_all add: keeps_def disk_store_def recoverable_def)

lemma sys_list_outcome:
  assumes "sys_list w = (r, w')"
  shows "w' = w\<lparr>script := tl (script w)\<rparr> \<and>
    (r = Ret (remdups (map fst (files w))) \<or> (\<forall>a. r \<noteq> Ret a) \<and> script w \<noteq> [])"
proof (cases "next_event w")
  case (Pair e w1)
  then have "w1 = w\<lparr>script := tl (script w)\<rparr>" by (rule next_event_script)
  with Pair assms show ?thesis
    by (cases e; cases "script w")
      (auto simp: sys_list_def andthen_def syscall_def ThrowErrno_def throw_def next_event_def)
qed

lemma list_step:
  assumes "andthen sys_list k w = (r, w')"
  obtains (failed) "\<forall>a. r \<noteq> Ret a" "w' = w\<lparr>script := tl (script w)\<rparr>" "script w \<noteq> []"
  | (passed) "k (remdups (map fst (files w))) (w\<lparr>script := tl (script w)\<rparr>) = (r, w')"
  using assms
proof (cases rule: andthen_cases)
  case (ret a s')
  with sys_list_outcome [OF ret(1)] that(2) show ?thesis by auto
next
  case (throw e)
  with sys_list_outcome [OF throw(1)] that(1) show ?thesis by auto
next
  case killed
  with sys_list_outcome [OF killed(1)] that(1) show ?thesis by auto
qed

lemma discover_sstables_outcome:
  assumes call: "discover_sstables s = (r, s')" and ok: "dir_ok (dir s)"
  shows "keeps (dir s) (dir s') \<and> dir s' wal_path = dir s wal_path \<and>
    (r = Ret () \<longrightarrow> sstables s' = sstables s @ disk_readers (dir s) \<and> memtable s' = memtable s \<and>
       next_sstable_number s' =
         (if sst_numbers (dir s) = [] then next_sstable_number s else last (sst_numbers (dir s)) + 1)) \<and>
    (script s = [] \<longrightarrow> r = Ret () \<and> script s' = [])"
proof -
  from call [unfolded discover_sstables_def] show ?thesis
  proof (cases rule: list_step)
    case failed
    then show ?thesis using ok by (simp add: keeps_refl)
  next
    case passed
    let ?s1 = "s\<lparr>script := tl (script s)\<rparr>"
    obtain rr s2 where rm: "remove_tmp_files (remdups (map fst (files s))) ?s1 = (rr, s2)" by force
    from remove_tmp_files_outcome [OF rm] obtain fs es where s2: "s2 = ?s1\<lparr>files := fs, script := es\<rparr>"
      and keep1: "\<forall>n. path_extension n \<noteq> ''.tmp'' \<longrightarrow> map_of fs n = dir ?s1 n"
      and sub1: "\<forall>n f. map_of fs n = Some f \<longrightarrow> dir ?s1 n = Some f"
      and fin: "script ?s1 = [] \<longrightarrow> rr = Ret () \<and> script s2 = []"
      by blast
    have keep: "\<forall>n. path_extension n \<noteq> ''.tmp'' \<longrightarrow> map_of fs n = dir s n"
      using keep1 by simp
    have sub: "\<forall>n f. map_of fs n = Some f \<longrightarrow> dir s n = Some f"
      using sub1 by simp
    have ok2: "dir_ok (dir s2)" by (rule dir_ok_subset [OF ok]) (use sub in \<open>simp add: s2\<close>)
    have d2: "dir s2 = map_of fs" by (simp add: s2)
    have "path_extension wal_path \<noteq> ''.tmp''" by (simp add: wal_path_def)
    with keep have wal2: "dir s2 wal_path = dir s wal_path" unfolding d2 by blast
    have "path_extension (SSTableFilename n) \<noteq> ''.tmp''" for n by simp
    with keep have "dir s2 (SSTableFilename n) = dir s (SSTableFilename n)" for n
      unfolding d2 by blast
    then have keeps2: "keeps (dir s) (dir s2)"
      using ok2 wal2 unfolding keeps_def wal_content_def wal_durable_def wal_cut_def by auto
    show ?thesis
    proof (cases "rr = Ret ()")
      case False
      with passed rm have "s' = s2" "\<forall>a. r \<noteq> Ret a"
        by (auto simp: andthen_def split: result.splits)
      with keeps2 wal2 fin False show ?thesis by auto
    next
      case True
      with passed rm have "andthen sys_list (\<lambda>names. andthen (lift (find_numbers names []))
          (\<lambda>numbers. open_sstables (sort numbers))) s2 = (r, s')"
        by (simp add: andthen_def)
      then show ?thesis
      proof (cases rule: list_step)
        case failed
        with keeps2 wal2 fin show ?thesis by auto
      next
        case passed
        let ?s3 = "s2\<lparr>script := tl (script s2)\<rparr>"
        from found_numbers [of s2] ok2 obtain ns
          where ns: "find_numbers (remdups (map fst (files s2))) [] = Inr ns" "sort ns = sst_numbers (dir s2)"
          by auto
        with passed have op: "open_sstables (sst_numbers (dir s2)) ?s3 = (r, s')"
          by (simp add: andthen_def lift_def)
        have pre: "dir_ok (dir ?s3)" "\<forall>n \<in> set (sst_numbers (dir s2)). dir ?s3 (SSTableFilename n) \<noteq> None"
          using ok2 by simp_all
        note out = open_sstables_outcome [OF pre op]
        have readers: "map (\<lambda>n. reader_for (SSTableFilename n) (table_at (dir ?s3) n)) (sst_numbers (dir s2))
            = disk_readers (dir s)"
          using keeps_disk(2) [OF keeps2] by (simp add: disk_readers_def)
        have fields: "sstables s2 = sstables s" "memtable s2 = memtable s"
          "next_sstable_number s2 = next_sstable_number s"
          by (simp_all add: s2)
        have "dir s' = dir s2" using out by simp
        moreover have "sstables s' = sstables s @ disk_readers (dir s) \<and> memtable s' = memtable s \<and>
            next_sstable_number s' = (if sst_numbers (dir s) = [] then next_sstable_number s
               else last (sst_numbers (dir s)) + 1)" if "r = Ret ()"
        proof -
          from out that obtain sc where "s' = ?s3\<lparr>script := sc,
              sstables := sstables ?s3 @ disk_readers (dir s),
              next_sstable_number := (if sst_numbers (dir s2) = [] then next_sstable_number ?s3
                 else last (sst_numbers (dir s2)) + 1)\<rparr>"
            unfolding readers by blast
          then show ?thesis by (simp add: fields keeps_disk(1) [OF keeps2])
        qed
        moreover have "r = Ret () \<and> script s' = []" if "script s = []"
          using out fin that by simp
        ultimately show ?thesis using keeps2 wal2 by simp
      qed
    qed
  qed
qed

text \<open>Replaying the log: opening creates it when it is missing, replay drops a torn tail.\<close>

lemma keeps_wal:
  assumes "dir_ok m" and "records (content f) = records (wal_content m)"
    and "wal_durable m \<Longrightarrow> synced f = length (content f)"
    and "\<And>c'. prefix c' (content f) \<Longrightarrow> c' = content f \<or> synced f \<le> length c' \<Longrightarrow>
      \<exists>c. wal_cut m c \<and> records c = records c'"
  shows "keeps m (m(wal_path \<mapsto> f))"
  unfolding keeps_def
proof (intro conjI allI impI)
  fix c' assume "wal_cut (m(wal_path \<mapsto> f)) c'"
  then have "prefix c' (content f)" "c' = content f \<or> synced f \<le> length c'" by (auto simp: wal_cut_def)
  then show "\<exists>c. wal_cut m c \<and> records c = records c'" by (rule assms(4))
qed (use assms(1-3) in \<open>auto simp: wal_content_def wal_durable_def intro!: dir_ok_upd_other\<close>)

lemma recover_wal_outcome:
  assumes call: "recover_wal s = (r, s')" and ok: "dir_ok (dir s)"
  shows "keeps (dir s) (dir s') \<and>
    (r = Ret () \<longrightarrow> dir s' wal_path \<noteq> None \<and> clean_log (wal_content (dir s')) \<and>
       sstables s' = sstables s \<and> next_sstable_number s' = next_sstable_number s \<and>
       memtable s' = memtable_run (map record_op (records (wal_content (dir s)))) (memtable s)) \<and>
    (script s = [] \<longrightarrow> r = Ret ())"
proof -
  let ?f = "the_file s wal_path"
  have f0: "content ?f = wal_content (dir s)"
    by (simp add: the_file_def wal_content_def split: option.split)
  have sync: "wal_durable (dir s) \<Longrightarrow> synced ?f = length (content ?f)"
    by (auto simp: the_file_def wal_durable_def split: option.split)
  from call [unfolded recover_wal_def] show ?thesis
  proof (cases rule: andthen_cases)
    case (throw e)
    with wal_open_outcome [OF throw(1)] wal_open_proceeds [of s wal_path] show ?thesis
      using ok by (auto simp: keeps_refl)
  next
    case killed
    with wal_open_outcome [OF killed(1)] wal_open_proceeds [of s wal_path] show ?thesis
      using ok by (auto simp: keeps_refl)
  next
    case (ret u s1)
    from wal_open_outcome [OF ret(1)] obtain es1
      where s1: "s1 = (set_file wal_path ?f s)\<lparr>script := es1\<rparr>" by auto
    have es1: "es1 = []" if "script s = []"
      using wal_open_proceeds [OF that, of wal_path] ret(1) that by (auto simp: s1 dest: arg_cong [where f = script])
    have f1: "map_of (files s1) wal_path = Some ?f" by (simp add: s1)
    have same1: "memtable s1 = memtable s" "sstables s1 = sstables s"
      "next_sstable_number s1 = next_sstable_number s"
      by (simp_all add: s1 set_file_def)
    have d1: "dir s1 = (dir s)(wal_path \<mapsto> ?f)" by (simp add: s1)
    let ?vl = "valid_length (content ?f)"
    have cut: "wal_cut (dir s) c" if "prefix c (content ?f)" "c = content ?f \<or> synced ?f \<le> length c" for c
      using that by (auto simp: wal_cut_def the_file_def split: option.splits)
    have k1: "keeps (dir s) (dir s1)"
      unfolding d1 using ok f0 sync cut by (intro keeps_wal) auto
    have replayed: "keeps (dir s) (dir s2)"
      if s2: "s2 = (set_file wal_path (?f\<lparr>content := c, synced := y\<rparr>) s1)\<lparr>script := es\<rparr>"
        and c: "c = content ?f \<and> y = synced ?f \<or>
           c = take ?vl (content ?f) \<and> y = min ?vl (synced ?f)" for s2 :: "'a database_scheme" and c y es
    proof -
      have d2: "dir s2 = (dir s)(wal_path \<mapsto> ?f\<lparr>content := c, synced := y\<rparr>)"
        by (simp add: s2 d1)
      have kept: "\<exists>c0. wal_cut (dir s) c0 \<and> records c0 = records c'"
        if p: "prefix c' c" and e: "c' = c \<or> y \<le> length c'" for c'
      proof (cases "c = content ?f \<and> y = synced ?f \<or> synced ?f \<le> length c'")
        case True
        then have "prefix c' (content ?f)" "c' = content ?f \<or> synced ?f \<le> length c'"
          using p e c take_is_prefix [of ?vl "content ?f"] by (auto intro: prefix_order.trans)
        with cut show ?thesis by blast
      next
        case False
        then have "c = take ?vl (content ?f)" "y = min ?vl (synced ?f)" using c by auto
        with False e have "c' = c \<or> length c \<le> length c'" by auto
        then have "c' = c" using p by (auto simp: prefix_def)
        then show ?thesis
          using cut [of "content ?f"] records_valid [of "content ?f"] \<open>c = take ?vl (content ?f)\<close> by auto
      qed
      show ?thesis
        unfolding d2 using c ok f0 sync valid_length_le [of "content ?f"] records_valid [of "content ?f"] kept
        by (intro keeps_wal) auto
    qed
    from ret(2) have "andthen (wal_replay wal_path replay_record (memtable s1))
        (\<lambda>mt. update (\<lambda>s. s\<lparr>memtable := mt\<rparr>)) s1 = (r, s')" by simp
    then show ?thesis
    proof (cases rule: andthen_cases)
      case (ret mt s2)
      from wal_replay_outcome [OF ret(1) f1] obtain c y es
        where s2: "s2 = (set_file wal_path (?f\<lparr>content := c, synced := y\<rparr>) s1)\<lparr>script := es\<rparr>"
          and c: "c = content ?f \<and> y = synced ?f \<or> c = take ?vl (content ?f) \<and> y = min ?vl (synced ?f)"
          and mt: "mt = apply_records replay_record (records (content ?f)) (memtable s1)"
          and c': "c = take ?vl (content ?f)"
        by auto
      from ret(2) have s': "s' = s2\<lparr>memtable := mt\<rparr>" "r = Ret ()" by simp_all
      have "dir s' = dir s2" by (simp add: s')
      then have "keeps (dir s) (dir s')" using replayed [OF s2 c] by simp
      moreover have "wal_content (dir s') = c" "dir s' wal_path \<noteq> None"
        by (simp_all add: s' s2 wal_content_def)
      ultimately show ?thesis
        using s' mt c' f0 same1 clean_log_valid [of "content ?f"]
        by (simp add: s2 set_file_def apply_records_memtable)
    next
      case (throw e)
      from wal_replay_outcome [OF throw(1) f1] replayed throw(2) have "keeps (dir s) (dir s')" by blast
      moreover have "script s \<noteq> []"
        using wal_replay_proceeds [OF _ f1, of replay_record "memtable s1"] throw(1) es1 by (auto simp: s1)
      ultimately show ?thesis using throw(2) by simp
    next
      case killed
      from wal_replay_outcome [OF killed(1) f1] replayed killed(2) have "keeps (dir s) (dir s')" by blast
      moreover have "script s \<noteq> []"
        using wal_replay_proceeds [OF _ f1, of replay_record "memtable s1"] killed(1) es1 by (auto simp: s1)
      ultimately show ?thesis using killed(2) by simp
    qed
  qed
qed


lemma last_sst_number:
  assumes "\<forall>n \<in> set (sst_numbers m). n < - 1" and "sst_numbers m \<noteq> []" and "k \<in> set (sst_numbers m)"
  shows "k < last (sst_numbers m) + 1"
proof -
  have "sorted (sst_numbers m)" by (simp add: sst_numbers_def)
  moreover from assms(3) obtain i where i: "i < length (sst_numbers m)" "k = sst_numbers m ! i"
    by (auto simp: in_set_conv_nth simp del: set_sst_numbers)
  ultimately have "k \<le> last (sst_numbers m)"
    using assms(2) by (simp add: last_conv_nth sorted_nth_mono)
  also have "\<dots> < last (sst_numbers m) + 1"
    using assms(1) last_in_set [OF assms(2)] by (intro next_number_greater) (simp del: set_sst_numbers)
  finally show ?thesis .
qed

text \<open>An object whose fields are as the class declares them.\<close>

definition unopened :: "'x database_scheme \<Rightarrow> bool" where
  "unopened s \<longleftrightarrow> sstables s = [] \<and> memtable s = MemTable_init \<and> next_sstable_number s = 1"

lemma construct_outcome:
  assumes call: "Database_construct s = (r, s')" and start: "unopened s"
    and ok: "recoverable (dir s)"
  shows "keeps (dir s) (dir s') \<and>
    (r = Ret () \<longrightarrow> db_good s' \<and> db_view s' = disk_store (dir s) \<and>
       next_sstable_number s' =
         (if sst_numbers (dir s) = [] then 1 else last (sst_numbers (dir s)) + 1)) \<and>
    (script s = [] \<longrightarrow> r = Ret ())"
proof -
  have init: "sstables s = []" "memtable s = MemTable_init" "next_sstable_number s = 1"
    using start by (simp_all add: unopened_def)
  have dok: "dir_ok (dir s)" using ok by (simp add: recoverable_def)
  note code = call [unfolded Database_construct_def]
  show ?thesis
  proof (cases "\<exists>s1. syscall (\<lambda>w. w) s = (Ret True, s1)")
    case False
    have "script s \<noteq> []" using False syscall_proceeds [of s "\<lambda>w. w"] init by auto
    moreover have "\<forall>a. r \<noteq> Ret a" and "s' = s\<lparr>script := tl (script s)\<rparr>"
      using checked_syscall [OF code] False code
      by (auto simp: andthen_def syscall_def ThrowErrno_def throw_def split: prod.splits io_event.splits
          dest: next_event_script)
    ultimately show ?thesis using dok init by (auto simp: keeps_refl)
  next
    case True
    then obtain s1 where sc: "syscall (\<lambda>w. w) s = (Ret True, s1)" by blast
    then have s1: "s1 = s\<lparr>script := tl (script s)\<rparr>" by (cases rule: syscall_cases) auto
    have f1: "dir s1 = dir s" "sstables s1 = []" "memtable s1 = MemTable_init"
      "next_sstable_number s1 = 1" "script s1 = tl (script s)"
      by (simp_all add: s1 init)
    from code sc have "andthen discover_sstables (\<lambda>_. recover_wal) s1 = (r, s')"
      by (simp add: andthen_def)
    then show ?thesis
    proof (cases rule: andthen_cases)
      case (throw e)
      with discover_sstables_outcome [OF throw(1)] f1 dok show ?thesis by auto
    next
      case killed
      with discover_sstables_outcome [OF killed(1)] f1 dok show ?thesis by auto
    next
      case (ret u s2)
      from discover_sstables_outcome [OF ret(1)] f1 dok
      have d: "keeps (dir s) (dir s2)" "sstables s2 = disk_readers (dir s)"
        "memtable s2 = MemTable_init" "script s1 = [] \<longrightarrow> script s2 = []"
        "next_sstable_number s2 = (if sst_numbers (dir s) = [] then 1 else last (sst_numbers (dir s)) + 1)"
        by simp_all
      have ok2: "dir_ok (dir s2)" using d(1) by (simp add: keeps_def)
      note out = recover_wal_outcome [OF ret(2) ok2]
      have k: "keeps (dir s) (dir s')" using keeps_trans [OF d(1)] out by blast
      moreover have "r = Ret ()" if "script s = []"
        using out d(4) f1(5) that by simp
      moreover have "db_good s' \<and> db_view s' = disk_store (dir s) \<and> next_sstable_number s' =
          (if sst_numbers (dir s) = [] then 1 else last (sst_numbers (dir s)) + 1)" if "r = Ret ()"
      proof -
        have rec: "records (wal_content (dir s2)) = records (wal_content (dir s))"
          "records (wal_content (dir s')) = records (wal_content (dir s))"
          using d(1) k by (simp_all add: keeps_def)
        have fields: "dir s' wal_path \<noteq> None" "clean_log (wal_content (dir s'))"
          "sstables s' = disk_readers (dir s')"
          "next_sstable_number s' = next_sstable_number s2"
          "memtable s' = memtable_run (map record_op (records (wal_content (dir s')))) MemTable_init"
          using out that d rec keeps_disk(2) [OF k] by simp_all
        have "k < next_sstable_number s'" if "k \<in> set (sst_numbers (dir s'))" for k
          using last_sst_number [of "dir s" k] ok that
          unfolding fields(4) d(5) keeps_disk(1) [OF k] recoverable_def
          by (auto simp del: set_sst_numbers)
        moreover have "table_ok (table (memtable s'))"
          using keeps_disk(4) [OF k ok] unfolding fields(5) recoverable_def by blast
        ultimately have "db_good s'"
          using fields k unfolding db_good_def keeps_def by blast
        then show ?thesis using fields(4) d(5) by (simp add: db_good_view keeps_disk(3) [OF k])
      qed
      ultimately show ?thesis by blast
    qed
  qed
qed

lemma unopened_init [simp]:
  "unopened (Database_init th tr fs es)" "files (Database_init th tr fs es) = fs"
  "script (Database_init th tr fs es) = es"
  by (simp_all add: unopened_def Database_init_def)

lemma Database_construct_outcome:
  assumes "Database_construct (Database_init th tr fs es) = (r, s')"
    and "recoverable (map_of fs)"
  shows "keeps (map_of fs) (dir s') \<and>
    (r = Ret () \<longrightarrow> db_good s' \<and> db_view s' = disk_store (map_of fs) \<and>
       next_sstable_number s' =
         (if sst_numbers (map_of fs) = [] then 1 else last (sst_numbers (map_of fs)) + 1)) \<and>
    (es = [] \<longrightarrow> r = Ret ())"
  using construct_outcome [OF assms(1)] assms(2) by simp

text \<open>Opening never loses anything, not even when it fails or dies halfway.\<close>

lemma construct_stable:
  assumes "Database_construct s = (r, s')" and "unopened s"
    and "recoverable (dir s)" and "wal_durable (dir s)"
  shows "stable (files s') (disk_store (dir s))"
  using construct_outcome [OF assms(1-3)] assms(3,4) keeps_disk(3,4) [of "dir s" "dir s'"]
  by (intro stableI) (auto simp: keeps_def)

lemma Database_construct_stable:
  assumes "Database_construct (Database_init th tr fs es) = (r, s')"
    and "recoverable (map_of fs)" and "wal_durable (map_of fs)"
  shows "stable (files s') (disk_store (map_of fs))"
  using construct_stable [OF assms(1)] assms(2,3) by simp

section \<open>Runs\<close>

text \<open>
  A client that issues updates until one does not return; the result says how many returned.
\<close>

fun run_ops :: "kv_op list \<Rightarrow> 'x database_scheme \<Rightarrow> nat \<times> 'x database_scheme" where
  "run_ops [] s = (0, s)"
| "run_ops (x # xs) s =
     (case Database_op x s of
        (Ret u, s') \<Rightarrow> (case run_ops xs s' of (n, s'') \<Rightarrow> (Suc n, s''))
      | (Throw e, s') \<Rightarrow> (0, s')
      | (Killed, s') \<Rightarrow> (0, s'))"

text \<open>Every update the client issues keeps within what the format can represent.\<close>

fun ops_fit :: "kv_op list \<Rightarrow> 'x database_scheme \<Rightarrow> bool" where
  "ops_fit [] s = True"
| "ops_fit (x # xs) s = (op_fits x s \<and>
     (case Database_op x s of (Ret u, s') \<Rightarrow> ops_fit xs s' | (Throw e, s') \<Rightarrow> True | (Killed, s') \<Rightarrow> True))"

lemma run_ops_outcome:
  assumes "db_good s" and "wal_durable (dir s)" and "ops_fit xs s" and "run_ops xs s = (n, s')"
  shows "n \<le> length xs \<and>
    (\<forall>b fs'. restart b (files s') fs' \<longrightarrow> recoverable (map_of fs') \<and>
       disk_store (map_of fs') \<in> {store_ops (take n xs) (db_view s), store_ops (take (Suc n) xs) (db_view s)}) \<and>
    (n = length xs \<longrightarrow> db_good s' \<and> wal_durable (dir s') \<and> db_view s' = store_ops xs (db_view s))"
  using assms
proof (induction xs arbitrary: s n)
  case Nil
  then have "stable (files s) (db_view s)"
    using db_good_recoverable db_good_view by (metis stableI)
  with Nil show ?case by (simp add: stable_def)
next
  case (Cons x xs)
  obtain r s1 where op: "Database_op x s = (r, s1)" by force
  have fits: "op_fits x s" using Cons.prems(3) by simp
  note out = op_outcome [OF op Cons.prems(1,2) fits]
  show ?case
  proof (cases "r = Ret ()")
    case False
    with Cons.prems(4) op have "n = 0" "s' = s1" by (auto split: result.splits)
    with out show ?thesis by simp
  next
    case True
    obtain m s2 where rest: "run_ops xs s1 = (m, s2)" by force
    with Cons.prems(4) op True have n: "n = Suc m" "s' = s2" by auto
    have "ops_fit xs s1" using Cons.prems(3) op True by simp
    from Cons.IH [OF _ _ this rest [folded n(2)]] out True show ?thesis by (simp add: n)
  qed
qed

end
