(* ===== verification/Engine.thy ===== *)
theory Engine
  imports Recovery
begin

text \<open>
  The engine as an implementation of \<^verbatim>\<open>kv_store.h\<close>: updates return when no call fails, and
  the operations satisfy the contract \<open>kv_store\<close> in every state reached by updates that
  returned. \<open>None\<close> stands for an update that did not return, or one beyond the format's
  bounds (\<open>op_fits\<close>).
\<close>

section \<open>Nothing fails\<close>

lemma Flush_proceeds:
  assumes idle: "script s = []" and good: "db_good s"
  shows "\<exists>s'. Flush s = (Ret (), s') \<and> script s' = [] \<and>
    sstables s' = sstables s @ [reader_for (SSTableFilename (next_sstable_number s)) (table (memtable s))] \<and>
    next_sstable_number s' = next_sstable_number s + 1 \<and> memtable s' = MemTable_init \<and>
    wal_content (dir s') = []"
proof -
  let ?path = "SSTableFilename (next_sstable_number s)" and ?T = "table (memtable s)"
  have T: "table_ok ?T" using good unfolding db_good_def by blast
  from good obtain f where f: "dir s wal_path = Some f" by (auto simp: db_good_def)
  obtain fs where w: "WriteSSTable ?path ?T s = (Ret (), s\<lparr>files := fs\<rparr>)"
    and fs: "map_of fs = (dir s)(?path @ ''.tmp'' := None, ?path \<mapsto> sstable_file ?T)"
    using WriteSSTable_proceeds [OF idle] by blast
  have open': "SSTableReader_open ?path (s\<lparr>files := fs\<rparr>) = (Ret (reader_for ?path ?T), s\<lparr>files := fs\<rparr>)"
    using SSTableReader_open_proceeds [of "s\<lparr>files := fs\<rparr>" ?path "sstable_file ?T"] idle T
    by (simp add: fs sstable_file_def sstable_parse_image)
  let ?s2 = "s\<lparr>files := fs, sstables := sstables s @ [reader_for ?path ?T],
      next_sstable_number := next_sstable_number s + 1\<rparr>"
  have reset: "wal_reset wal_path ?s2 = (Ret (), set_file wal_path \<lparr>content = [], synced = 0\<rparr> ?s2)"
    using idle f by (intro wal_reset_proceeds [where f = f]) (simp_all add: fs)
  show ?thesis
    unfolding Flush_def Let_def
    using w open' reset idle
    by (simp add: andthen_step MaybeTriggerCompaction_def update_def set_file_def update_conv' wal_content_def)
qed

lemma Database_op_logged:
  assumes idle: "script s = []" and good: "db_good s" and fits: "op_fits x s"
  shows "\<exists>s2. Database_op x s = MaybeFlush s2 \<and> db_good s2 \<and> script s2 = [] \<and>
    sstables s2 = sstables s \<and> next_sstable_number s2 = next_sstable_number s \<and>
    memtable s2 = memtable_op x (memtable s) \<and> flush_threshold_bytes s2 = flush_threshold_bytes s"
proof -
  obtain t k v where rec: "op_record x = (t, k, v)" by (cases "op_record x")
  from good obtain f where f: "dir s wal_path = Some f" by (auto simp: db_good_def)
  let ?f = "f\<lparr>content := content f @ EncodeRecord t k v, synced := length (content f @ EncodeRecord t k v)\<rparr>"
  let ?s1 = "set_file wal_path ?f s"
  let ?s2 = "?s1\<lparr>memtable := memtable_op x (memtable s)\<rparr>"
  have m2: "dir ?s2 = (dir s)(wal_path \<mapsto> ?f)" by simp
  have same: "sstables ?s2 = sstables s" "next_sstable_number ?s2 = next_sstable_number s"
    "memtable ?s2 = memtable_op x (memtable s)" "memtable ?s1 = memtable s" "script ?s2 = []"
    "flush_threshold_bytes ?s2 = flush_threshold_bytes s"
    using idle by (simp_all add: set_file_def)
  have good2: "db_good ?s2" by (rule logged_good(1) [OF good fits f rec m2 same(1,2,3)])
  have "Database_op x s = MaybeFlush ?s2"
    unfolding Database_op_code [OF rec] using wal_append_proceeds [OF idle f] same(4)
    by (simp add: andthen_step)
  with good2 same show ?thesis by blast
qed

lemma Database_op_proceeds:
  assumes "script s = []" and "db_good s" and "op_fits x s"
  shows "\<exists>s'. Database_op x s = (Ret (), s') \<and> script s' = []"
proof -
  from Database_op_logged [OF assms] obtain s2 where s2: "Database_op x s = MaybeFlush s2"
    "db_good s2" "script s2 = []" by blast
  from Flush_proceeds [OF s2(3,2)] s2 show ?thesis by (auto simp: MaybeFlush_def)
qed

lemma Database_op_flushes:
  assumes "script s = []" and "db_good s" and "op_fits x s"
    and full: "flush_threshold_bytes s \<le> approximate_size_bytes (memtable_op x (memtable s))"
  shows "\<exists>s'. Database_op x s = (Ret (), s') \<and> script s' = [] \<and>
    sstables s' = sstables s @
      [reader_for (SSTableFilename (next_sstable_number s)) (table (memtable_op x (memtable s)))] \<and>
    next_sstable_number s' = next_sstable_number s + 1 \<and> memtable s' = MemTable_init \<and>
    wal_content (dir s') = []"
proof -
  from Database_op_logged [OF assms(1-3)] obtain s2 where s2: "Database_op x s = MaybeFlush s2"
    "db_good s2" "script s2 = []" "sstables s2 = sstables s"
    "next_sstable_number s2 = next_sstable_number s" "memtable s2 = memtable_op x (memtable s)"
    "flush_threshold_bytes s2 = flush_threshold_bytes s"
    by blast
  with full have "Database_op x s = Flush s2" by (simp add: MaybeFlush_def)
  with Flush_proceeds [OF s2(3,2)] show ?thesis unfolding s2(4-6) by simp
qed

lemma run_ops_proceeds:
  "script s = [] \<Longrightarrow> db_good s \<Longrightarrow> wal_durable (dir s) \<Longrightarrow> ops_fit xs s \<Longrightarrow>
     fst (run_ops xs s) = length xs"
proof (induction xs arbitrary: s)
  case Nil
  then show ?case by simp
next
  case (Cons x xs)
  have fits: "op_fits x s" using Cons.prems(4) by simp
  from Database_op_proceeds [OF Cons.prems(1,2) fits] obtain s'
    where s': "Database_op x s = (Ret (), s')" "script s' = []" by blast
  from op_outcome [OF s'(1) Cons.prems(2,3) fits] have good': "db_good s'" "wal_durable (dir s')" by simp_all
  have "ops_fit xs s'" using Cons.prems(4) s'(1) by simp
  from Cons.IH [OF s'(2) good' this] s'(1) show ?case by (auto split: prod.split)
qed

section \<open>The engine implements the key-value contract\<close>

definition returned :: "unit result \<times> 's \<Rightarrow> 's option" where
  "returned out = (case out of (Ret u, s) \<Rightarrow> Some s | (Throw e, s) \<Rightarrow> None | (Killed, s) \<Rightarrow> None)"

definition db_update :: "kv_op \<Rightarrow> database \<Rightarrow> database option" where
  "db_update x s = (if op_fits x s then returned (Database_op x s) else None)"

definition db_get :: "database \<Rightarrow> bytes \<Rightarrow> bytes option" where
  "db_get s k = (case Database_get s k of Inl e \<Rightarrow> None | Inr v \<Rightarrow> v)"

definition db_scan :: "database \<Rightarrow> bytes \<Rightarrow> bytes \<Rightarrow> (bytes \<times> bytes) list" where
  "db_scan s a b = (case Database_scan s a b of Inl e \<Rightarrow> [] | Inr r \<Rightarrow> r)"

lemma db_update_outcome:
  assumes "db_good s \<and> wal_durable (dir s)" and "db_update x s = Some s'"
  shows "(db_good s' \<and> wal_durable (dir s')) \<and> db_view s' = store_op x (db_view s)"
proof -
  from assms(2) have "op_fits x s" and "Database_op x s = (Ret (), s')"
    by (auto simp: db_update_def returned_def split: if_splits prod.splits result.splits)
  from op_outcome [OF this(2) _ _ this(1)] assms(1) show ?thesis by simp
qed

interpretation engine: kv_store "\<lambda>s. db_good s \<and> wal_durable (dir s)" db_view
  "\<lambda>k v. db_update (Put k v)" "\<lambda>k. db_update (Remove k)" db_get db_scan
proof
  fix s :: database and k v a b
  assume ok: "db_good s \<and> wal_durable (dir s)"
  then have reads: "reads_ok s" by (simp add: db_good_reads)
  show "db_get s k = db_view s k"
    by (simp add: db_get_def Database_get_view [OF reads])
  show "range_of (db_view s) a b (db_scan s a b)"
    using Database_scan_view [OF reads, of a b] by (auto simp: db_scan_def)
  show "(db_good s' \<and> wal_durable (dir s')) \<and> db_view s' = (db_view s)(k \<mapsto> v)"
    if "db_update (Put k v) s = Some s'" for s'
    using db_update_outcome [OF ok that] by simp
  show "(db_good s' \<and> wal_durable (dir s')) \<and> db_view s' = (db_view s)(k := None)"
    if "db_update (Remove k) s = Some s'" for s'
    using db_update_outcome [OF ok that] by simp
qed

lemma run_ops_engine:
  "ops_fit xs s \<Longrightarrow> run_ops xs s = (length xs, s') \<Longrightarrow> engine.apply_ops xs s = Some s'"
proof (induction xs arbitrary: s)
  case Nil
  then show ?case by simp
next
  case (Cons x xs)
  obtain r s1 where op: "Database_op x s = (r, s1)" by force
  with Cons.prems have r: "r = Ret ()" by (auto split: result.splits prod.splits)
  have "run_ops xs s1 = (length xs, s')" "ops_fit xs s1"
    using Cons.prems op r by (auto split: prod.splits)
  moreover have "engine.apply_op x s = Some s1"
    using Cons.prems(1) op r by (cases x) (simp_all add: db_update_def returned_def)
  ultimately show ?case using Cons.IH by simp
qed


section \<open>A fresh engine\<close>

text \<open>What opening an empty directory gives; the inputs of the witnesses start from it.\<close>

definition fresh_engine :: "u64 \<Rightarrow> nat \<Rightarrow> io_event list \<Rightarrow> database" where
  "fresh_engine th tr es = Database_init th tr [(wal_path, \<lparr>content = [], synced = 0\<rparr>)] es"

lemma no_table_wal: "m = [wal_path \<mapsto> f] \<Longrightarrow> dir_ok m \<and> sst_numbers m = []"
  by (auto simp: dir_ok_def sst_numbers_def split: if_splits)

lemma recoverable_wal_only:
  assumes "records (content f) = []"
  shows "recoverable (map_of [(wal_path, f)])"
  using assms no_table_wal [of "map_of [(wal_path, f)]" f]
  by (simp add: recoverable_def wal_content_def table_ok_def sstable_image_eq index_section_def
      sampled_def samples_def)

lemma fresh_engine_good: "db_good (fresh_engine th tr es)" "wal_durable (dir (fresh_engine th tr es))"
  "db_view (fresh_engine th tr es) = Map.empty"
proof -
  let ?f = "\<lparr>content = [], synced = 0\<rparr>"
  have "dir_ok (map_of [(wal_path, ?f)])" "sst_numbers (map_of [(wal_path, ?f)]) = []"
    using no_table_wal [of "map_of [(wal_path, ?f)]" ?f] by simp_all
  then show "db_good (fresh_engine th tr es)"
    by (simp add: db_good_def fresh_engine_def Database_init_def wal_content_def table_ok_def
        disk_readers_def sstable_image_eq index_section_def sampled_def samples_def)
  show "wal_durable (dir (fresh_engine th tr es))" "db_view (fresh_engine th tr es) = Map.empty"
    by (simp_all add: fresh_engine_def Database_init_def wal_durable_def db_view_def db_entries_def)
qed

lemma fresh_engine_opened:
  "\<exists>s. Database_construct (Database_init th tr [] []) = (Ret (), s) \<and> db_view s = Map.empty"
proof -
  have m: "sst_numbers Map.empty = []" by (simp add: sst_numbers_def)
  then have "recoverable (map_of [])"
    by (simp add: recoverable_def dir_ok_def wal_content_def table_ok_def sstable_image_eq
        index_section_def sampled_def samples_def)
  moreover have "disk_store (map_of []) = Map.empty"
    using m by (simp add: disk_store_def wal_content_def disk_readers_def)
  moreover obtain r s where "Database_construct (Database_init th tr [] []) = (r, s)" by force
  ultimately show ?thesis
    using Database_construct_outcome [of th tr "[]" "[]" r s] by auto
qed

lemma fresh_put_fits: "ops_fit [Put [1] [2]] (fresh_engine th tr es)"
proof -
  have "(1 :: u64) < - 1"
    by (simp add: word_less_nat_alt unsigned_minus_1_eq_mask mask_eq_exp_minus_1)
  then have "op_fits (Put [1] [2]) (fresh_engine th tr es)"
    by (simp add: op_fits_def fresh_engine_def Database_init_def memtable_put_Upsert table_Upsert
        table_ok_def entry_fits_def sstable_image_eq entry_bytes_def length_EncodeRecord
        index_section_def sampled_def samples_def index_entry_bytes_def entry_type_def)
  then show ?thesis by (simp split: prod.split result.split)
qed

section \<open>Properties\<close>

text \<open>
  C15. Updates return: when no call fails, a sequence of updates within the format's bounds
  on an engine in a good state returns completely, flushes included.
\<close>

theorem updates_return:
  assumes "script s = []" and "db_good s" and "wal_durable (dir s)" and "ops_fit xs s"
  shows "fst (run_ops xs s) = length xs"
  using assms by (rule run_ops_proceeds)

theorem updates_return_witness:
  "fst (run_ops [Put [1] [2]] (fresh_engine 1 4 [])) = 1"
  using updates_return [of "fresh_engine 1 4 []" "[Put [1] [2]]"] fresh_engine_good fresh_put_fits
  by (simp add: fresh_engine_def Database_init_def)

text \<open>
  C3. The engine is the store of its updates: after any sequence of updates that all
  returned, whatever the environment did and however many flushes and log resets happened
  on the way, \<open>get\<close> returns what the last update of the key left, and \<open>scan\<close> exactly the
  live entries of the half-open range in key order; neither throws.
\<close>

theorem engine_is_store:
  assumes "db_good s" and "wal_durable (dir s)" and "ops_fit xs s"
    and "run_ops xs s = (length xs, s')"
  shows "Database_get s' k = Inr (store_ops xs (db_view s) k) \<and>
    (\<exists>res. Database_scan s' a b = Inr res \<and> range_of (store_ops xs (db_view s)) a b res)"
proof -
  have "db_good s'" and view: "db_view s' = store_ops xs (db_view s)"
    using run_ops_outcome [OF assms] by simp_all
  then have "reads_ok s'" by (simp add: db_good_reads)
  from Database_get_view [OF this, of k] Database_scan_view [OF this, of a b] view
  show ?thesis by simp
qed

theorem engine_is_store_witness:
  "\<exists>s'. run_ops [Put [1] [2]] (fresh_engine 1 4 []) = (1, s') \<and> Database_get s' [1] = Inr (Some [2])"
proof -
  have "fst (run_ops [Put [1] [2]] (fresh_engine 1 4 [])) = length [Put [1] [2]]"
    using fresh_engine_good fresh_put_fits
    by (intro run_ops_proceeds) (simp_all add: fresh_engine_def Database_init_def)
  then obtain s' where run: "run_ops [Put [1] [2]] (fresh_engine 1 4 []) = (length [Put [1] [2]], s')"
    by (metis prod.collapse)
  from engine_is_store [OF fresh_engine_good(1,2) fresh_put_fits this, of "[1]"] run
  show ?thesis by (simp add: fresh_engine_good)
qed



text \<open>
  Recovery does not depend on the order in which the directory lists its files: two
  listings of the same files give engines that answer alike.
\<close>

lemma opening_order_independent:
  assumes "recoverable (map_of fs)" and "map_of gs = map_of fs"
    and "Database_construct (Database_init th tr fs es) = (Ret (), s)"
    and "Database_construct (Database_init th tr gs es') = (Ret (), t)"
  shows "Database_get s k = Database_get t k \<and> Database_scan s a b = Database_scan t a b"
proof -
  have s: "db_good s" "db_view s = disk_store (map_of fs)"
    using Database_construct_outcome [OF assms(3,1)] by simp_all
  have t: "db_good t" "db_view t = disk_store (map_of fs)"
    using Database_construct_outcome [OF assms(4)] assms(1,2) by simp_all
  have rs: "reads_ok s" and rt: "reads_ok t"
    using s(1) t(1) by (simp_all add: db_good_reads)
  obtain x where x: "Database_scan s a b = Inr x" "range_of (disk_store (map_of fs)) a b x"
    using Database_scan_view [OF rs, of a b] s(2) by auto
  obtain y where y: "Database_scan t a b = Inr y" "range_of (disk_store (map_of fs)) a b y"
    using Database_scan_view [OF rt, of a b] t(2) by auto
  have "x = y" by (rule range_of_unique [OF x(2) y(2)])
  then show ?thesis
    using x(1) y(1) s(2) t(2) by (simp add: Database_get_view [OF rs] Database_get_view [OF rt])
qed


end
