(* ===== verification/Scripts.thy ===== *)
theory Scripts
  imports Sstable_File
begin

text \<open>
  How programs use the script of environment events: they take it from the front, and a
  script of successes is as good as an empty one.
\<close>

section \<open>Consumption\<close>

definition no_failure :: "io_event list \<Rightarrow> bool" where
  "no_failure es \<longleftrightarrow> Io_error \<notin> set es \<and> Interrupted \<notin> set es"

text \<open>Programs consume the script from the front, so what is left of a reliable one is reliable.\<close>

definition consumes :: "('x world_scheme, 'a) prog \<Rightarrow> bool" where
  "consumes p \<longleftrightarrow> (\<forall>w. suffix (script (snd (p w))) (script w))"

lemma consumes_no_failure:
  assumes "consumes p" and "p w = (r, w')" and "no_failure (script w)"
  shows "no_failure (script w')"
proof -
  have "suffix (script w') (script w)"
    using assms(1,2) unfolding consumes_def by (metis snd_conv)
  then show ?thesis
    using assms(3) set_mono_suffix unfolding no_failure_def by blast
qed

lemma consumes_next_event: "next_event w = (e, w') \<Longrightarrow> suffix (script w') (script w)"
  by (auto simp: next_event_def suffix_def split: list.splits)

lemma consumes_syscall: "(\<And>w. script (effect w) = script w) \<Longrightarrow> consumes (syscall effect)"
  by (auto simp: consumes_def syscall_def split: prod.split io_event.split dest: consumes_next_event)

lemma consumes_andthen:
  assumes "consumes m" and "\<And>a. consumes (f a)"
  shows "consumes (andthen m f)"
  unfolding consumes_def
proof
  fix w
  obtain r w1 where m: "m w = (r, w1)" by force
  have w1: "suffix (script w1) (script w)"
    using assms(1) m unfolding consumes_def by (metis snd_conv)
  have "suffix (script (snd (f a w1))) (script w)" for a
    using assms(2) [of a] w1 unfolding consumes_def by (metis suffix_order.trans)
  with w1 m show "suffix (script (snd (andthen m f w))) (script w)"
    by (cases r) (simp_all add: andthen_def)
qed

lemma consumes_simps: "consumes (ret a)" "consumes (ThrowErrno msg)" "consumes (throw e)" "consumes (lift x)"
  by (auto simp: consumes_def ret_def ThrowErrno_def throw_def lift_def split: sum.split)

lemma consumes_if: "consumes p \<Longrightarrow> consumes q \<Longrightarrow> consumes (if b then p else q)"
  by simp

lemma consumes_write_loop: "suffix (script (snd (write_loop fd data n w))) (script w)"
proof (induction fd data n w rule: write_loop.induct)
  case (1 fd data n w)
  show ?case
  proof (cases "n < length data")
    case False
    then show ?thesis by (simp add: write_loop.simps [of fd data n w])
  next
    case True
    obtain c w1 where c: "sys_write fd (drop n data) w = (c, w1)" by force
    then have w1: "suffix (script w1) (script w)"
      by (cases rule: sys_write_cases) simp_all
    note ih = "1.IH" [OF True c [symmetric]]
    from c show ?thesis
    proof (cases rule: sys_write_cases)
      case (wrote m)
      have "write_loop fd data n w = write_loop fd data (n + m) w1"
        using True c wrote(1) by (simp add: write_loop.simps [of fd data n w])
      then show ?thesis using suffix_order.trans [OF ih(1) [OF wrote(1) refl] w1] by simp
    next
      case stopped
      then consider "c = Ret Write_eintr" | "c = Ret Write_error" | "c = Killed" by blast
      then show ?thesis
      proof cases
        case 1
        have "write_loop fd data n w = write_loop fd data n w1"
          using True c 1 by (simp add: write_loop.simps [of fd data n w])
        then show ?thesis using suffix_order.trans [OF ih(2) [OF 1 refl] w1] by simp
      qed (use c True w1 in \<open>simp_all add: write_loop.simps [of fd data n w] ThrowErrno_def throw_def\<close>)
    qed
  qed
qed

lemma consumes_sys_read: "sys_read fd n c w = (r, w1) \<Longrightarrow> suffix (script w1) (script w)"
  by (auto simp: sys_read_def dest!: next_event_script split: prod.splits io_event.splits)

lemma consumes_read_loop: "suffix (script (snd (read_loop fd c w))) (script w)"
proof (induction fd c w rule: read_loop.induct)
  case (1 fd c w)
  obtain r w1 where r: "sys_read fd (length c) 4096 w = (r, w1)" by force
  then have w1: "suffix (script w1) (script w)" by (rule consumes_sys_read)
  show ?case
  proof (cases "\<exists>chunk. r = Ret (Some chunk) \<and> chunk \<noteq> []")
    case True
    then obtain chunk where chunk: "r = Ret (Some chunk)" "chunk \<noteq> []" by blast
    have "read_loop fd c w = read_loop fd (c @ chunk) w1"
      using r chunk by (simp add: read_loop.simps [of fd c w])
    then show ?thesis
      using suffix_order.trans [OF "1.IH" [OF r [symmetric] chunk(1) refl chunk(2)] w1] by simp
  next
    case False
    with r w1 show ?thesis
      by (auto simp: read_loop.simps [of fd c w] ThrowErrno_def throw_def split: result.split option.split)
  qed
qed

lemma consumes_WriteAll: "consumes (WriteAll fd data)"
  by (simp add: consumes_def WriteAll_def consumes_write_loop)

lemma consumes_ReadAll: "consumes (ReadAll fd)"
  by (simp add: consumes_def ReadAll_def consumes_read_loop)

lemma consumes_open_read: "consumes (sys_open_read name)"
  unfolding sys_open_read_def
  by (intro consumes_andthen consumes_syscall) (simp_all add: consumes_def)

lemma consumes_WriteSSTable: "consumes (WriteSSTable path es)"
  unfolding WriteSSTable_def sstable_sections_eq prod.case Let_def
    sys_open_trunc_def sys_fsync_def sys_rename_def
  by (intro consumes_andthen consumes_simps consumes_if consumes_WriteAll consumes_syscall; simp)

lemma consumes_SSTableReader_open: "consumes (SSTableReader_open path)"
  unfolding SSTableReader_open_def
  by (intro consumes_andthen consumes_simps consumes_if consumes_ReadAll consumes_open_read)

lemmas consumes_rules = consumes_andthen consumes_simps consumes_if consumes_WriteAll consumes_ReadAll
  consumes_open_read consumes_WriteSSTable consumes_SSTableReader_open

section \<open>Scripts of successes\<close>

text \<open>
  Some number of successes lets the program run as the empty script does, and leaves what
  follows them.
\<close>

definition reliable :: "('x world_scheme, 'a) prog \<Rightarrow> bool" where
  "reliable p \<longleftrightarrow> (\<forall>w. script w = [] \<longrightarrow> script (snd (p w)) = [] \<and>
     (\<exists>m. \<forall>rest. p (w\<lparr>script := replicate m Proceed @ rest\<rparr>)
        = (fst (p w), (snd (p w))\<lparr>script := rest\<rparr>)))"

lemma reliableD:
  assumes "reliable p" and "script w = []" and "p w = (r, w')"
  obtains m where "\<And>rest. p (w\<lparr>script := replicate m Proceed @ rest\<rparr>) = (r, w'\<lparr>script := rest\<rparr>)"
    and "script w' = []"
  using assms unfolding reliable_def by (metis fst_conv snd_conv)

lemma reliableI0:
  assumes "\<And>w es. p (w\<lparr>script := es\<rparr>) = (fst (p w), (snd (p w))\<lparr>script := es\<rparr>)"
    and "\<And>w. script (snd (p w)) = script w"
  shows "reliable p"
  using assms unfolding reliable_def by (metis append_Nil replicate_0)

lemma reliable_simps: "reliable (ret a)" "reliable (ThrowErrno msg)" "reliable (throw e)" "reliable (lift x)"
  by (auto intro!: reliableI0 simp: ret_def ThrowErrno_def throw_def lift_def split: sum.split)

lemma reliable_if: "reliable p \<Longrightarrow> reliable q \<Longrightarrow> reliable (if b then p else q)"
  by simp

lemma reliable_syscall:
  assumes "\<And>w es. effect (w\<lparr>script := es\<rparr>) = (effect w)\<lparr>script := es\<rparr>"
    and "\<And>w. script (effect w) = script w"
  shows "reliable (syscall effect)"
  unfolding reliable_def
proof (intro allI impI conjI)
  fix w :: "'a world_scheme" assume w: "script w = []"
  have run: "syscall effect w = (Ret True, effect w)" by (rule syscall_proceeds [OF w])
  show "script (snd (syscall effect w)) = []" using run w by (simp add: assms(2))
  have "syscall effect (w\<lparr>script := replicate 1 Proceed @ rest\<rparr>) = (Ret True, (effect w)\<lparr>script := rest\<rparr>)"
    for rest
    by (simp add: syscall_def next_event_def assms(1))
  with run show "\<exists>m. \<forall>rest. syscall effect (w\<lparr>script := replicate m Proceed @ rest\<rparr>)
      = (fst (syscall effect w), (snd (syscall effect w))\<lparr>script := rest\<rparr>)"
    by (intro exI [of _ 1]) simp
qed

lemma reliable_andthen:
  assumes p: "reliable p" and f: "\<And>a. reliable (f a)"
  shows "reliable (andthen p f)"
  unfolding reliable_def
proof (intro allI impI)
  fix w :: "'a world_scheme" assume w: "script w = []"
  obtain r w1 where r: "p w = (r, w1)" by force
  from reliableD [OF p w r] obtain m
    where m: "\<And>rest. p (w\<lparr>script := replicate m Proceed @ rest\<rparr>) = (r, w1\<lparr>script := rest\<rparr>)"
      and w1: "script w1 = []" by metis
  show "script (snd (andthen p f w)) = [] \<and> (\<exists>m. \<forall>rest. andthen p f (w\<lparr>script := replicate m Proceed @ rest\<rparr>)
      = (fst (andthen p f w), (snd (andthen p f w))\<lparr>script := rest\<rparr>))"
  proof (cases "\<exists>a. r = Ret a")
    case False
    then show ?thesis using r m w1
      by (cases r) (auto simp: andthen_def intro!: exI [of _ m])
  next
    case True
    then obtain a where a: "r = Ret a" by blast
    obtain r' w2 where r': "f a w1 = (r', w2)" by force
    from reliableD [OF f w1 r'] obtain n
      where n: "\<And>rest. f a (w1\<lparr>script := replicate n Proceed @ rest\<rparr>) = (r', w2\<lparr>script := rest\<rparr>)"
        and w2: "script w2 = []" by metis
    have "andthen p f (w\<lparr>script := replicate (m + n) Proceed @ rest\<rparr>) = (r', w2\<lparr>script := rest\<rparr>)" for rest
      using m [of "replicate n Proceed @ rest"] n a by (simp add: replicate_add andthen_def)
    with r r' a w2 show ?thesis by (auto simp: andthen_def)
  qed
qed

lemma reliable_WriteAll: "reliable (WriteAll fd data)"
proof (cases "data = []")
  case True
  then show ?thesis
    by (intro reliableI0) (simp_all add: WriteAll_def write_loop.simps)
next
  case False
  show ?thesis
    unfolding reliable_def
  proof (intro allI impI)
    fix w :: "'a world_scheme" assume w: "script w = []"
    have full: "write_loop fd data (length data) v = (Ret (), v)" for v :: "'a world_scheme"
      by (simp add: write_loop.simps)
    have run: "WriteAll fd data w = (Ret (), append_file fd data w)"
      using False w by (simp add: WriteAll_def write_loop.simps [of fd data 0] sys_write_def next_event_done full)
    have "WriteAll fd data (w\<lparr>script := replicate 1 Proceed @ rest\<rparr>) = (Ret (), (append_file fd data w)\<lparr>script := rest\<rparr>)"
      for rest
      using False by (simp add: WriteAll_def write_loop.simps [of fd data 0] sys_write_def next_event_def full)
    with run w show "script (snd (WriteAll fd data w)) = [] \<and>
        (\<exists>m. \<forall>rest. WriteAll fd data (w\<lparr>script := replicate m Proceed @ rest\<rparr>)
          = (fst (WriteAll fd data w), (snd (WriteAll fd data w))\<lparr>script := rest\<rparr>))"
      by (intro conjI exI [of _ 1]) simp_all
  qed
qed

lemma read_loop_reliable:
  "script w = [] \<Longrightarrow> \<exists>m. \<forall>rest. read_loop fd c (w\<lparr>script := replicate m Proceed @ rest\<rparr>)
     = (fst (read_loop fd c w), w\<lparr>script := rest\<rparr>)"
proof (induction fd c w rule: read_loop.induct)
  case (1 fd c w)
  let ?chunk = "take 4096 (drop (length c) (content (the_file w fd)))"
  have call: "sys_read fd (length c) 4096 w = (Ret (Some ?chunk), w)"
    using "1.prems" by (simp add: sys_read_def next_event_done)
  have first: "sys_read fd (length c) 4096 (w\<lparr>script := Proceed # es\<rparr>) = (Ret (Some ?chunk), w\<lparr>script := es\<rparr>)" for es
    by (simp add: sys_read_def next_event_def)
  show ?case
  proof (cases "?chunk = []")
    case True
    have "read_loop fd c (w\<lparr>script := replicate 1 Proceed @ rest\<rparr>) = (Ret c, w\<lparr>script := rest\<rparr>)" for rest
      using True first [of rest] by (simp add: read_loop.simps [of fd c])
    moreover have "read_loop fd c w = (Ret c, w)"
      using True call by (simp add: read_loop.simps [of fd c])
    ultimately show ?thesis by (intro exI [of _ 1]) simp
  next
    case False
    from "1.IH" [OF call [symmetric] refl refl False "1.prems"] obtain m
      where m: "\<And>rest. read_loop fd (c @ ?chunk) (w\<lparr>script := replicate m Proceed @ rest\<rparr>)
        = (fst (read_loop fd (c @ ?chunk) w), w\<lparr>script := rest\<rparr>)" by blast
    have "read_loop fd c (w\<lparr>script := replicate (Suc m) Proceed @ rest\<rparr>)
        = (fst (read_loop fd (c @ ?chunk) w), w\<lparr>script := rest\<rparr>)" for rest
      using False first [of "replicate m Proceed @ rest"] m [of rest] by (simp add: read_loop.simps [of fd c])
    moreover have "read_loop fd c w = read_loop fd (c @ ?chunk) w"
      using False call by (simp add: read_loop.simps [of fd c w])
    ultimately show ?thesis by (intro exI [of _ "Suc m"]) simp
  qed
qed

lemma reliable_ReadAll: "reliable (ReadAll fd)"
  unfolding reliable_def
proof (intro allI impI)
  fix w :: "'a world_scheme" assume w: "script w = []"
  have run: "ReadAll fd w = (Ret (content (the_file w fd)), w)" by (rule ReadAll_proceeds [OF w])
  with read_loop_reliable [OF w, of fd "[]"] w
  show "script (snd (ReadAll fd w)) = [] \<and> (\<exists>m. \<forall>rest. ReadAll fd (w\<lparr>script := replicate m Proceed @ rest\<rparr>)
      = (fst (ReadAll fd w), (snd (ReadAll fd w))\<lparr>script := rest\<rparr>))"
    by (simp add: ReadAll_def)
qed

lemma reliable_open_read: "reliable (sys_open_read name)"
  unfolding sys_open_read_def
  by (intro reliable_andthen reliable_syscall reliableI0) simp_all

lemma reliable_WriteSSTable: "reliable (WriteSSTable path es)"
  unfolding WriteSSTable_def sstable_sections_eq prod.case Let_def
    sys_open_trunc_def sys_fsync_def sys_rename_def
  by (intro reliable_andthen reliable_simps reliable_if reliable_WriteAll reliable_syscall;
      simp add: set_file_def)

lemma reliable_SSTableReader_open: "reliable (SSTableReader_open path)"
  unfolding SSTableReader_open_def
  by (intro reliable_andthen reliable_simps reliable_if reliable_ReadAll reliable_open_read)

section \<open>What the file operations leave alone\<close>

text \<open>
  \<open>f\<close> is a part of the state that does not depend on the files and the script; the programs
  below do not change it.
\<close>

text \<open>
  A view of the state that does not depend on the script nor on the files of a set \<open>N\<close>; and
  one that depends on no file at all.
\<close>

definition blind_at :: "string set \<Rightarrow> ('x world_scheme \<Rightarrow> 'f) \<Rightarrow> bool" where
  "blind_at N f \<longleftrightarrow> (\<forall>s es. f (s\<lparr>script := es\<rparr>) = f s) \<and>
     (\<forall>s fs. (\<forall>n. n \<notin> N \<longrightarrow> map_of fs n = map_of (files s) n) \<longrightarrow> f (s\<lparr>files := fs\<rparr>) = f s)"

definition blind :: "('x world_scheme \<Rightarrow> 'f) \<Rightarrow> bool" where
  "blind f \<longleftrightarrow> (\<forall>s fs es. f (s\<lparr>files := fs\<rparr>) = f s \<and> f (s\<lparr>script := es\<rparr>) = f s)"

lemma blind_blind_at: "blind f \<Longrightarrow> blind_at N f"
  by (simp add: blind_def blind_at_def)

lemma blind_at_file: "p \<notin> N \<Longrightarrow> blind_at N (\<lambda>s. map_of (files s) p)"
  by (auto simp: blind_at_def)

lemma blind_at_mono: "blind_at N f \<Longrightarrow> M \<subseteq> N \<Longrightarrow> blind_at M f"
  unfolding blind_at_def by blast

definition preserves :: "('s \<Rightarrow> 'f) \<Rightarrow> ('s, 'a) prog \<Rightarrow> bool" where
  "preserves f p \<longleftrightarrow> (\<forall>s. f (snd (p s)) = f s)"

lemma preservesD: "preserves f p \<Longrightarrow> p s = (r, s') \<Longrightarrow> f s' = f s"
  unfolding preserves_def by (metis snd_conv)

lemma preserves_andthen:
  assumes "preserves f p" and "\<And>a. preserves f (q a)"
  shows "preserves f (andthen p q)"
  unfolding preserves_def
proof
  fix s
  obtain r s1 where p: "p s = (r, s1)" by force
  have "f s1 = f s" by (rule preservesD [OF assms(1) p])
  moreover have "f (snd (q a s1)) = f s1" for a using assms(2) [of a] by (simp add: preserves_def)
  ultimately show "f (snd (andthen p q s)) = f s" using p by (cases r) (simp_all add: andthen_def)
qed

lemma preserves_basic:
  "preserves f (ret a)" "preserves f (ThrowErrno msg)" "preserves f (throw e)" "preserves f (lift x)"
  by (auto simp: preserves_def ret_def ThrowErrno_def throw_def lift_def split: sum.split)

lemma preserves_if: "preserves f p \<Longrightarrow> preserves f q \<Longrightarrow> preserves f (if b then p else q)"
  by simp

lemma blind_simps:
  assumes "blind_at N f"
  shows "f (s\<lparr>script := es\<rparr>) = f s"
    and "n \<in> N \<Longrightarrow> f (set_file n g s) = f s" and "n \<in> N \<Longrightarrow> f (append_file n d s) = f s"
    and "n \<in> N \<Longrightarrow> f (s\<lparr>files := AList.delete n (files s)\<rparr>) = f s"
proof -
  show "f (s\<lparr>script := es\<rparr>) = f s" using assms by (simp add: blind_at_def)
  have files: "f (s\<lparr>files := fs\<rparr>) = f s" if "\<forall>n. n \<notin> N \<longrightarrow> map_of fs n = map_of (files s) n" for fs
    using assms that by (simp add: blind_at_def)
  show set: "f (set_file n g s) = f s" if "n \<in> N" for g
    using that unfolding set_file_def by (intro files) (auto simp: update_conv')
  show "n \<in> N \<Longrightarrow> f (append_file n d s) = f s" unfolding append_file_def by (rule set)
  show "n \<in> N \<Longrightarrow> f (s\<lparr>files := AList.delete n (files s)\<rparr>) = f s"
    by (intro files) (auto simp: delete_conv')
qed

lemma preserves_syscall:
  assumes "blind_at N f" and "\<And>s. f (effect s) = f s"
  shows "preserves f (syscall effect)"
  unfolding preserves_def
proof
  fix s
  show "f (snd (syscall effect s)) = f s"
    by (cases "syscall effect s") (auto simp: assms(2) blind_simps(1) [OF assms(1)] elim!: syscall_cases)
qed

lemma write_loop_blind:
  assumes "blind_at N f" and "fd \<in> N"
  shows "f (snd (write_loop fd data n s)) = f s"
  using assms(2)
proof (induction fd data n s rule: write_loop.induct)
  case (1 fd data n s)
  show ?case
  proof (cases "n < length data")
    case False
    then show ?thesis by (simp add: write_loop.simps [of fd data n s])
  next
    case True
    obtain c s1 where c: "sys_write fd (drop n data) s = (c, s1)" by force
    then have s1: "f s1 = f s"
      by (cases rule: sys_write_cases) (simp_all add: blind_simps [OF assms(1)] "1.prems")
    from c show ?thesis
    proof (cases rule: sys_write_cases)
      case (wrote m)
      with "1.IH"(1) [OF True c [symmetric] wrote(1) refl "1.prems"] s1 True c show ?thesis
        by (simp add: write_loop.simps [of fd data n s])
    next
      case stopped
      with "1.IH"(2) [OF True c [symmetric] _ refl "1.prems"] s1 True c show ?thesis
        by (auto simp: write_loop.simps [of fd data n s] ThrowErrno_def throw_def)
    qed
  qed
qed

lemma preserves_WriteAll: "blind_at N f \<Longrightarrow> fd \<in> N \<Longrightarrow> preserves f (WriteAll fd data)"
  by (simp add: preserves_def WriteAll_def write_loop_blind)

lemma preserves_ReadAll:
  assumes "blind_at N f"
  shows "preserves f (ReadAll fd)"
  unfolding preserves_def
proof
  fix s
  show "f (snd (ReadAll fd s)) = f s"
    by (cases "ReadAll fd s") (auto simp: blind_simps(1) [OF assms] dest!: ReadAll_outcome)
qed

lemma preserves_open_read: "blind_at N f \<Longrightarrow> preserves f (sys_open_read name)"
  unfolding sys_open_read_def
  by (intro preserves_andthen preserves_syscall) (simp_all add: preserves_def)

lemma preserves_file_calls:
  assumes "blind_at N f" and "n \<in> N"
  shows "preserves f (sys_open_trunc n)" and "preserves f (sys_open_append n)" and "preserves f (sys_fsync n)"
    and "preserves f (sys_ftruncate n k)" and "preserves f (sys_remove n)"
    and "m \<in> N \<Longrightarrow> preserves f (sys_rename n m)"
  unfolding sys_open_trunc_def sys_open_append_def sys_fsync_def sys_ftruncate_def sys_remove_def sys_rename_def
  by (intro preserves_syscall [OF assms(1)]; simp add: blind_simps [OF assms(1)] assms(2))+

lemma preserves_WriteSSTable_at:
  assumes "blind_at {path, path @ ''.tmp''} f"
  shows "preserves f (WriteSSTable path es)"
  unfolding WriteSSTable_def sstable_sections_eq prod.case Let_def
  by (intro preserves_andthen preserves_basic preserves_if preserves_WriteAll [OF assms]
      preserves_file_calls [OF assms]) simp_all

lemma preserves_SSTableReader_open_at: "blind_at N f \<Longrightarrow> preserves f (SSTableReader_open path)"
  unfolding SSTableReader_open_def
  by (intro preserves_andthen preserves_basic preserves_if preserves_ReadAll preserves_open_read)

lemma preserves_log_at:
  assumes "blind_at {path} f"
  shows "preserves f (wal_append path t k v)" and "preserves f (wal_reset path)"
  unfolding wal_append_def wal_reset_def
  by (intro preserves_andthen preserves_basic preserves_if preserves_WriteAll [OF assms]
      preserves_file_calls [OF assms]; simp)+

lemmas preserves_WriteSSTable = preserves_WriteSSTable_at [OF blind_blind_at]
lemmas preserves_SSTableReader_open = preserves_SSTableReader_open_at [OF blind_blind_at]
lemmas preserves_log = preserves_log_at [OF blind_blind_at]

lemmas preserves_files = preserves_WriteSSTable preserves_SSTableReader_open preserves_log

end
