(* ===== verification/Op_Fields.thy ===== *)
theory Op_Fields
  imports Engine Scripts
begin

text \<open>
  What an update can change of the object besides its files: nothing outside the engine's own
  fields, the memtable only by the operation or by a reset, the file number by at most one.
\<close>

lemma preserves_update: "(\<And>s. f (g s) = f s) \<Longrightarrow> preserves f (update g)"
  by (simp add: preserves_def update_def)

definition outside_engine :: "('x database_scheme \<Rightarrow> 'f) \<Rightarrow> bool" where
  "outside_engine f \<longleftrightarrow> blind f \<and>
     (\<forall>s x. f (s\<lparr>sstables := x\<rparr>) = f s) \<and> (\<forall>s x. f (s\<lparr>next_sstable_number := x\<rparr>) = f s) \<and>
     (\<forall>s x. f (s\<lparr>memtable := x\<rparr>) = f s) \<and> (\<forall>s x. f (s\<lparr>compaction_requested := x\<rparr>) = f s)"

lemma preserves_Flush:
  assumes "outside_engine f"
  shows "preserves f Flush"
proof -
  have f: "blind f" using assms by (simp add: outside_engine_def)
  have "preserves f (andthen (WriteSSTable n es) (\<lambda>_.
      andthen (SSTableReader_open n) (\<lambda>reader.
      andthen (update (\<lambda>s. s\<lparr>sstables := sstables s @ [reader]\<rparr>)) (\<lambda>_.
      andthen (update (\<lambda>s. s\<lparr>next_sstable_number := next_sstable_number s + 1\<rparr>)) (\<lambda>_.
      andthen (wal_reset wal_path) (\<lambda>_.
      andthen (update (\<lambda>s. s\<lparr>memtable := MemTable_init\<rparr>)) (\<lambda>_. MaybeTriggerCompaction)))))))" for n es
    unfolding MaybeTriggerCompaction_def
    by (intro preserves_andthen preserves_update preserves_files f)
      (use assms in \<open>simp_all add: outside_engine_def\<close>)
  then show ?thesis by (simp add: preserves_def Flush_def Let_def)
qed

lemma preserves_op:
  assumes "outside_engine f"
  shows "preserves f (Database_op x)"
proof -
  have f: "blind f" using assms by (simp add: outside_engine_def)
  obtain t k v where rec: "op_record x = (t, k, v)" by (cases "op_record x")
  have "preserves f MaybeFlush"
    using preserves_Flush [OF assms] by (simp add: preserves_def MaybeFlush_def ret_def)
  then show ?thesis
    unfolding Database_op_code [OF rec]
    by (intro preserves_andthen preserves_update preserves_files f)
      (use assms in \<open>simp_all add: outside_engine_def\<close>)
qed

definition fields :: "'x database_scheme \<Rightarrow> MemTable \<times> u64" where
  "fields s = (memtable s, next_sstable_number s)"

lemma blind_fields: "blind fields"
  by (simp add: blind_def fields_def)

lemmas fields_kept = preserves_files [THEN preservesD, OF blind_fields]

lemma Flush_fields:
  assumes "Flush s = (r, s')"
  shows "memtable s' \<in> {memtable s, MemTable_init} \<and>
    next_sstable_number s' \<in> {next_sstable_number s, next_sstable_number s + 1}"
  using assms unfolding Flush_def Let_def
proof (cases rule: andthen_cases)
  case (ret u s1)
  have 1: "fields s1 = fields s" by (rule fields_kept(1) [OF ret(1)])
  from ret(2) show ?thesis
  proof (cases rule: andthen_cases)
    case (ret rd s2)
    have 2: "fields s2 = fields s1" by (rule fields_kept(2) [OF ret(1)])
    let ?s3 = "s2\<lparr>sstables := sstables s2 @ [rd], next_sstable_number := next_sstable_number s2 + 1\<rparr>"
    from ret(2) have "andthen (wal_reset wal_path)
        (\<lambda>_. andthen (update (\<lambda>s. s\<lparr>memtable := MemTable_init\<rparr>)) (\<lambda>_. MaybeTriggerCompaction)) ?s3 = (r, s')"
      by simp
    then show ?thesis
    proof (cases rule: andthen_cases)
      case (ret u s4)
      have "fields s4 = fields ?s3" by (rule fields_kept(4) [OF ret(1)])
      with 1 2 ret(2) show ?thesis by (auto simp: fields_def MaybeTriggerCompaction_def)
    next
      case (throw e)
      have "fields s' = fields ?s3" by (rule fields_kept(4) [OF throw(1)])
      with 1 2 show ?thesis by (simp add: fields_def)
    next
      case killed
      have "fields s' = fields ?s3" by (rule fields_kept(4) [OF killed(1)])
      with 1 2 show ?thesis by (simp add: fields_def)
    qed
  next
    case (throw e)
    then show ?thesis using 1 fields_kept(2) [OF throw(1)] by (simp add: fields_def)
  next
    case killed
    then show ?thesis using 1 fields_kept(2) [OF killed(1)] by (simp add: fields_def)
  qed
next
  case (throw e)
  then show ?thesis using fields_kept(1) [OF throw(1)] by (simp add: fields_def)
next
  case killed
  then show ?thesis using fields_kept(1) [OF killed(1)] by (simp add: fields_def)
qed

lemma op_fields:
  assumes "Database_op x s = (r, s')"
  shows "memtable s' \<in> {memtable s, memtable_op x (memtable s), MemTable_init} \<and>
    next_sstable_number s' \<in> {next_sstable_number s, next_sstable_number s + 1}"
proof -
  obtain t k v where rec: "op_record x = (t, k, v)" by (cases "op_record x")
  show ?thesis
    using assms [unfolded Database_op_code [OF rec]]
  proof (cases rule: andthen_cases)
    case (ret a s1)
    let ?s2 = "s1\<lparr>memtable := memtable_op x (memtable s1)\<rparr>"
    have 1: "fields s1 = fields s" by (rule fields_kept(3) [OF ret(1)])
    from ret(2) have "MaybeFlush ?s2 = (r, s')" by simp
    then have "Flush ?s2 = (r, s') \<or> s' = ?s2"
      by (auto simp: MaybeFlush_def split: if_splits)
    then show ?thesis using 1 Flush_fields [of ?s2 r s'] by (auto simp: fields_def)
  next
    case (throw e)
    then show ?thesis using fields_kept(3) [OF throw(1)] by (simp add: fields_def)
  next
    case killed
    then show ?thesis using fields_kept(3) [OF killed(1)] by (simp add: fields_def)
  qed
qed

section \<open>The files an update leaves alone\<close>

text \<open>An update writes to the log, to the next table and to that table's temporary file.\<close>

definition op_files :: "'x database_scheme \<Rightarrow> string set" where
  "op_files s = {wal_path, SSTableFilename (next_sstable_number s), SSTableFilename (next_sstable_number s) @ ''.tmp''}"

lemma Flush_other_files:
  assumes call: "Flush s = (r, s')" and p: "p \<notin> op_files s"
  shows "dir s' p = dir s p"
proof -
  let ?n = "SSTableFilename (next_sstable_number s)" and ?f = "\<lambda>s :: 'a database_scheme. dir s p"
  have at: "blind_at N ?f" if "N \<subseteq> op_files s" for N
    using p that by (intro blind_at_file) blast
  have body: "preserves ?f (andthen (WriteSSTable ?n es) (\<lambda>_.
      andthen (SSTableReader_open ?n) (\<lambda>reader.
      andthen (update (\<lambda>s. s\<lparr>sstables := sstables s @ [reader]\<rparr>)) (\<lambda>_.
      andthen (update (\<lambda>s. s\<lparr>next_sstable_number := next_sstable_number s + 1\<rparr>)) (\<lambda>_.
      andthen (wal_reset wal_path) (\<lambda>_.
      andthen (update (\<lambda>s. s\<lparr>memtable := MemTable_init\<rparr>)) (\<lambda>_. MaybeTriggerCompaction)))))))" for es
    unfolding MaybeTriggerCompaction_def
    by (intro preserves_andthen preserves_update preserves_WriteSSTable_at preserves_log_at
        preserves_SSTableReader_open_at [of "{}"] at) (simp_all add: op_files_def)
  show ?thesis using call unfolding Flush_def Let_def by (rule preservesD [OF body])
qed

lemma op_other_files:
  assumes call: "Database_op x s = (r, s')" and p: "p \<notin> op_files s"
  shows "dir s' p = dir s p"
proof -
  obtain t k v where rec: "op_record x = (t, k, v)" by (cases "op_record x")
  have "blind_at {wal_path} (\<lambda>s :: 'a database_scheme. dir s p)"
    using p by (intro blind_at_file) (simp add: op_files_def)
  note log = preserves_log_at(1) [OF this, THEN preservesD]
  from call [unfolded Database_op_code [OF rec]] show ?thesis
  proof (cases rule: andthen_cases)
    case (ret a s1)
    let ?s2 = "s1\<lparr>memtable := memtable_op x (memtable s1)\<rparr>"
    have 1: "dir s1 p = dir s p" by (rule log [OF ret(1)])
    have "next_sstable_number s1 = next_sstable_number s"
      using fields_kept(3) [OF ret(1)] by (simp add: fields_def)
    then have p2: "p \<notin> op_files ?s2" using p by (simp add: op_files_def)
    from ret(2) have "MaybeFlush ?s2 = (r, s')" by simp
    then have "Flush ?s2 = (r, s') \<or> s' = ?s2"
      by (auto simp: MaybeFlush_def split: if_splits)
    with 1 Flush_other_files [OF _ p2] show ?thesis by auto
  qed (use log in blast)+
qed

section \<open>An update that flushes asks for a compaction\<close>

definition flush_fields :: "'x database_scheme \<Rightarrow> SSTableReader list \<times> u64 \<times> nat \<times> u64 \<times> bool" where
  "flush_fields s = (sstables s, next_sstable_number s, compaction_trigger_count s, flush_threshold_bytes s,
     compaction_requested s)"

lemma blind_flush_fields: "blind flush_fields"
  by (simp add: blind_def flush_fields_def)

lemmas flush_fields_kept = preserves_files [THEN preservesD, OF blind_flush_fields]

lemma Flush_asks:
  assumes "Flush s = (Ret (), s')"
  shows "memtable s' = MemTable_init \<and> next_sstable_number s' = next_sstable_number s + 1 \<and>
    (\<exists>rd. sstables s' = sstables s @ [rd]) \<and>
    compaction_trigger_count s' = compaction_trigger_count s \<and>
    flush_threshold_bytes s' = flush_threshold_bytes s \<and>
    compaction_requested s' = (compaction_requested s \<or> compaction_trigger_count s \<le> Suc (length (sstables s)))"
proof -
  from assms obtain s1 rd s2 s4 where calls:
      "WriteSSTable (SSTableFilename (next_sstable_number s)) (table (memtable s)) s = (Ret (), s1)"
      "SSTableReader_open (SSTableFilename (next_sstable_number s)) s1 = (Ret rd, s2)"
      "wal_reset wal_path (s2\<lparr>sstables := sstables s2 @ [rd], next_sstable_number := next_sstable_number s2 + 1\<rparr>) =
         (Ret (), s4)"
    and s': "MaybeTriggerCompaction (s4\<lparr>memtable := MemTable_init\<rparr>) = (Ret (), s')"
    unfolding Flush_def Let_def by (auto elim!: andthen_cases)
  from flush_fields_kept(1) [OF calls(1)] flush_fields_kept(2) [OF calls(2)] flush_fields_kept(4) [OF calls(3)] s'
  show ?thesis by (auto simp: flush_fields_def MaybeTriggerCompaction_def)
qed

text \<open>What an update that returned made of the fields a flush changes.\<close>

lemma returned_op_asks:
  assumes "Database_op x s = (Ret (), s')"
  shows "if flush_threshold_bytes s \<le> approximate_size_bytes (memtable_op x (memtable s))
    then memtable s' = MemTable_init \<and> next_sstable_number s' = next_sstable_number s + 1 \<and>
      (\<exists>rd. sstables s' = sstables s @ [rd]) \<and>
      compaction_trigger_count s' = compaction_trigger_count s \<and>
      flush_threshold_bytes s' = flush_threshold_bytes s \<and>
      compaction_requested s' = (compaction_requested s \<or> compaction_trigger_count s \<le> Suc (length (sstables s)))
    else memtable s' = memtable_op x (memtable s) \<and> flush_fields s' = flush_fields s"
proof -
  obtain t k v where rec: "op_record x = (t, k, v)" by (cases "op_record x")
  from assms [unfolded Database_op_code [OF rec]] obtain a s1 where
    s1: "wal_append wal_path t k v s = (Ret a, s1)"
    and rest: "MaybeFlush (s1\<lparr>memtable := memtable_op x (memtable s1)\<rparr>) = (Ret (), s')"
    by (auto elim!: andthen_cases)
  let ?s2 = "s1\<lparr>memtable := memtable_op x (memtable s1)\<rparr>"
  have 1: "flush_fields s1 = flush_fields s" by (rule flush_fields_kept(3) [OF s1])
  have 2: "memtable s1 = memtable s" using fields_kept(3) [OF s1] by (simp add: fields_def)
  show ?thesis
  proof (cases "flush_threshold_bytes s \<le> approximate_size_bytes (memtable_op x (memtable s))")
    case True
    then have "Flush ?s2 = (Ret (), s')" using rest 1 2 by (simp add: MaybeFlush_def flush_fields_def)
    from Flush_asks [OF this] True 1 show ?thesis by (simp add: flush_fields_def)
  next
    case False
    then have "s' = ?s2" using rest 1 2 by (simp add: MaybeFlush_def flush_fields_def ret_def)
    with False 1 2 show ?thesis by (simp add: flush_fields_def)
  qed
qed

lemma flushing_op:
  assumes "Database_op x s = (Ret (), s')"
    and "flush_threshold_bytes s \<le> approximate_size_bytes (memtable_op x (memtable s))"
  shows "memtable s' = MemTable_init \<and> next_sstable_number s' = next_sstable_number s + 1 \<and>
    length (sstables s') = Suc (length (sstables s)) \<and>
    compaction_trigger_count s' = compaction_trigger_count s \<and>
    flush_threshold_bytes s' = flush_threshold_bytes s \<and>
    (compaction_trigger_count s \<le> Suc (length (sstables s)) \<longrightarrow> compaction_requested s')"
  using returned_op_asks [OF assms(1)] assms(2) by auto

text \<open>
  Whether \<open>MaybeTriggerCompaction\<close> was reached and its guard let it through: the update has
  returned with a new table, and the tables are as many as the trigger count.
\<close>

definition asks :: "unit result \<Rightarrow> 'x database_scheme \<Rightarrow> 'x database_scheme \<Rightarrow> bool" where
  "asks r s s' \<longleftrightarrow> r = Ret () \<and> length (sstables s) < length (sstables s') \<and>
     compaction_trigger_count s' \<le> length (sstables s')"

lemma failed_flush_asks_nothing:
  assumes "Flush s = (r, s')" and "r \<noteq> Ret ()"
  shows "compaction_requested s' = compaction_requested s"
  using assms(1) unfolding Flush_def Let_def
proof (cases rule: andthen_cases)
  case (ret u s1)
  have 1: "flush_fields s1 = flush_fields s" by (rule flush_fields_kept(1) [OF ret(1)])
  from ret(2) show ?thesis
  proof (cases rule: andthen_cases)
    case (ret rd s2)
    have 2: "flush_fields s2 = flush_fields s1" by (rule flush_fields_kept(2) [OF ret(1)])
    let ?s3 = "s2\<lparr>sstables := sstables s2 @ [rd], next_sstable_number := next_sstable_number s2 + 1\<rparr>"
    from ret(2) have "andthen (wal_reset wal_path)
        (\<lambda>_. andthen (update (\<lambda>s. s\<lparr>memtable := MemTable_init\<rparr>)) (\<lambda>_. MaybeTriggerCompaction)) ?s3 = (r, s')"
      by simp
    then have "\<exists>r'. wal_reset wal_path ?s3 = (r', s')"
      using assms(2) by (cases rule: andthen_cases) (auto simp: MaybeTriggerCompaction_def)
    then have "flush_fields s' = flush_fields ?s3" using flush_fields_kept(4) by blast
    with 1 2 show ?thesis by (simp add: flush_fields_def)
  next
    case (throw e)
    then show ?thesis using 1 flush_fields_kept(2) [OF throw(1)] by (simp add: flush_fields_def)
  next
    case killed
    then show ?thesis using 1 flush_fields_kept(2) [OF killed(1)] by (simp add: flush_fields_def)
  qed
next
  case (throw e)
  then show ?thesis using flush_fields_kept(1) [OF throw(1)] by (simp add: flush_fields_def)
next
  case killed
  then show ?thesis using flush_fields_kept(1) [OF killed(1)] by (simp add: flush_fields_def)
qed

lemma op_requests:
  assumes "Database_op x s = (r, s')"
  shows "compaction_requested s' = (compaction_requested s \<or> asks r s s')"
proof (cases "r = Ret ()")
  case True
  with returned_op_asks [of x s s'] assms show ?thesis
    by (auto simp: asks_def flush_fields_def split: if_splits)
next
  case False
  obtain t k v where rec: "op_record x = (t, k, v)" by (cases "op_record x")
  from assms [unfolded Database_op_code [OF rec]] have "compaction_requested s' = compaction_requested s"
  proof (cases rule: andthen_cases)
    case (ret a s1)
    let ?s2 = "s1\<lparr>memtable := memtable_op x (memtable s1)\<rparr>"
    have 1: "flush_fields s1 = flush_fields s" by (rule flush_fields_kept(3) [OF ret(1)])
    from ret(2) have "MaybeFlush ?s2 = (r, s')" by simp
    then have "Flush ?s2 = (r, s')" using False by (auto simp: MaybeFlush_def ret_def split: if_splits)
    from failed_flush_asks_nothing [OF this False] 1 show ?thesis by (simp add: flush_fields_def)
  next
    case (throw e)
    then show ?thesis using flush_fields_kept(3) [OF throw(1)] by (simp add: flush_fields_def)
  next
    case killed
    then show ?thesis using flush_fields_kept(3) [OF killed(1)] by (simp add: flush_fields_def)
  qed
  with False show ?thesis by (simp add: asks_def)
qed

end
