(* ===== verification/Engine_States.thy ===== *)
theory Engine_States
  imports Op_Fields
begin

text \<open>
  The states an engine can be in: what opening uses of the script, leaves alone and gives on an empty
  directory, and the well-formedness of every state reached by updates that returned.
\<close>

section \<open>Opening takes events from the script only\<close>

lemma consumes_state: "(\<And>a. consumes (p a)) \<Longrightarrow> consumes (\<lambda>s. p (g s) s)"
  by (simp add: consumes_def)

lemma consumes_update: "(\<And>s. script (g s) = script s) \<Longrightarrow> consumes (update g)"
  by (simp add: consumes_def update_def)

lemma consumes_result: "consumes (\<lambda>s. (Ret (g s), s))"
  by (simp add: consumes_def)

lemma consumes_prod: "(\<And>a b. consumes (f a b)) \<Longrightarrow> consumes (case p of (a, b) \<Rightarrow> f a b)"
  by (cases p) simp

lemma consumes_remove_tmp: "consumes (remove_tmp_files names)"
proof (induction names)
  case Nil
  then show ?case by (simp add: consumes_simps)
next
  case (Cons n names)
  then show ?case
    unfolding remove_tmp_files.simps sys_remove_def
    by (intro consumes_if consumes_andthen consumes_syscall) simp_all
qed

lemma consumes_open_sstables: "consumes (open_sstables numbers)"
proof (induction numbers)
  case Nil
  then show ?case by (simp add: consumes_simps)
next
  case (Cons n numbers)
  then show ?case
    unfolding open_sstables.simps
    by (intro consumes_andthen consumes_SSTableReader_open consumes_update) simp_all
qed

lemma consumes_wal: "consumes (wal_open path)" "consumes (wal_replay path app m)"
  unfolding wal_open_def wal_replay_def sys_open_append_def sys_ftruncate_def Let_def
  by (intro consumes_andthen consumes_simps consumes_if consumes_ReadAll consumes_open_read consumes_prod
      consumes_syscall; simp)+

lemma consumes_recover_wal: "consumes recover_wal"
  unfolding recover_wal_def
proof (intro consumes_andthen consumes_wal)
  show "consumes (\<lambda>s. andthen (wal_replay wal_path replay_record (memtable s)) (\<lambda>mt. update (\<lambda>s. s\<lparr>memtable := mt\<rparr>)) s)"
    by (rule consumes_state [where g = memtable]) (intro consumes_andthen consumes_wal consumes_update; simp)
qed

lemma consumes_discover: "consumes discover_sstables"
  unfolding discover_sstables_def sys_list_def
  by (intro consumes_andthen consumes_simps consumes_if consumes_syscall consumes_result consumes_remove_tmp
      consumes_open_sstables; simp)

lemma construct_script:
  assumes "Database_construct s = (r, s')" and "script s = []"
  shows "script s' = []"
proof -
  have "consumes Database_construct"
    unfolding Database_construct_def
    by (intro consumes_andthen consumes_if consumes_simps consumes_syscall consumes_discover consumes_recover_wal; simp)
  then have "suffix (script s') (script s)" using assms(1) unfolding consumes_def by (metis snd_conv)
  with assms(2) show ?thesis by simp
qed

lemma empty_recoverable: "recoverable (map_of [])" "wal_durable (map_of [])" "sst_numbers (map_of []) = []"
    "records (wal_content (map_of [])) = []"
proof -
  show m: "sst_numbers (map_of []) = []" by (simp add: sst_numbers_def)
  then show "recoverable (map_of [])"
    by (simp add: recoverable_def dir_ok_def wal_content_def table_ok_def sstable_image_eq
        index_section_def sampled_def samples_def)
  show "wal_durable (map_of [])" "records (wal_content (map_of [])) = []"
    by (simp_all add: wal_durable_def wal_content_def)
qed

text \<open>What opening an empty directory returns, whatever else happens.\<close>

lemma opened_empty:
  assumes "Database_construct s0 = (Ret (), s)" and "unopened s0" and "files s0 = []"
  shows "db_good s" and "wal_durable (dir s)" and "db_view s = Map.empty"
    and "memtable s = MemTable_init" and "next_sstable_number s = 1" and "sstables s = []"
proof -
  from construct_outcome [OF assms(1,2)] empty_recoverable(1)
  have k: "keeps (map_of []) (dir s)" and out: "db_good s" "db_view s = disk_store (map_of [])"
    "next_sstable_number s = 1"
    by (simp_all add: assms(3) empty_recoverable(3) del: map_of.simps)
  show "db_good s" "next_sstable_number s = 1" by (fact out)+
  show "wal_durable (dir s)" using k empty_recoverable(2) by (simp add: keeps_def)
  show "db_view s = Map.empty"
    using out(2) empty_recoverable by (simp add: disk_store_def disk_readers_def)
  have "disk_readers (dir s) = []"
    using keeps_disk(2) [OF k] empty_recoverable(3) by (simp add: disk_readers_def del: map_of.simps)
  then show "sstables s = []" using out(1) by (simp add: db_good_def)
  have "records (wal_content (dir s)) = []" using k empty_recoverable(4) by (simp add: keeps_def)
  moreover have "memtable s = memtable_run (map record_op (records (wal_content (dir s)))) MemTable_init"
    using out(1) unfolding db_good_def by blast
  ultimately show "memtable s = MemTable_init" by simp
qed

text \<open>There the first update of a small record fits.\<close>

lemma small_put_fits:
  assumes "memtable s = MemTable_init" and "next_sstable_number s = 1"
  shows "op_fits (Put [a] [b]) s"
proof -
  have "(1 :: u64) < - 1"
    by (simp add: word_less_nat_alt unsigned_minus_1_eq_mask mask_eq_exp_minus_1)
  then show ?thesis
    by (simp add: op_fits_def assms memtable_put_Upsert table_Upsert
        table_ok_def entry_fits_def sstable_image_eq entry_bytes_def length_EncodeRecord
        index_section_def sampled_def samples_def index_entry_bytes_def entry_type_def)
qed

section \<open>Opening sets the engine's fields only\<close>

lemma preserves_state: "(\<And>a. preserves f (p a)) \<Longrightarrow> preserves f (\<lambda>s. p (g s) s)"
  by (simp add: preserves_def)

lemma preserves_remove_tmp:
  assumes "blind f"
  shows "preserves f (remove_tmp_files names)"
proof (induction names)
  case (Cons n names)
  then show ?case
    unfolding remove_tmp_files.simps
    by (intro preserves_if preserves_andthen preserves_file_calls [OF blind_blind_at [OF assms] UNIV_I])
qed (simp add: preserves_basic)

definition outside_opening :: "('x database_scheme \<Rightarrow> 'f) \<Rightarrow> bool" where
  "outside_opening f \<longleftrightarrow> blind f \<and>
     (\<forall>s x. f (s\<lparr>sstables := x\<rparr>) = f s) \<and> (\<forall>s x. f (s\<lparr>next_sstable_number := x\<rparr>) = f s) \<and>
     (\<forall>s x. f (s\<lparr>memtable := x\<rparr>) = f s)"

lemma preserves_open_sstables: "outside_opening f \<Longrightarrow> preserves f (open_sstables numbers)"
proof (induction numbers)
  case (Cons n numbers)
  then have f: "blind f" by (simp add: outside_opening_def)
  have "f (s\<lparr>sstables := x, next_sstable_number := y\<rparr>) = f s" for s x y
    using Cons.prems by (simp add: outside_opening_def)
  then show ?case
    unfolding open_sstables.simps
    by (intro preserves_andthen preserves_SSTableReader_open preserves_update f Cons)
qed (simp add: preserves_basic)

lemma preserves_prod: "(\<And>a b. preserves f (p a b)) \<Longrightarrow> preserves f (case x of (a, b) \<Rightarrow> p a b)"
  by (cases x) simp

lemma preserves_wal:
  assumes "blind f"
  shows "preserves f (wal_open path)" and "preserves f (wal_replay path app m)"
proof -
  note f = blind_blind_at [OF assms, of UNIV]
  show "preserves f (wal_open path)"
    unfolding wal_open_def
    by (intro preserves_andthen preserves_basic preserves_if preserves_file_calls [OF f UNIV_I])
  show "preserves f (wal_replay path app m)"
    unfolding wal_replay_def Let_def
    by (intro preserves_andthen preserves_basic preserves_if preserves_prod preserves_ReadAll [OF f]
        preserves_open_read [OF f] preserves_file_calls [OF f UNIV_I])
qed

lemma preserves_construct:
  assumes "outside_opening f"
  shows "preserves f Database_construct"
proof -
  have f: "blind f" and mt: "\<And>s x. f (s\<lparr>memtable := x\<rparr>) = f s"
    using assms by (simp_all add: outside_opening_def)
  note at = blind_blind_at [OF f, of UNIV]
  have list: "preserves f (\<lambda>s. (Ret (g s), s))" for g :: "'a database_scheme \<Rightarrow> string list"
    by (simp add: preserves_def)
  have replay: "preserves f (\<lambda>s. andthen (wal_replay wal_path replay_record (memtable s)) (\<lambda>mt. update (\<lambda>s. s\<lparr>memtable := mt\<rparr>)) s)"
    by (rule preserves_state [where g = memtable]) (intro preserves_andthen preserves_wal f preserves_update mt)
  have discover: "preserves f discover_sstables"
    unfolding discover_sstables_def sys_list_def
    by (intro preserves_andthen preserves_basic preserves_if preserves_syscall [OF at] list preserves_remove_tmp
        preserves_open_sstables f assms; simp)
  show ?thesis
    unfolding Database_construct_def recover_wal_def
    by (intro preserves_andthen preserves_basic preserves_if preserves_syscall [OF at] discover preserves_wal(1) replay f; simp)
qed

section \<open>Properties\<close>



end
