(* ===== verification/Generations.thy ===== *)
theory Generations
  imports Engine_States
begin

text \<open>
  One process after the other on the same directory. A process that dies in the middle of an
  append can leave a complete record that is not yet durable: the next process reads it, and a
  later crash can still take it back. \<open>pending S m\<close> is the invariant that holds between the
  processes nevertheless: whatever a crash leaves of the log, the store is one of \<open>S\<close>.
\<close>

section \<open>What a crash can still take back\<close>

definition log_store :: "directory \<Rightarrow> bytes \<Rightarrow> store" where
  "log_store m c = store_ops (map record_op (records c)) (live_store (run_layers (disk_readers m)))"

definition log_ok :: "bytes \<Rightarrow> bool" where
  "log_ok c \<longleftrightarrow> table_ok (table (memtable_run (map record_op (records c)) MemTable_init))"

definition pending :: "store set \<Rightarrow> directory \<Rightarrow> bool" where
  "pending S m \<longleftrightarrow> dir_ok m \<and> (\<forall>n \<in> set (sst_numbers m). n < - 1) \<and>
     (\<forall>c. wal_cut m c \<longrightarrow> log_ok c \<and> log_store m c \<in> S)"

lemma pending_mono: "pending S m \<Longrightarrow> S \<subseteq> T \<Longrightarrow> pending T m"
  by (auto simp: pending_def)

lemma whole_cut: "wal_cut m (wal_content m)"
  by (simp add: wal_cut_def wal_content_def split: option.split)

lemma pending_here:
  assumes "pending S m"
  shows "recoverable m" and "disk_store m \<in> S"
  using assms whole_cut [of m] by (auto simp: pending_def recoverable_def log_ok_def log_store_def disk_store_def)

lemma pending_durable:
  assumes "recoverable m" and "wal_durable m"
  shows "pending {disk_store m} m"
proof -
  have "c = wal_content m" if "wal_cut m c" for c
    using that assms(2) by (auto simp: wal_cut_def wal_content_def wal_durable_def prefix_def split: option.splits)
  then show ?thesis using assms(1) by (auto simp: pending_def recoverable_def log_ok_def log_store_def disk_store_def)
qed

lemma pending_restart:
  assumes "pending S (map_of fs)" and "restart b fs fs'"
  shows "pending S (map_of fs')"
proof -
  have ok: "dir_ok (map_of fs)" using assms(1) by (simp add: pending_def)
  note tables = same_tables [of "map_of fs'" "map_of fs", OF restart_table [OF assms(2) ok]]
  have cut: "wal_cut (map_of fs) c" if c: "wal_cut (map_of fs') c" for c
  proof (cases "fs' = fs")
    case False
    then have crash: "crash_files fs fs'" using assms(2) by (simp add: restart_def)
    show ?thesis
    proof (cases "map_of fs' wal_path")
      case None
      then have "map_of fs wal_path = None" using crash_files_Some [OF crash, of wal_path] by (cases "map_of fs wal_path") auto
      with None c show ?thesis by (simp add: wal_cut_def)
    next
      case (Some f')
      from crash_files_Some' [OF crash this] obtain f where f: "map_of fs wal_path = Some f" "crash_file f f'" by blast
      have "synced f \<le> length c" using c Some f(2) by (auto simp: wal_cut_def crash_file_def)
      moreover have "prefix c (content f)"
        using c Some f(2) by (auto simp: wal_cut_def crash_file_def intro: prefix_order.trans)
      ultimately show ?thesis by (simp add: wal_cut_def f)
    qed
  qed (use c in simp)
  have "dir_ok (map_of fs')" by (rule restart_dir_ok [OF assms(2) ok])
  with assms(1) cut show ?thesis by (simp add: pending_def log_store_def tables)
qed

lemma pending_keeps:
  assumes "pending S m" and "keeps m m'"
  shows "pending S m'"
proof -
  have tables: "sst_numbers m' = sst_numbers m" "disk_readers m' = disk_readers m"
    by (rule keeps_disk [OF assms(2)])+
  have "log_ok c' \<and> log_store m' c' \<in> S" if cut: "wal_cut m' c'" for c'
  proof -
    from cut assms(2) obtain c where "wal_cut m c" "records c = records c'" unfolding keeps_def by blast
    with assms(1) show ?thesis by (auto simp: pending_def log_ok_def log_store_def tables)
  qed
  then show ?thesis using assms by (simp add: pending_def keeps_def tables)
qed

section \<open>Updates\<close>

lemma op_pending_sound:
  fixes s s' :: "'x database_scheme"
  assumes call: "Database_op x s = (r, s')" and sound: "db_sound s" and pend: "pending S (dir s)"
    and fits: "op_fits x s"
  shows "pending (insert (store_op x (db_view s)) S) (dir s') \<and>
    (r = Ret () \<longrightarrow> db_sound s' \<and> extends s s' \<and> wal_durable (dir s') \<and>
       db_view s' = store_op x (db_view s) \<and> pending {db_view s'} (dir s'))"
proof -
  obtain t k v where rec: "op_record x = (t, k, v)" by (cases "op_record x")
  from sound obtain f where f: "dir s wal_path = Some f" by (auto simp: db_sound_def)
  have rok: "record_ok (t, k, v)" using op_fits_record [OF fits] rec by simp
  have clean: "clean_log (content f)" and log: "memtable s = memtable_run (map record_op (records (content f))) MemTable_init"
    using sound f by (simp_all add: db_sound_def wal_content_def)
  have op: "record_op (t, k, v) = x" using rec op_record_op [of x] by simp
  have torn: "pending (insert (store_op x (db_view s)) S) (dir s')" if "wal_append wal_path t k v s = (r0, s')" for r0
  proof -
    from wal_append_outcome [OF that f] obtain p y es where p: "prefix p (EncodeRecord t k v)"
      and s': "s' = (set_file wal_path (f\<lparr>content := content f @ p, synced := y\<rparr>) s)\<lparr>script := es\<rparr>"
      and y: "y = synced f \<or> y = length (content f @ p)"
      by blast
    have m: "dir s' = (dir s)(wal_path \<mapsto> f\<lparr>content := content f @ p, synced := y\<rparr>)"
      by (simp add: s')
    note tables = same_tables [of "dir s'" "dir s"]
    have tables: "sst_numbers (dir s') = sst_numbers (dir s)" "disk_readers (dir s') = disk_readers (dir s)"
      by (rule same_tables; simp add: m)+
    have ok: "dir_ok (dir s')" unfolding m using sound by (intro dir_ok_upd_other) (simp_all add: db_sound_def)
    have "log_ok c \<and> log_store (dir s') c \<in> insert (store_op x (db_view s)) S" if c: "wal_cut (dir s') c" for c
    proof (cases "length (content f) \<le> length c")
      case False
      have pre: "prefix c (content f @ p)" "c = content f @ p \<or> y \<le> length c" using c by (auto simp: wal_cut_def m)
      with False have "prefix c (content f)" by (auto simp: prefix_append)
      moreover have "synced f \<le> length c" using pre(2) False y by auto
      ultimately have "wal_cut (dir s) c" by (simp add: wal_cut_def f)
      with pend show ?thesis by (auto simp: pending_def log_store_def tables)
    next
      case True
      have "prefix c (content f @ p)" using c by (auto simp: wal_cut_def m)
      then have "prefix c (content f) \<or> (\<exists>q. c = content f @ q \<and> prefix q p)" by (simp add: prefix_append)
      then have "\<exists>q. c = content f @ q \<and> prefix q p"
      proof
        assume "prefix c (content f)"
        then obtain zs where z: "content f = c @ zs" by (rule prefixE)
        have "zs = []" using True unfolding z by simp
        with z have "c = content f" by simp
        then show ?thesis by (intro exI [of _ "[]"]) simp
      qed
      then obtain q where q: "c = content f @ q" "prefix q p" by blast
      then have "prefix q (EncodeRecord t k v)" using p by auto
      from clean_log_append_prefix [OF clean rok this]
      have recs: "records c = records (content f) \<or> records c = records (content f) @ [(t, k, v)]" by (auto simp: q)
      have base: "log_ok (content f) \<and> log_store (dir s) (content f) \<in> S" "log_store (dir s) (content f) = db_view s"
        using pend whole_cut [of "dir s"] f db_sound_view [OF sound]
        by (auto simp: pending_def wal_content_def log_store_def disk_store_def)
      have "table_ok (table (memtable_op x (memtable s)))" using fits by (simp add: op_fits_def)
      then show ?thesis
        using recs base by (auto simp: log_ok_def log_store_def tables log op store_ops_append simp del: record_op.simps)
    qed
    then show ?thesis using ok pend by (simp add: pending_def tables)
  qed
  from call [unfolded Database_op_code [OF rec]] show ?thesis
  proof (cases rule: andthen_cases)
    case (ret a s1)
    from ret(2) have rest: "MaybeFlush (s1\<lparr>memtable := memtable_op x (memtable s1)\<rparr>) = (r, s')" by simp
    from after_append [OF sound fits f rec ret(1) rest]
    have out: "stable (files s') (store_op x (db_view s))" "wal_durable (dir s')"
      "r = Ret () \<longrightarrow> db_sound s' \<and> db_view s' = store_op x (db_view s) \<and> extends s s'" by simp_all
    have "recoverable (dir s')" "disk_store (dir s') = store_op x (db_view s)"
      using out(1) unfolding stable_def restart_def by blast+
    from pending_durable [OF this(1) out(2)] this(2) have "pending {store_op x (db_view s)} (dir s')" by simp
    with pending_mono [OF this, of "insert (store_op x (db_view s)) S"] out(2,3)
    show ?thesis by auto
  next
    case (throw e)
    then show ?thesis using torn by blast
  next
    case killed
    then show ?thesis using torn by blast
  qed
qed

lemma op_pending:
  assumes "Database_op x s = (r, s')" and "db_good s" and "pending S (dir s)" and "op_fits x s"
  shows "pending (insert (store_op x (db_view s)) S) (dir s') \<and>
    (r = Ret () \<longrightarrow> db_good s' \<and> db_view s' = store_op x (db_view s) \<and> pending {db_view s'} (dir s'))"
  using op_pending_sound [OF assms(1) db_good_sound [OF assms(2)] assms(3,4)] extends_good [OF assms(2)] by blast

section \<open>The life of a process\<close>

lemma run_pending:
  assumes "db_good s" and "pending S (dir s)" and "ops_fit xs s" and "run_ops xs s = (n, s')"
    and "db_view s \<in> S"
  shows "pending (\<Union>v \<in> S. {store_ops (take n xs) v, store_ops (take (Suc n) xs) v}) (dir s')"
  using assms
proof (induction xs arbitrary: s S n)
  case Nil
  then show ?case by (simp add: pending_mono)
next
  case (Cons x xs)
  obtain r s1 where op: "Database_op x s = (r, s1)" by force
  have fits: "op_fits x s" using Cons.prems(3) by simp
  note out = op_pending [OF op Cons.prems(1,2) fits]
  show ?case
  proof (cases "r = Ret ()")
    case False
    with Cons.prems(4) op have n: "n = 0" "s' = s1" by (auto split: result.splits)
    from out have "pending (insert (store_op x (db_view s)) S) (dir s1)" by simp
    then show ?thesis unfolding n using Cons.prems(5) by (elim pending_mono) auto
  next
    case True
    obtain m s2 where rest: "run_ops xs s1 = (m, s2)" by force
    with Cons.prems(4) op True have n: "n = Suc m" "s' = s2" by auto
    have "ops_fit xs s1" using Cons.prems(3) op True by simp
    moreover have "db_good s1" "pending {store_op x (db_view s)} (dir s1)" "db_view s1 = store_op x (db_view s)"
      using out True by auto
    ultimately have "pending (\<Union>v \<in> {store_op x (db_view s)}. {store_ops (take m xs) v, store_ops (take (Suc m) xs) v}) (dir s2)"
      using Cons.IH [of s1 "{store_op x (db_view s)}" m] rest n(2) by simp
    then show ?thesis unfolding n using Cons.prems(5) by (elim pending_mono) auto
  qed
qed

text \<open>
  A process opens the directory, issues updates until one does not return, and ends; then the
  next one finds what \<^const>\<open>restart\<close> leaves. The number says how many updates returned.
\<close>

inductive life :: "(string \<times> disk_file) list \<Rightarrow> kv_op list \<Rightarrow> nat \<Rightarrow> (string \<times> disk_file) list \<Rightarrow> bool" where
  dies_opening: "Database_construct (Database_init th tr fs es) = (r, s) \<Longrightarrow> r \<noteq> Ret () \<Longrightarrow>
     restart machine (files s) fs' \<Longrightarrow> life fs xs 0 fs'"
| runs: "Database_construct (Database_init th tr fs es) = (Ret (), s) \<Longrightarrow> ops_fit xs s \<Longrightarrow>
     run_ops xs s = (n, s') \<Longrightarrow> restart machine (files s') fs' \<Longrightarrow> life fs xs n fs'"

text \<open>One process after the other, for any relation that describes what a process does.\<close>

type_synonym process = "(string \<times> disk_file) list \<Rightarrow> kv_op list \<Rightarrow> nat \<Rightarrow> (string \<times> disk_file) list \<Rightarrow> bool"

inductive lives :: "process \<Rightarrow> (string \<times> disk_file) list \<Rightarrow> (kv_op list \<times> nat) list \<Rightarrow>
    (string \<times> disk_file) list \<Rightarrow> bool" for process where
  first: "lives process fs [] fs"
| another: "lives process fs hist fs' \<Longrightarrow> process fs' xs n fs'' \<Longrightarrow> lives process fs (hist @ [(xs, n)]) fs''"

text \<open>The histories that keep every update that returned, and of each process at most one more.\<close>

fun keeps_returned :: "(kv_op list \<times> nat) list \<Rightarrow> kv_op list \<Rightarrow> bool" where
  "keeps_returned [] h \<longleftrightarrow> h = []"
| "keeps_returned ((xs, n) # hist) h \<longleftrightarrow>
     (\<exists>m \<in> {n, Suc n}. \<exists>h'. h = take m xs @ h' \<and> keeps_returned hist h')"

lemma keeps_returned_snoc:
  "keeps_returned hist h \<Longrightarrow> m \<in> {n, Suc n} \<Longrightarrow> keeps_returned (hist @ [(xs, n)]) (h @ take m xs)"
proof (induction hist arbitrary: h)
  case Nil
  then show ?case by auto
next
  case (Cons p hist)
  obtain ys k where p: "p = (ys, k)" by force
  from Cons.prems(1) obtain j h' where j: "j \<in> {k, Suc k}" "h = take j ys @ h'" "keeps_returned hist h'"
    unfolding p keeps_returned.simps by blast
  have "h @ take m xs = take j ys @ (h' @ take m xs)" by (simp add: j(2))
  moreover have "keeps_returned (hist @ [(xs, n)]) (h' @ take m xs)" by (rule Cons.IH [OF j(3) Cons.prems(2)])
  ultimately show ?case unfolding p append_Cons keeps_returned.simps using j(1) by blast
qed

text \<open>
  What a process may do, and what follows for all of them together. The interpretations are
  processes with clients only, below, and with the compaction thread (\<open>Thread_Generations\<close>).
\<close>

locale process_model =
  fixes process :: process
  assumes process_pending: "process fs xs n fs' \<Longrightarrow> pending S (map_of fs) \<Longrightarrow>
    pending (\<Union>v \<in> S. {store_ops (take n xs) v, store_ops (take (Suc n) xs) v}) (map_of fs')"
begin

lemma lives_pending:
  "lives process fs hist fs' \<Longrightarrow> pending {v} (map_of fs) \<Longrightarrow>
     pending {store_ops h v | h. keeps_returned hist h} (map_of fs')"
proof (induction rule: lives.induct)
  case (first fs)
  then show ?case by simp
next
  case (another fs hist fs' xs n fs'')
  from process_pending [OF another(2) another(3) [OF another(4)]] show ?case
  proof (rule pending_mono, safe)
    fix h assume h: "keeps_returned hist h"
    note snoc = keeps_returned_snoc [OF h, of _ n xs]
    show "\<exists>h'. store_ops (take n xs) (store_ops h v) = store_ops h' v \<and> keeps_returned (hist @ [(xs, n)]) h'"
      using snoc [of n] by (auto simp: store_ops_append [symmetric])
    show "\<exists>h'. store_ops (take (Suc n) xs) (store_ops h v) = store_ops h' v \<and> keeps_returned (hist @ [(xs, n)]) h'"
      using snoc [of "Suc n"] by (auto simp: store_ops_append [symmetric])
  qed
qed

lemma keep_writes:
  assumes "recoverable (map_of fs)" and "wal_durable (map_of fs)" and "lives process fs hist fs'"
  shows "\<exists>t h. Database_construct (Database_init th tr fs' []) = (Ret (), t) \<and> keeps_returned hist h \<and>
    (\<forall>k. Database_get t k = Inr (store_ops h (disk_store (map_of fs)) k))"
proof -
  note pend = pending_here [OF lives_pending [OF assms(3) pending_durable [OF assms(1,2)]]]
  then obtain h where h: "keeps_returned hist h" "disk_store (map_of fs') = store_ops h (disk_store (map_of fs))"
    by blast
  obtain r t where call: "Database_construct (Database_init th tr fs' []) = (r, t)" by force
  from Database_construct_outcome [OF call pend(1)]
  have t: "r = Ret ()" "db_good t" "db_view t = store_ops h (disk_store (map_of fs))" using h(2) by simp_all
  then have "\<forall>k. Database_get t k = Inr (store_ops h (disk_store (map_of fs)) k)"
    using Database_get_view [OF db_good_reads [OF t(2)]] by simp
  with call t(1) h(1) show ?thesis by blast
qed

end

lemma life_pending:
  assumes "life fs xs n fs'" and "pending S (map_of fs)"
  shows "pending (\<Union>v \<in> S. {store_ops (take n xs) v, store_ops (take (Suc n) xs) v}) (map_of fs')"
  using assms(1)
proof cases
  case (dies_opening th tr es r s machine)
  have "pending S (dir s)"
    using Database_construct_outcome [OF dies_opening(2)] pending_here [OF assms(2)] pending_keeps [OF assms(2)] by blast
  from pending_restart [OF this dies_opening(4)] show ?thesis
    unfolding dies_opening(1) by (rule pending_mono) auto
next
  case (runs th tr es s s' machine)
  from Database_construct_outcome [OF runs(1)] pending_here [OF assms(2)]
  have s: "db_good s" "db_view s \<in> S" "keeps (map_of fs) (dir s)" by simp_all
  have "pending S (dir s)" by (rule pending_keeps [OF assms(2) s(3)])
  from run_pending [OF s(1) this runs(2,3) s(2)] show ?thesis by (rule pending_restart) (rule runs(4))
qed

interpretation clients: process_model life
  by unfold_locales (rule life_pending)

section \<open>Properties\<close>



end
