(* ===== verification/Compaction.thy ===== *)
theory Compaction
  imports Op_Fields
begin

text \<open>
  \<^verbatim>\<open>Database::CompactOnce\<close>. The background thread takes the data lock only for its snapshot,
  for drawing a file number and for the swap; in between, clients run. Each stretch between
  two such points is a function here, and \<open>CompactOnce\<close> runs them in a row. \<open>system_step\<close>
  interleaves them with whole client calls (which hold the exclusive lock from start to end);
  there the write of the merged table, which runs without a lock, is cut further, into the
  calls it makes (\<open>write_step\<close>). Merging reads immutable readers only, so it is part of the
  snapshot step.
\<close>

section \<open>The code\<close>

text \<open>The loop that erases tombstones from the merged map.\<close>

fun drop_tombstones :: "(bytes \<times> Entry) list \<Rightarrow> (bytes \<times> Entry) list" where
  "drop_tombstones [] = []"
| "drop_tombstones ((key, entry) # merged) =
     (if is_tombstone entry then drop_tombstones merged
      else (key, entry) # drop_tombstones merged)"

definition compact_merge :: "SSTableReader list \<Rightarrow> error + (bytes \<times> Entry) list" where
  "compact_merge to_compact =
     (case MergeSSTables to_compact of Inl e \<Rightarrow> Inl e | Inr merged \<Rightarrow> Inr (drop_tombstones merged))"

definition compact_allocate :: "('x database_scheme, u64) prog" where
  "compact_allocate s =
     (Ret (next_sstable_number s), s\<lparr>next_sstable_number := next_sstable_number s + 1\<rparr>)"

definition compact_write :: "u64 \<Rightarrow> (bytes \<times> Entry) list \<Rightarrow> ('x database_scheme, SSTableReader) prog" where
  "compact_write number merged =
     andthen (WriteSSTable (SSTableFilename number) merged) (\<lambda>_.
     SSTableReader_open (SSTableFilename number))"

text \<open>The swap returns the paths of the readers it drops.\<close>

definition compact_swap ::
  "nat \<Rightarrow> SSTableReader \<Rightarrow> ('x database_scheme, string list) prog" where
  "compact_swap n compacted s =
     (Ret (map reader_path (take n (sstables s))),
      s\<lparr>sstables := compacted # drop n (sstables s)\<rparr>)"

fun compact_delete :: "string list \<Rightarrow> ('x database_scheme, unit) prog" where
  "compact_delete [] = ret ()"
| "compact_delete (path # paths) = andthen (sys_remove path) (\<lambda>_. compact_delete paths)"

definition CompactOnce :: "('x database_scheme, unit) prog" where
  "CompactOnce s =
     (let to_compact = sstables s
      in if length to_compact < 2 then ret () s
         else andthen (lift (compact_merge to_compact)) (\<lambda>merged.
              andthen compact_allocate (\<lambda>number.
              andthen (compact_write number merged) (\<lambda>reader.
              andthen (compact_swap (length to_compact) reader)
                compact_delete))) s)"

section \<open>Dropping tombstones\<close>

lemma drop_tombstones_filter: "drop_tombstones m = filter (\<lambda>p. \<not> is_tombstone (snd p)) m"
  by (induction m rule: drop_tombstones.induct) auto

lemma sorted_drop_tombstones: "sorted_keys m \<Longrightarrow> sorted_keys (drop_tombstones m)"
  by (simp add: drop_tombstones_filter sorted_keys_filter)

lemma option_filter_eq:
  assumes "\<And>e. d = Some e \<longleftrightarrow> x = Some e \<and> \<not> P e"
  shows "d = (case x of None \<Rightarrow> None | Some e \<Rightarrow> if P e then None else Some e)"
proof (cases d)
  case None
  with assms show ?thesis by (auto split: option.split)
next
  case (Some a)
  with assms [of a] show ?thesis by simp
qed

lemma map_of_drop_tombstones:
  assumes "sorted_keys m"
  shows "map_of (drop_tombstones m) k =
    (case map_of m k of None \<Rightarrow> None | Some e \<Rightarrow> if is_tombstone e then None else Some e)"
proof -
  have "(k, e) \<in> set (drop_tombstones m) \<longleftrightarrow> (k, e) \<in> set m \<and> \<not> is_tombstone e" for e
    by (auto simp: drop_tombstones_filter)
  then have eq: "map_of (drop_tombstones m) k = Some e \<longleftrightarrow> map_of m k = Some e \<and> \<not> is_tombstone e" for e
    using sorted_keys_map_of [OF assms] sorted_keys_map_of [OF sorted_drop_tombstones [OF assms]] by blast
  show ?thesis by (rule option_filter_eq) (rule eq)
qed

text \<open>
  The heart of compaction: the merged table without tombstones, in place of the tables it
  was made from, or on top of any newest part of them, reads the same.
\<close>

lemma compacted_layers:
  assumes "sorted_keys m" and "map_of m = run_layers rs"
  shows "live_store (map_of (drop_tombstones m) ++ newer) = live_store (run_layers rs ++ newer)"
    and "live_store (run_layers (drop i rs) ++ map_of (drop_tombstones m)) = live_store (run_layers rs)"
proof -
  show "live_store (map_of (drop_tombstones m) ++ newer) = live_store (run_layers rs ++ newer)"
    by (auto simp: live_store_def fun_eq_iff map_add_def map_of_drop_tombstones assms live_def
        split: option.splits)
  have split: "run_layers rs = run_layers (take i rs) ++ run_layers (drop i rs)"
    by (metis append_take_drop_id layered_append map_append)
  show "live_store (run_layers (drop i rs) ++ map_of (drop_tombstones m)) = live_store (run_layers rs)"
    using split
    by (auto simp: live_store_def fun_eq_iff map_add_def map_of_drop_tombstones assms live_def
        split: option.splits)
qed

lemma compact_merge_ok:
  assumes "\<forall>r \<in> set rs. reader_ok r"
  obtains m where "compact_merge rs = Inr (drop_tombstones m)" and "sorted_keys m"
    and "map_of m = run_layers rs" and "sorted_keys (drop_tombstones m)"
    and "\<forall>p \<in> set (drop_tombstones m). entry_fits p"
proof -
  obtain m where m: "MergeSSTables rs = Inr m" "sorted_keys m" "map_of m = run_layers rs"
    "\<forall>p \<in> set m. entry_fits p"
    using MergeSSTables_layers [OF assms] by blast
  then show ?thesis
    using that [of m] by (simp add: compact_merge_def sorted_drop_tombstones) (simp add: drop_tombstones_filter)
qed


section \<open>Client calls, seen from memory\<close>

text \<open>
  While a compaction runs the files and the in-memory tables are not in step, so this is
  about the in-memory state alone.
\<close>

definition live_ok :: "'x database_scheme \<Rightarrow> bool" where
  "live_ok s \<longleftrightarrow> table_ok (table (memtable s)) \<and> (\<forall>r \<in> set (sstables s). reader_ok r \<and> reader_path r \<noteq> wal_path) \<and>
     dir s wal_path \<noteq> None"

lemma live_ok_reads: "live_ok s \<Longrightarrow> reads_ok s"
  by (simp add: live_ok_def reads_ok_def table_ok_def)

lemma db_good_live: "db_good s \<Longrightarrow> live_ok s"
  using disk_readers_ok [of "dir s"] unfolding db_good_def live_ok_def
  by (auto simp: disk_readers_def reader_index_simps)

definition grows :: "'x database_scheme \<Rightarrow> 'x database_scheme \<Rightarrow> bool" where
  "grows s s' \<longleftrightarrow> (\<exists>extra. sstables s' = sstables s @ extra)"

lemma same_memory:
  assumes "live_ok s" and "sstables s' = sstables s" and "memtable s' = memtable s"
    and "dir s' wal_path \<noteq> None"
  shows "live_ok s' \<and> grows s s' \<and> db_view s' = db_view s"
  using assms by (simp add: live_ok_def grows_def db_view_def db_entries_def)

lemma map_add_absorb: "m ++ n ++ n = m ++ n"
  by (simp add: map_add_def fun_eq_iff split: option.split)

lemma Flush_in_memory:
  assumes call: "Flush s = (r, s')" and ok: "live_ok s"
  shows "live_ok s' \<and> grows s s' \<and> db_view s' = db_view s"
proof -
  let ?path = "SSTableFilename (next_sstable_number s)" and ?T = "table (memtable s)"
  have T: "table_ok ?T" and wal: "dir s wal_path \<noteq> None" using ok by (simp_all add: live_ok_def)
  have failed: ?thesis if "touches (?path @ ''.tmp'') s s'"
    using that wal same_memory [OF ok, of s'] by (auto simp: touches_def)
  show ?thesis
    using call [unfolded Flush_def Let_def]
  proof (cases rule: andthen_cases)
    case (ret a s1)
    from ret(1) obtain fs es where s1: "s1 = s\<lparr>files := fs, script := es\<rparr>"
      and fs: "map_of fs = (dir s)(?path @ ''.tmp'' := None, ?path \<mapsto> sstable_file ?T)"
      by (cases rule: WriteSSTable_outcome) auto
    have wal1: "map_of fs wal_path \<noteq> None" using wal by (simp add: fs)
    from ret(2) show ?thesis
    proof (cases rule: andthen_cases)
      case (ret rd s2)
      from SSTableReader_open_outcome [OF ret(1)] obtain es2 where s2: "s2 = s1\<lparr>script := es2\<rparr>"
        and rd: "rd = reader_for ?path ?T"
        using T by (auto simp: s1 fs sstable_file_def sstable_parse_image)
      let ?s3 = "s\<lparr>files := fs, script := es2, sstables := sstables s @ [rd],
          next_sstable_number := next_sstable_number s + 1\<rparr>"
      have entries: "reader_entries rd = ?T" "reader_ok rd" "reader_path rd \<noteq> wal_path"
        using T by (simp_all add: rd table_ok_def reader_index_simps)
      have view: "db_view s' = db_view s" "live_ok s'" "grows s s'"
        if "sstables s' = sstables s @ [rd]" "memtable s' = memtable s \<or> memtable s' = MemTable_init"
          "dir s' wal_path \<noteq> None"
        using that ok entries
        by (auto simp: db_view_def db_entries_def live_ok_def grows_def map_add_absorb table_ok_def
            sstable_image_eq index_section_def sampled_def samples_def)
      from ret(2) have "andthen (wal_reset wal_path)
          (\<lambda>_. andthen (update (\<lambda>s. s\<lparr>memtable := MemTable_init\<rparr>)) (\<lambda>_. MaybeTriggerCompaction)) ?s3 = (r, s')"
        by (simp add: s2 s1)
      then show ?thesis
      proof (cases rule: andthen_cases)
        case (ret u s4)
        from wal1 obtain f where "map_of (files ?s3) wal_path = Some f" by auto
        from wal_reset_outcome [OF ret(1) this] ret(2) wal1 show ?thesis
          by (intro conjI view) (auto simp: MaybeTriggerCompaction_def set_file_def update_conv')
      next
        case (throw e)
        from wal1 obtain f where "map_of (files ?s3) wal_path = Some f" by auto
        from wal_reset_outcome [OF throw(1) this] throw(2) wal1 show ?thesis
          by (intro conjI view) auto
      next
        case killed
        from wal1 obtain f where "map_of (files ?s3) wal_path = Some f" by auto
        from wal_reset_outcome [OF killed(1) this] killed(2) wal1 show ?thesis
          by (intro conjI view) auto
      qed
    next
      case (throw e)
      with SSTableReader_open_outcome [OF throw(1)] wal1 show ?thesis
        by (intro same_memory [OF ok]) (auto simp: s1)
    next
      case killed
      with SSTableReader_open_outcome [OF killed(1)] wal1 show ?thesis
        by (intro same_memory [OF ok]) (auto simp: s1)
    qed
  next
    case (throw e)
    from throw(1) failed throw(2) show ?thesis by (cases rule: WriteSSTable_outcome) auto
  next
    case killed
    from killed(1) failed killed(2) show ?thesis by (cases rule: WriteSSTable_outcome) auto
  qed
qed

lemma op_in_memory:
  assumes call: "Database_op x s = (r, s')" and ok: "live_ok s"
    and fits: "table_ok (table (memtable_op x (memtable s)))"
  shows "live_ok s' \<and> grows s s' \<and>
    (db_view s' = store_op x (db_view s) \<or> r \<noteq> Ret () \<and> db_view s' = db_view s)"
proof -
  obtain t k v where rec: "op_record x = (t, k, v)" by (cases "op_record x")
  from ok obtain f where f: "dir s wal_path = Some f" by (auto simp: live_ok_def)
  have failed: ?thesis if "wal_append wal_path t k v s = (r0, s')" "\<forall>a. r \<noteq> Ret a" for r0
    using wal_append_outcome [OF that(1) f] that(2) same_memory [OF ok, of s']
    by (auto simp: set_file_def update_conv')
  from call [unfolded Database_op_code [OF rec]] show ?thesis
  proof (cases rule: andthen_cases)
    case (ret a s1)
    from wal_append_outcome [OF ret(1) f] have s1: "sstables s1 = sstables s" "memtable s1 = memtable s"
      "dir s1 wal_path \<noteq> None"
      by (auto simp: set_file_def update_conv')
    let ?s2 = "s1\<lparr>memtable := memtable_op x (memtable s1)\<rparr>"
    have ok2: "live_ok ?s2" using ok fits s1 by (simp add: live_ok_def)
    have view2: "db_view ?s2 = store_op x (db_view s)"
      using live_store_run [of "run_layers (sstables s)" "[x]" "memtable s"]
      by (simp add: db_view_def db_entries_def s1)
    from ret(2) have rest: "MaybeFlush ?s2 = (r, s')" by simp
    show ?thesis
    proof (cases "flush_threshold_bytes ?s2 \<le> approximate_size_bytes (memtable ?s2)")
      case True
      with rest have "Flush ?s2 = (r, s')" by (simp add: MaybeFlush_def)
      from Flush_in_memory [OF this ok2] view2 show ?thesis by (simp add: grows_def s1)
    next
      case False
      with rest have "s' = ?s2" by (simp add: MaybeFlush_def)
      with ok2 view2 show ?thesis by (simp add: grows_def s1)
    qed
  qed (use failed in blast)+
qed


section \<open>Clients and the compaction thread, interleaved\<close>

text \<open>
  Where the compaction thread stands: waiting; started on a request, without a snapshot yet;
  with a merged copy of the first \<open>n\<close> tables; with a number for it; with the temporary file
  open and some sections still to write; with that file synced; with it renamed; with the new
  table open; deleting the old files. An exception in the thread ends the process
  (\<^verbatim>\<open>std::terminate\<close>), as a kill does.
\<close>

datatype job =
  Idle
| Started
| Merged nat "(bytes \<times> Entry) list"
| Allocated nat "(bytes \<times> Entry) list" u64
| Writing nat "(bytes \<times> Entry) list" u64 "bytes list"
| Synced nat "(bytes \<times> Entry) list" u64
| Renamed nat "(bytes \<times> Entry) list" u64
| Written nat SSTableReader
| Deleting "string list"
| Dead

datatype event = Client kv_op "unit result" | Compactor

abbreviation tmp_of :: "u64 \<Rightarrow> string" where
  "tmp_of number \<equiv> SSTableFilename number @ ''.tmp''"

text \<open>
  The unlocked write of the merged table, one call of \<^verbatim>\<open>WriteSSTable\<close> and of the reader's
  constructor at a time; at any other place of the thread it does nothing.
\<close>

fun write_step :: "job \<Rightarrow> ('x database_scheme, job) prog" where
  "write_step (Allocated n merged number) =
     (case sstable_sections merged of (data, index_bytes, footer) \<Rightarrow>
      andthen (sys_open_trunc (tmp_of number)) (\<lambda>opened.
        if opened then ret (Writing n merged number [data, index_bytes, footer])
        else ThrowErrno (''failed to create SSTable temp file '' @ tmp_of number)))"
| "write_step (Writing n merged number (section # sections)) =
     andthen (WriteAll (tmp_of number) section) (\<lambda>_. ret (Writing n merged number sections))"
| "write_step (Writing n merged number []) =
     andthen (sys_fsync (tmp_of number)) (\<lambda>synced.
       if synced then ret (Synced n merged number)
       else ThrowErrno (''failed to fsync SSTable temp file '' @ tmp_of number))"
| "write_step (Synced n merged number) =
     andthen (sys_rename (tmp_of number) (SSTableFilename number)) (\<lambda>renamed.
       if renamed then ret (Renamed n merged number)
       else throw (Runtime_error (''failed to rename '' @ tmp_of number @ '' to '' @ SSTableFilename number)))"
| "write_step (Renamed n merged number) =
     andthen (SSTableReader_open (SSTableFilename number)) (\<lambda>reader. ret (Written n reader))"
| "write_step j = ret j"

fun writing :: "job \<Rightarrow> (nat \<times> (bytes \<times> Entry) list \<times> u64) option" where
  "writing (Allocated n merged number) = Some (n, merged, number)"
| "writing (Writing n merged number sections) = Some (n, merged, number)"
| "writing (Synced n merged number) = Some (n, merged, number)"
| "writing (Renamed n merged number) = Some (n, merged, number)"
| "writing j = None"

text \<open>
  In a row, the seven calls are the write: create, three sections, sync, rename and open.
\<close>

fun write_steps :: "nat \<Rightarrow> job \<Rightarrow> ('x database_scheme, job) prog" where
  "write_steps 0 j = ret j"
| "write_steps (Suc k) j = andthen (write_step j) (write_steps k)"

lemma andthen_assoc: "andthen (andthen m f) g = andthen m (\<lambda>a. andthen (f a) g)"
  by (auto simp: andthen_def fun_eq_iff split: prod.split result.split)

lemma andthen_if: "andthen (if b then p else q) f = (if b then andthen p f else andthen q f)"
  by simp

lemma andthen_basic: "andthen (ret a) f = f a" "andthen (throw e) f = throw e" "andthen (ThrowErrno m) f = ThrowErrno m"
  by (auto simp: andthen_def ret_def throw_def ThrowErrno_def fun_eq_iff)

lemma andthen_ret: "andthen m ret = m"
  by (auto simp: andthen_def ret_def fun_eq_iff split: prod.split result.split)

lemma write_steps_in_a_row:
  "write_steps 7 (Allocated n merged number) =
     andthen (compact_write number merged) (\<lambda>reader. ret (Written n reader))"
  by (simp add: eval_nat_numeral compact_write_def WriteSSTable_def sstable_sections_eq Let_def
      andthen_assoc andthen_if andthen_basic andthen_ret cong: if_cong)

fun calls_left :: "job \<Rightarrow> nat" where
  "calls_left (Allocated n merged number) = 7"
| "calls_left (Writing n merged number sections) = length sections + 3"
| "calls_left (Synced n merged number) = 2"
| "calls_left (Renamed n merged number) = 1"
| "calls_left j = 0"

lemma write_step_calls:
  assumes "write_step j s = (Ret j', s')" and "writing j = Some (n, merged, number)"
  shows "calls_left j = Suc (calls_left j') \<and> (\<forall>n merged number. j' \<noteq> Allocated n merged number) \<and>
    (writing j' = Some (n, merged, number) \<or> (\<exists>reader. j' = Written n reader))"
proof (cases j)
  case (Writing n' merged' number' sections)
  with assms show ?thesis by (cases sections) (auto elim!: andthen_cases simp: ThrowErrno_def split: if_splits)
qed (use assms in \<open>auto elim!: andthen_cases simp: ThrowErrno_def sstable_sections_eq split: if_splits\<close>)

text \<open>Clients stay within the format's bounds, and no buffer exceeds the address space.\<close>

fun output_fits :: "database \<times> job \<Rightarrow> bool" where
  "output_fits (s, Allocated n merged number) = (length (sstable_image merged) < 2 ^ 64)"
| "output_fits (s, j) = True"

inductive system_step :: "database \<times> job \<Rightarrow> event \<Rightarrow> database \<times> job \<Rightarrow> bool" where
  client: "Database_op x s = (r, s') \<Longrightarrow> op_fits x s \<Longrightarrow> j \<noteq> Dead \<Longrightarrow>
     system_step (s, j) (Client x r) (s', j)"
| take_up: "compaction_requested s \<Longrightarrow>
     system_step (s, Idle) Compactor (s\<lparr>compaction_requested := False\<rparr>, Started)"
| nothing_to_do: "length (sstables s) < 2 \<Longrightarrow> system_step (s, Started) Compactor (s, Idle)"
| snapshot: "2 \<le> length (sstables s) \<Longrightarrow> compact_merge (sstables s) = Inr merged \<Longrightarrow>
     system_step (s, Started) Compactor (s, Merged (length (sstables s)) merged)"
| merge_throws: "2 \<le> length (sstables s) \<Longrightarrow> compact_merge (sstables s) = Inl e \<Longrightarrow>
     system_step (s, Started) Compactor (s, Dead)"
| allocate: "compact_allocate s = (Ret number, s') \<Longrightarrow>
     system_step (s, Merged n merged) Compactor (s', Allocated n merged number)"
| write_call: "writing j \<noteq> None \<Longrightarrow> output_fits (s, j) \<Longrightarrow> write_step j s = (Ret j', s') \<Longrightarrow>
     system_step (s, j) Compactor (s', j')"
| write_throws: "writing j \<noteq> None \<Longrightarrow> output_fits (s, j) \<Longrightarrow> write_step j s = (r, s') \<Longrightarrow> \<forall>a. r \<noteq> Ret a \<Longrightarrow>
     system_step (s, j) Compactor (s', Dead)"
| swap: "compact_swap n reader s = (Ret old_paths, s') \<Longrightarrow>
     system_step (s, Written n reader) Compactor (s', Deleting old_paths)"
| delete: "sys_remove path s = (Ret removed, s') \<Longrightarrow>
     system_step (s, Deleting (path # paths)) Compactor (s', Deleting paths)"
| delete_killed: "sys_remove path s = (Killed, s') \<Longrightarrow>
     system_step (s, Deleting (path # paths)) Compactor (s', Dead)"
| finished: "system_step (s, Deleting []) Compactor (s, Idle)"

inductive_cases client_step: "system_step (s, j) (Client x r) (s', j')"
inductive_cases compactor_step: "system_step (s, j) Compactor (s', j')"

lemmas compactor_cases = compactor_step [consumes 1, case_names take_up nothing_to_do snapshot merge_throws
  allocate write_call write_throws swap delete delete_killed finished]

inductive system_run :: "database \<times> job \<Rightarrow> event list \<Rightarrow> database \<times> job \<Rightarrow> bool" where
  start: "system_run c [] c"
| step: "system_run c es c' \<Longrightarrow> system_step c' e c'' \<Longrightarrow> system_run c (es @ [e]) c''"

text \<open>What the thread holds is the content of the tables it is about to replace.\<close>

definition replaces :: "database \<Rightarrow> nat \<Rightarrow> (bytes \<times> Entry) list \<Rightarrow> bool" where
  "replaces s n merged \<longleftrightarrow> n \<le> length (sstables s) \<and> sorted_keys merged \<and>
     (\<forall>p \<in> set merged. entry_fits p) \<and>
     (\<exists>m. merged = drop_tombstones m \<and> sorted_keys m \<and> map_of m = run_layers (take n (sstables s)))"

text \<open>
  What the thread has on disk of its output; its number is one that no later flush draws.
\<close>

definition drawn :: "u64 \<Rightarrow> 'x database_scheme \<Rightarrow> bool" where
  "drawn number s \<longleftrightarrow> number < next_sstable_number s \<or> number = - 1"

fun output_ok :: "database \<times> job \<Rightarrow> bool" where
  "output_ok (s, Allocated n merged number) = drawn number s"
| "output_ok (s, Writing n merged number sections) =
     (drawn number s \<and> length (sstable_image merged) < 2 ^ 64 \<and>
      (\<exists>f. dir s (tmp_of number) = Some f \<and> content f @ concat sections = sstable_image merged))"
| "output_ok (s, Synced n merged number) =
     (drawn number s \<and> length (sstable_image merged) < 2 ^ 64 \<and>
      dir s (tmp_of number) = Some (sstable_file merged))"
| "output_ok (s, Renamed n merged number) =
     (drawn number s \<and> length (sstable_image merged) < 2 ^ 64 \<and>
      dir s (SSTableFilename number) = Some (sstable_file merged))"
| "output_ok (s, j) = True"

fun job_ok :: "database \<times> job \<Rightarrow> bool" where
  "job_ok (s, Merged n merged) = replaces s n merged"
| "job_ok (s, Allocated n merged number) =
     (replaces s n merged \<and> output_ok (s, Allocated n merged number))"
| "job_ok (s, Writing n merged number sections) =
     (replaces s n merged \<and> output_ok (s, Writing n merged number sections))"
| "job_ok (s, Synced n merged number) = (replaces s n merged \<and> output_ok (s, Synced n merged number))"
| "job_ok (s, Renamed n merged number) = (replaces s n merged \<and> output_ok (s, Renamed n merged number))"
| "job_ok (s, Written n reader) = (\<exists>path merged. reader = reader_for path merged \<and> path \<noteq> wal_path \<and> replaces s n merged)"
| "job_ok (s, Idle) = True"
| "job_ok (s, Started) = True"
| "job_ok (s, Deleting paths) = (wal_path \<notin> set paths)"
| "job_ok (s, Dead) = True"

lemma replaces_grows: "replaces s n merged \<Longrightarrow> grows s s' \<Longrightarrow> replaces s' n merged"
  by (auto simp: replaces_def grows_def)

lemma replaces_same: "replaces s n merged \<Longrightarrow> sstables s' = sstables s \<Longrightarrow> replaces s' n merged"
  by (simp add: replaces_def)

lemma job_ok_output: "job_ok (s, j) \<Longrightarrow> output_ok (s, j)"
  by (cases j) simp_all

lemma job_ok_writing:
  assumes "writing j = Some (n, merged, number)"
  shows "job_ok (s, j) \<longleftrightarrow> replaces s n merged \<and> output_ok (s, j)"
  using assms by (cases j) simp_all

lemma output_small:
  assumes "writing j = Some (n, merged, number)" and "output_ok (s, j)" and "output_fits (s, j)"
  shows "length (sstable_image merged) < 2 ^ 64"
  using assms by (cases j) auto

text \<open>No client call disturbs the output of the thread.\<close>

lemma drawn_step:
  assumes "drawn number s" and "next_sstable_number s < - 1"
    and "next_sstable_number s' \<in> {next_sstable_number s, next_sstable_number s + 1}"
  shows "drawn number s'" and "SSTableFilename number \<notin> op_files s" and "tmp_of number \<notin> op_files s"
proof -
  have "next_sstable_number s < next_sstable_number s + 1" by (rule next_number_greater [OF assms(2)])
  then show "drawn number s'" using assms(1,3) by (auto simp: drawn_def dest: less_trans)
  have "number \<noteq> next_sstable_number s" using assms(1,2) by (auto simp: drawn_def)
  then show "SSTableFilename number \<notin> op_files s" and "tmp_of number \<notin> op_files s"
    by (auto simp: op_files_def)
qed

lemma output_ok_client:
  assumes call: "Database_op x s = (r, s')" and fits: "op_fits x s" and ok: "output_ok (s, j)"
  shows "output_ok (s', j)"
proof -
  have "next_sstable_number s < - 1" using fits by (simp add: op_fits_def)
  moreover have "next_sstable_number s' \<in> {next_sstable_number s, next_sstable_number s + 1}"
    using op_fields [OF call] by blast
  ultimately have "drawn number s' \<and> dir s' (SSTableFilename number) = dir s (SSTableFilename number) \<and>
      dir s' (tmp_of number) = dir s (tmp_of number)" if "drawn number s" for number
    using drawn_step [OF that] op_other_files [OF call] by blast
  with ok show ?thesis by (cases j) auto
qed

lemma job_ok_client:
  assumes "Database_op x s = (r, s')" and "op_fits x s" and "job_ok (s, j)" and "grows s s'"
  shows "job_ok (s', j)"
  using output_ok_client [OF assms(1,2) job_ok_output [OF assms(3)]] assms(3,4)
  by (cases j) (auto intro: replaces_grows)

text \<open>
  What one call of the write can do: something to the temporary file, the rename, or nothing.
\<close>

lemma write_step_outcome:
  fixes s s' :: database
  assumes call: "write_step j s = (r, s')" and job: "writing j = Some (n, merged, number)"
    and ok: "output_ok (s, j)" and fits: "output_fits (s, j)"
  obtains (tmp) "touches (tmp_of number) s s'"
      "\<And>j'. r = Ret j' \<Longrightarrow> (\<exists>sections. j' = Writing n merged number sections) \<or> j' = Synced n merged number"
      "\<And>j'. r = Ret j' \<Longrightarrow> output_ok (s', j')"
  | (renamed) fs es where "j = Synced n merged number" "r = Ret (Renamed n merged number)"
      "s' = s\<lparr>files := fs, script := es\<rparr>"
      "map_of fs = (dir s)(tmp_of number := None, SSTableFilename number \<mapsto> sstable_file merged)"
      "output_ok (s', Renamed n merged number)"
  | (opened) es where "j = Renamed n merged number" "s' = s\<lparr>script := es\<rparr>"
      "\<And>j'. r = Ret j' \<Longrightarrow> \<exists>reader. j' = Written n reader \<and>
         sstable_parse (SSTableFilename number) (sstable_image merged) = Inr reader"
proof -
  let ?tmp = "tmp_of number"
  have quiet: thesis if "\<forall>a. r \<noteq> Ret a" "touches ?tmp s s'"
    using that by (intro tmp) auto
  show thesis
  proof (cases j)
    case (Allocated n' merged' number')
    with job have eq: "n' = n" "merged' = merged" "number' = number" by simp_all
    from checked_syscall [OF call [unfolded Allocated eq write_step.simps sstable_sections_eq prod.case sys_open_trunc_def]]
    show thesis
    proof
      assume "ret (Writing n merged number [entries_bytes merged, index_section merged, footer_bytes merged])
        (set_file ?tmp \<lparr>content = [], synced = 0\<rparr> (s\<lparr>script := tl (script s)\<rparr>)) = (r, s')"
      then have s': "r = Ret (Writing n merged number [entries_bytes merged, index_section merged, footer_bytes merged])"
        "s' = (set_file ?tmp \<lparr>content = [], synced = 0\<rparr> s)\<lparr>script := tl (script s)\<rparr>"
        by (simp_all add: ret_def)
      have "touches ?tmp s s'" unfolding s'(2) by (intro touches_steps touches_refl)
      then show thesis
        using s' ok fits by (intro tmp) (auto simp: Allocated eq drawn_def sstable_image_eq set_file_def update_conv')
    qed (elim conjE, rule quiet, assumption, simp add: touches_steps)
  next
    case (Writing n' merged' number' sections)
    with job have eq: "n' = n" "merged' = merged" "number' = number" by simp_all
    from ok obtain f where f: "dir s ?tmp = Some f" "content f @ concat sections = sstable_image merged"
      and small: "drawn number s" "length (sstable_image merged) < 2 ^ 64"
      by (auto simp: Writing eq)
    show thesis
    proof (cases sections)
      case Nil
      then have image: "content f = sstable_image merged"
        and synced: "f\<lparr>synced := length (sstable_image merged)\<rparr> = sstable_file merged"
        using f(2) by (cases f, simp_all add: sstable_file_def)
      from checked_syscall [OF call [unfolded Writing eq Nil write_step.simps sys_fsync_def]]
      show thesis
      proof
        assume "ret (Synced n merged number)
          (set_file ?tmp ((the_file (s\<lparr>script := tl (script s)\<rparr>) ?tmp)
             \<lparr>synced := length (content (the_file (s\<lparr>script := tl (script s)\<rparr>) ?tmp))\<rparr>) (s\<lparr>script := tl (script s)\<rparr>)) = (r, s')"
        then have s': "r = Ret (Synced n merged number)"
          "s' = (set_file ?tmp (sstable_file merged) s)\<lparr>script := tl (script s)\<rparr>"
          using f(1) by (simp_all add: ret_def the_file_some image synced)
        have "touches ?tmp s s'" unfolding s'(2) by (intro touches_steps touches_refl)
        then show thesis
          using s' small by (intro tmp) (auto simp: drawn_def set_file_def update_conv')
      qed (elim conjE, rule quiet, assumption, simp add: touches_steps)
    next
      case (Cons bytes rest)
      from call [unfolded Writing eq Cons write_step.simps] show thesis
      proof (cases rule: andthen_cases)
        case (ret u s1)
        from WriteAll_outcome [OF ret(1)] f(1) obtain es
          where "s1 = (append_file ?tmp bytes s)\<lparr>script := es\<rparr>" by auto
        with ret(2) have s': "r = Ret (Writing n merged number rest)"
          "s' = (append_file ?tmp bytes s)\<lparr>script := es\<rparr>" by (simp_all add: ret_def)
        have "touches ?tmp s s'" unfolding s'(2) by (intro touches_steps touches_refl)
        then show thesis
          using s' small f Cons
          by (intro tmp) (auto simp: drawn_def append_file_def set_file_def update_conv' the_file_some)
      next
        case (throw e)
        from WriteAll_outcome [OF throw(1)] f(1) throw(2) show thesis
          by (intro quiet) (auto intro!: touches_steps)
      next
        case killed
        from WriteAll_outcome [OF killed(1)] f(1) killed(2) show thesis
          by (intro quiet) (auto intro!: touches_steps)
      qed
    qed
  next
    case (Synced n' merged' number')
    with job have eq: "n' = n" "merged' = merged" "number' = number" by simp_all
    from ok have f: "dir s ?tmp = Some (sstable_file merged)" and small: "drawn number s" "length (sstable_image merged) < 2 ^ 64"
      by (auto simp: Synced eq)
    from checked_syscall [OF call [unfolded Synced eq write_step.simps sys_rename_def, folded ThrowErrno_def]]
    show thesis
    proof
      let ?fs = "AList.update (SSTableFilename number) (sstable_file merged) (AList.delete ?tmp (files s))"
      assume "ret (Renamed n merged number)
        (set_file (SSTableFilename number) (the_file (s\<lparr>script := tl (script s)\<rparr>) ?tmp)
          (s\<lparr>script := tl (script s), files := AList.delete ?tmp (files (s\<lparr>script := tl (script s)\<rparr>))\<rparr>)) = (r, s')"
      then have s': "r = Ret (Renamed n merged number)" "s' = s\<lparr>files := ?fs, script := tl (script s)\<rparr>"
        using f by (auto simp: ret_def the_file_some set_file_def)
      show thesis
        using s' small
        by (intro renamed [where fs = ?fs and es = "tl (script s)"]) (simp_all add: Synced eq drawn_def update_conv' delete_conv')
    qed (elim conjE, rule quiet, assumption, simp add: touches_steps)
  next
    case (Renamed n' merged' number')
    with job have eq: "n' = n" "merged' = merged" "number' = number" by simp_all
    from ok have f: "dir s (SSTableFilename number) = Some (sstable_file merged)" by (simp add: Renamed eq)
    from call [unfolded Renamed eq write_step.simps] show thesis
    proof (cases rule: andthen_cases)
      case (ret reader s1)
      from SSTableReader_open_outcome [OF ret(1)] f ret(2) show thesis
        by (auto simp: Renamed eq ret_def sstable_file_def intro: opened)
    next
      case (throw e)
      from SSTableReader_open_outcome [OF throw(1)] throw(2) show thesis
        by (auto simp: Renamed eq intro: opened)
    next
      case killed
      from SSTableReader_open_outcome [OF killed(1)] killed(2) show thesis
        by (auto simp: Renamed eq intro: opened)
    qed
  qed (use job in simp_all)
qed

lemma write_step_memory:
  fixes s s' :: database
  assumes "write_step j s = (r, s')" and "writing j = Some (n, merged, number)"
    and "output_ok (s, j)" and "output_fits (s, j)"
  shows "sstables s' = sstables s \<and> memtable s' = memtable s \<and> dir s' wal_path = dir s wal_path"
  using assms by (cases rule: write_step_outcome) (auto simp: touches_def)

lemma swap_view:
  assumes ok: "live_ok s" and r: "replaces s n merged" and path: "path \<noteq> wal_path"
    and s': "s' = s\<lparr>sstables := reader_for path merged # drop n (sstables s)\<rparr>"
  shows "live_ok s' \<and> db_view s' = db_view s"
proof -
  from r obtain m where m: "merged = drop_tombstones m" "sorted_keys m"
    "map_of m = run_layers (take n (sstables s))"
    by (auto simp: replaces_def)
  have fits: "\<forall>p \<in> set merged. entry_fits p" "sorted_keys merged" using r by (simp_all add: replaces_def)
  have "run_layers (sstables s) = run_layers (take n (sstables s)) ++ run_layers (drop n (sstables s))"
    by (metis append_take_drop_id layered_append map_append)
  then have "db_view s' = db_view s"
    using compacted_layers(1) [OF m(2,3), of "run_layers (drop n (sstables s)) ++ map_of (table (memtable s))"] fits
    by (simp add: s' db_view_def db_entries_def layered_Cons m(1) map_add_assoc)
  moreover have "live_ok s'"
    using ok fits path by (auto simp: s' live_ok_def reader_index_simps dest: in_set_dropD)
  ultimately show ?thesis by blast
qed

lemma sys_remove_memory:
  fixes s :: "'x database_scheme"
  assumes "sys_remove path s = (r, s')"
  shows "sstables s' = sstables s \<and> memtable s' = memtable s \<and>
    (path \<noteq> wal_path \<longrightarrow> dir s' wal_path = dir s wal_path)"
  using assms unfolding sys_remove_def
  by (cases rule: syscall_cases) (auto simp: delete_conv')

lemma compactor_step_ok:
  assumes step: "system_step (s, j) Compactor (s', j')" and ok: "live_ok s" "job_ok (s, j)"
  shows "live_ok s' \<and> job_ok (s', j') \<and> db_view s' = db_view s"
  using step
proof (cases rule: compactor_cases)
  case (snapshot merged)
  have "\<forall>r \<in> set (sstables s). reader_ok r" using ok(1) by (simp add: live_ok_def)
  then obtain m where m: "compact_merge (sstables s) = Inr (drop_tombstones m)" "sorted_keys m"
    "map_of m = run_layers (sstables s)" "sorted_keys (drop_tombstones m)"
    "\<forall>p \<in> set (drop_tombstones m). entry_fits p"
    by (rule compact_merge_ok)
  then have "merged = drop_tombstones m" using snapshot by simp
  with m have "replaces s (length (sstables s)) merged"
    unfolding replaces_def by (metis order_refl take_all_iff)
  then show ?thesis using snapshot ok(1) by simp
next
  case (allocate number n merged)
  then have s': "s' = s\<lparr>next_sstable_number := next_sstable_number s + 1\<rparr>"
    by (auto simp: compact_allocate_def)
  have "live_ok s' \<and> db_view s' = db_view s"
    using ok(1) unfolding s' by (simp add: live_ok_def db_view_def db_entries_def)
  moreover have "replaces s' n merged"
    using ok(2) allocate(1) by (auto simp: s' intro: replaces_same)
  moreover have "drawn number s'"
    using allocate(3) next_number_greater [of number] word_n1_ge [of number]
    by (auto simp: s' compact_allocate_def drawn_def le_less)
  ultimately show ?thesis using allocate(2) by simp
next
  case (write_call n merged number)
  note w = write_call(3) and call = write_call(2,3) job_ok_output [OF ok(2)] write_call(1)
  note mem = write_step_memory [OF call]
  have r: "replaces s' n merged"
    using ok(2) mem by (auto simp: job_ok_writing [OF w] intro: replaces_same)
  have "live_ok s' \<and> db_view s' = db_view s"
    using same_memory [OF ok(1), of s'] mem ok(1) by (simp add: live_ok_def)
  moreover from call have "job_ok (s', j')"
  proof (cases rule: write_step_outcome)
    case tmp
    then show ?thesis using r by auto
  next
    case (renamed fs es)
    then show ?thesis using r by simp
  next
    case (opened es)
    then obtain reader where reader: "j' = Written n reader"
      "sstable_parse (SSTableFilename number) (sstable_image merged) = Inr reader" by blast
    have "table_ok merged" using r output_small [OF call(2-4)] by (simp add: replaces_def table_ok_def)
    then have "reader = reader_for (SSTableFilename number) merged"
      using reader(2) by (simp add: sstable_parse_image)
    then show ?thesis
      using reader(1) r by (auto intro!: exI [of _ "SSTableFilename number"] exI [of _ merged])
  qed
  ultimately show ?thesis by blast
next
  case (write_throws r n merged number)
  from write_step_memory [OF write_throws(3,5) job_ok_output [OF ok(2)] write_throws(2)]
    same_memory [OF ok(1), of s'] write_throws(1) ok(1) show ?thesis
    by (simp add: live_ok_def)
next
  case (swap n reader old_paths)
  with ok obtain path merged where "reader = reader_for path merged" "path \<noteq> wal_path"
    "replaces s n merged" by auto
  note r = this
  have s': "s' = s\<lparr>sstables := reader_for path merged # drop n (sstables s)\<rparr>"
    and paths: "old_paths = map reader_path (take n (sstables s))"
    using swap(3) r(1) by (simp_all add: compact_swap_def)
  have "wal_path \<notin> set old_paths"
    using ok(1) by (auto simp: paths live_ok_def dest!: in_set_takeD)
  with swap(2) swap_view [OF ok(1) r(3,2) s'] show ?thesis by simp
next
  case (delete path removed paths)
  with ok(2) have "path \<noteq> wal_path" "wal_path \<notin> set paths" by auto
  with delete sys_remove_memory [OF delete(3)] same_memory [OF ok(1), of s'] ok(1) show ?thesis
    by (simp add: live_ok_def)
next
  case (delete_killed path paths)
  with ok(2) have "path \<noteq> wal_path" by auto
  with delete_killed sys_remove_memory [OF delete_killed(3)] same_memory [OF ok(1), of s'] ok(1)
  show ?thesis by (simp add: live_ok_def)
qed (use ok same_memory [OF ok(1), of s'] in \<open>auto simp: live_ok_def\<close>)


fun client_ops :: "event list \<Rightarrow> kv_op list" where
  "client_ops [] = []"
| "client_ops (Client x r # es) = x # client_ops es"
| "client_ops (Compactor # es) = client_ops es"

lemma client_ops_thread [simp]:
  "client_ops (replicate n Compactor @ es) = client_ops es" "client_ops (replicate n Compactor) = []"
  by (induction n) simp_all

lemma client_ops_snoc: "client_ops (es @ [e]) = client_ops es @ client_ops [e]"
  by (induction es rule: client_ops.induct) (cases e; simp)+

lemma system_run_ok:
  assumes "system_run c es c'" and "live_ok (fst c)" and "job_ok c"
    and "\<forall>x r. Client x r \<in> set es \<longrightarrow> r = Ret ()"
  shows "live_ok (fst c') \<and> job_ok c' \<and> db_view (fst c') = store_ops (client_ops es) (db_view (fst c))"
  using assms
proof (induction rule: system_run.induct)
  case (start c)
  then show ?case by simp
next
  case (step c es c' e c'')
  obtain s j s' j' where c: "c' = (s, j)" "c'' = (s', j')" by force
  from step have IH: "live_ok s" "job_ok (s, j)" "db_view s = store_ops (client_ops es) (db_view (fst c))"
    by (auto simp: c)
  show ?case
  proof (cases e)
    case (Client x r)
    with step.prems have r: "r = Ret ()" by auto
    from step.hyps(2) [unfolded c Client] have op: "Database_op x s = (r, s')" "op_fits x s" "j' = j"
      by (auto elim: client_step)
    from op_in_memory [OF op(1) IH(1)] op(2) r
    have "live_ok s'" "grows s s'" "db_view s' = store_op x (db_view s)"
      by (auto simp: op_fits_def)
    then show ?thesis
      using job_ok_client [OF op(1,2) IH(2)] op(3) IH(3) Client
      by (simp add: c client_ops_snoc store_ops_append)
  next
    case Compactor
    from compactor_step_ok [OF step.hyps(2) [unfolded c Compactor] IH(1,2)] IH(3) Compactor
    show ?thesis by (simp add: c client_ops_snoc)
  qed
qed

section \<open>Properties\<close>

text \<open>
  C4. Compaction is invisible while the process lives: however the client calls and the
  steps of the compaction thread interleave, with any flushes before, between and after the
  snapshot, the number and the swap, \<open>get\<close> and \<open>scan\<close> answer by the client's updates alone,
  and neither throws.
\<close>

theorem interleaved_reads_correct:
  assumes "system_run (s, Idle) es (s', j)" and "db_good s"
    and "\<forall>x r. Client x r \<in> set es \<longrightarrow> r = Ret ()"
  shows "Database_get s' k = Inr (store_ops (client_ops es) (db_view s) k) \<and>
    (\<exists>res. Database_scan s' a b = Inr res \<and> range_of (store_ops (client_ops es) (db_view s)) a b res)"
proof -
  have "live_ok s'" and view: "db_view s' = store_ops (client_ops es) (db_view s)"
    using system_run_ok [OF assms(1)] db_good_live [OF assms(2)] assms(3) by simp_all
  then have "reads_ok s'" by (simp add: live_ok_reads)
  from Database_get_view [OF this, of k] Database_scan_view [OF this, of a b] view
  show ?thesis by simp
qed

end
