(* ===== verification/Compaction_Disk.thy ===== *)
theory Compaction_Disk
  imports Compaction Scripts
begin

text \<open>
  What a compaction does to the files: run without interference it keeps the stored content
  at every point a crash can hit; interleaved with a flush, or with an old file that cannot
  be removed, it does not.
\<close>

section \<open>Deleting the old files\<close>

lemma remove_oldest:
  assumes numbers: "sst_numbers m = n # ns"
  shows "sst_numbers (m(SSTableFilename n := None)) = ns"
    and "disk_readers (m(SSTableFilename n := None)) = tl (disk_readers m)"
proof -
  let ?m = "m(SSTableFilename n := None)"
  have sorted: "sorted_wrt (<) (n # ns)" using numbers by (metis sst_numbers_def sorted_list_of_set.strict_sorted_key_list_of_set)
  have "set (sst_numbers ?m) = set ns"
  proof -
    have "k \<in> set (sst_numbers m) \<longleftrightarrow> k = n \<or> k \<in> set ns" for k by (simp add: numbers del: set_sst_numbers)
    moreover have "n \<notin> set ns" using sorted by auto
    ultimately show ?thesis by (auto split: if_splits)
  qed
  moreover have "sorted_wrt (<) (sst_numbers ?m)" by (simp add: sst_numbers_def)
  moreover have "sorted_wrt (<) ns" using sorted by simp
  ultimately show ns: "sst_numbers ?m = ns" by (metis strict_sorted_equal)
  have "table_at ?m k = table_at m k" if "k \<in> set ns" for k
    using that sorted by (auto simp: table_at_def)
  then show "disk_readers ?m = tl (disk_readers m)"
    by (simp add: disk_readers_def ns numbers)
qed

lemma dir_ok_remove:
  assumes "dir_ok m"
  shows "dir_ok (m(name := None))"
proof (rule dir_ok_subset [OF assms])
  fix n f assume "(m(name := None)) n = Some f"
  then show "m n = Some f" by (cases "n = name") simp_all
qed

lemma compact_delete_outcome:
  assumes "compact_delete (map SSTableFilename ns) s = (r, s')"
    and "sst_numbers (dir s) = ns @ rest" and "dir_ok (dir s)" and "no_failure (script s)"
  shows "\<exists>i fs es. s' = s\<lparr>files := fs, script := es\<rparr> \<and> i \<le> length ns \<and>
    sst_numbers (map_of fs) = drop i ns @ rest \<and>
    disk_readers (map_of fs) = drop i (disk_readers (dir s)) \<and>
    dir_ok (map_of fs) \<and> map_of fs wal_path = dir s wal_path \<and>
    (r = Ret () \<longrightarrow> i = length ns) \<and> (\<forall>e. r \<noteq> Throw e)"
  using assms
proof (induction ns arbitrary: s)
  case Nil
  then show ?case
    by (intro exI [of _ 0] exI [of _ "files s"] exI [of _ "script s"]) auto
next
  case (Cons k ns)
  from Cons.prems(1) have call: "andthen (sys_remove (SSTableFilename k))
      (\<lambda>_. compact_delete (map SSTableFilename ns)) s = (r, s')"
    by simp
  from call show ?case
  proof (cases rule: andthen_cases)
    case (ret b s1)
    have fail: "b = True"
      using ret(1) Cons.prems(4)
      by (cases "script s") (auto simp: sys_remove_def syscall_def next_event_def no_failure_def split: io_event.splits)
    have s1: "s1 = s\<lparr>files := AList.delete (SSTableFilename k) (files s), script := tl (script s)\<rparr>"
      using ret(1) fail unfolding sys_remove_def by (cases rule: syscall_cases) auto
    have d1: "dir s1 = (dir s)(SSTableFilename k := None)" by (simp add: s1 delete_conv')
    have numbers: "sst_numbers (dir s) = k # (ns @ rest)" using Cons.prems(2) by simp
    have pre: "sst_numbers (dir s1) = ns @ rest" "dir_ok (dir s1)" "no_failure (script s1)"
      "disk_readers (dir s1) = tl (disk_readers (dir s))" "dir s1 wal_path = dir s wal_path"
      unfolding d1 using remove_oldest [OF numbers] Cons.prems(3,4)
      by (auto simp: dir_ok_remove s1 no_failure_def dest: in_set_tl)
    from Cons.IH [OF ret(2) pre(1-3)] obtain i fs es where o: "s' = s1\<lparr>files := fs, script := es\<rparr>"
      "i \<le> length ns" "sst_numbers (map_of fs) = drop i ns @ rest"
      "disk_readers (map_of fs) = drop i (disk_readers (dir s1))" "dir_ok (map_of fs)"
      "map_of fs wal_path = dir s1 wal_path" "r = Ret () \<longrightarrow> i = length ns" "\<forall>e. r \<noteq> Throw e"
      by blast
    have "s' = s\<lparr>files := fs, script := es\<rparr>" by (simp add: o(1) s1)
    with o(2-) show ?thesis
      by (intro exI [of _ "Suc i"] exI [of _ fs] exI [of _ es]) (simp add: pre(4,5) drop_Suc)
  next
    case (throw e)
    then show ?thesis unfolding sys_remove_def by (auto elim!: syscall_cases)
  next
    case killed
    from killed(1) have "s' = s\<lparr>script := tl (script s)\<rparr>"
      unfolding sys_remove_def by (cases rule: syscall_cases) auto
    with Cons.prems killed(2) show ?thesis
      by (intro exI [of _ 0] exI [of _ "files s"] exI [of _ "tl (script s)"]) simp
  qed
qed

text \<open>The directory with one more table, the newest.\<close>

lemma table_added:
  assumes ok: "dir_ok d" and above: "\<forall>k \<in> set (sst_numbers d). k < n" and T: "table_ok es"
    and m: "m = d(SSTableFilename n @ ''.tmp'' := t, SSTableFilename n \<mapsto> sstable_file es)"
  shows "dir_ok m" and "m wal_path = d wal_path" and "sst_numbers m = sst_numbers d @ [n]"
    and "disk_readers m = disk_readers d @ [reader_for (SSTableFilename n) es]"
proof -
  let ?m0 = "d(SSTableFilename n @ ''.tmp'' := t)"
  have same: "sst_numbers ?m0 = sst_numbers d" "disk_readers ?m0 = disk_readers d"
    using same_tables [of ?m0 d] by simp_all
  have above0: "\<forall>k \<in> set (sst_numbers ?m0). k < n" unfolding same by (rule above)
  show "dir_ok m" unfolding m using ok T by (intro dir_ok_upd_table dir_ok_upd_other) simp_all
  show "m wal_path = d wal_path" by (simp add: m)
  show "sst_numbers m = sst_numbers d @ [n]"
    unfolding m using sst_numbers_new [OF above0] same by simp
  show "disk_readers m = disk_readers d @ [reader_for (SSTableFilename n) es]"
    unfolding m using disk_readers_new [OF above0 T] same by simp
qed

section \<open>A compaction on its own\<close>

text \<open>The directory with the merged table added and the oldest \<open>i\<close> tables removed.\<close>

lemma compacted_directory:
  assumes good: "db_good s" and room: "next_sstable_number s < - 1"
    and m: "sorted_keys m" "map_of m = run_layers (sstables s)" and fits: "table_ok (drop_tombstones m)"
    and d: "dir_ok d" "d wal_path = dir s wal_path"
      "sst_numbers d = drop i (sst_numbers (dir s)) @ [next_sstable_number s]"
      "disk_readers d = drop i (sstables s) @
         [reader_for (SSTableFilename (next_sstable_number s)) (drop_tombstones m)]"
  shows "recoverable d" and "disk_store d = db_view s"
proof -
  have wal: "wal_content d = wal_content (dir s)" by (simp add: wal_content_def d)
  show "recoverable d"
    using db_good_recoverable [OF good] d room wal
    by (auto simp: recoverable_def simp del: set_sst_numbers dest: in_set_dropD)
  have "reader_entries (reader_for (SSTableFilename (next_sstable_number s)) (drop_tombstones m)) = drop_tombstones m"
    using fits by (intro reader_entries_for) (simp add: table_ok_def)
  then have "live_store (run_layers (disk_readers d)) = live_store (run_layers (sstables s))"
    using compacted_layers(2) [OF m, of i] by (simp add: d(4))
  then show "disk_store d = db_view s"
    using db_good_view [OF good] good by (simp add: disk_store_def wal db_good_def)
qed


text \<open>The merged table is small enough to be one string, as any string of the program is.\<close>

definition compaction_fits :: "'x database_scheme \<Rightarrow> bool" where
  "compaction_fits s \<longleftrightarrow> next_sstable_number s < - 1 \<and>
     (case compact_merge (sstables s) of Inl e \<Rightarrow> True | Inr merged \<Rightarrow> length (sstable_image merged) < 2 ^ 64)"

lemma disk_readers_paths:
  "map reader_path (disk_readers m) = map SSTableFilename (sst_numbers m)"
  by (simp add: disk_readers_def reader_index_simps)

lemma compact_write_disk:
  assumes call: "compact_write n merged s = (r, s')" and fits: "table_ok merged"
  obtains (written) fs es where "s' = s\<lparr>files := fs, script := es\<rparr>"
      "map_of fs = (dir s)(SSTableFilename n @ ''.tmp'' := None, SSTableFilename n \<mapsto> sstable_file merged)"
      "\<forall>rd. r = Ret rd \<longrightarrow> rd = reader_for (SSTableFilename n) merged"
  | (failed) "touches (SSTableFilename n @ ''.tmp'') s s'" "\<forall>a. r \<noteq> Ret a"
proof -
  from call [unfolded compact_write_def] show ?thesis
  proof (cases rule: andthen_cases)
    case (ret a s1)
    from ret(1) obtain fs es where s1: "s1 = s\<lparr>files := fs, script := es\<rparr>"
      and fs: "map_of fs = (dir s)(SSTableFilename n @ ''.tmp'' := None, SSTableFilename n \<mapsto> sstable_file merged)"
      by (cases rule: WriteSSTable_outcome) auto
    from SSTableReader_open_outcome [OF ret(2)] obtain es2 where "s' = s1\<lparr>script := es2\<rparr>"
      and "\<forall>rd. r = Ret rd \<longrightarrow> sstable_parse (SSTableFilename n) (sstable_image merged) = Inr rd"
      by (auto simp: s1 fs sstable_file_def)
    with fs fits show ?thesis
      by (intro written [where fs = fs and es = es2]) (auto simp: s1 sstable_parse_image)
  next
    case (throw e)
    from throw(1) failed throw(2) show ?thesis by (cases rule: WriteSSTable_outcome) auto
  next
    case killed
    from killed(1) failed killed(2) show ?thesis by (cases rule: WriteSSTable_outcome) auto
  qed
qed

lemma consumes_compact_write: "consumes (compact_write n merged)"
  unfolding compact_write_def by (intro consumes_rules)

lemma compact_delete_no_throw: "fst (compact_delete ps s) \<noteq> Throw e"
proof (induction ps arbitrary: s)
  case Nil
  then show ?case by (simp add: ret_def)
next
  case (Cons p ps)
  obtain r s1 where r: "sys_remove p s = (r, s1)" by force
  then have "r \<noteq> Throw e'" for e'
    unfolding sys_remove_def by (cases rule: syscall_cases) auto
  with r Cons show ?case by (cases r) (simp_all add: andthen_def)
qed

lemma CompactOnce_outcome:
  assumes call: "CompactOnce s = (r, s')" and good: "db_good s" and durable: "wal_durable (dir s)"
    and fits: "compaction_fits s" and reliable: "(\<exists>e. r = Throw e) \<or> no_failure (script s)"
  shows "stable (files s') (db_view s) \<and>
    (r = Ret () \<longrightarrow> db_good s' \<and> db_view s' = db_view s \<and> wal_durable (dir s') \<and>
       (2 \<le> length (sstables s) \<longrightarrow> length (sstables s') = 1))"
proof (cases "length (sstables s) < 2")
  case True
  with call have "r = Ret ()" "s' = s" by (simp_all add: CompactOnce_def)
  with good durable True show ?thesis
    using db_good_recoverable [OF good] db_good_view [OF good] by (auto intro: stableI)
next
  case False
  let ?n = "next_sstable_number s" and ?rs = "sstables s"
  have rs: "?rs = disk_readers (dir s)" and "\<forall>r \<in> set ?rs. reader_ok r"
    using good disk_readers_ok [of "dir s"] by (auto simp: db_good_def)
  from compact_merge_ok [OF this(2)] obtain m where m: "compact_merge ?rs = Inr (drop_tombstones m)"
    "sorted_keys m" "map_of m = run_layers ?rs" "sorted_keys (drop_tombstones m)"
    "\<forall>p \<in> set (drop_tombstones m). entry_fits p"
    by metis
  let ?T = "drop_tombstones m"
  have T: "table_ok ?T" and room: "?n < - 1"
    using fits m by (simp_all add: compaction_fits_def table_ok_def)
  let ?s1 = "s\<lparr>next_sstable_number := ?n + 1\<rparr>"
  from call False m have code: "andthen (compact_write ?n ?T) (\<lambda>reader.
      andthen (compact_swap (length ?rs) reader) compact_delete) ?s1 = (r, s')"
    by (simp add: CompactOnce_def Let_def andthen_def lift_def compact_allocate_def)
  have failed': "stable (files s') (db_view s)" if "touches (SSTableFilename ?n @ ''.tmp'') ?s1 s'"
  proof -
    from that obtain t where "dir s' = (dir s)(SSTableFilename ?n @ ''.tmp'' := t)"
      by (auto simp: touches_def)
    then have "touches (SSTableFilename ?n @ ''.tmp'') s (s\<lparr>files := files s', script := []\<rparr>)"
      by (auto simp: touches_def)
    from touched_tmp_stable(1) [OF this db_good_sound [OF good] durable] show ?thesis by simp
  qed
  let ?rd = "reader_for (SSTableFilename ?n) ?T"
  have above: "\<forall>k \<in> set (sst_numbers (dir s)). k < ?n" using good by (simp add: db_good_def)
  have new: "dir_ok m1" "m1 wal_path = dir s wal_path" "sst_numbers m1 = sst_numbers (dir s) @ [?n]"
      "disk_readers m1 = ?rs @ [?rd]"
    if "m1 = (dir s)(SSTableFilename ?n @ ''.tmp'' := None, SSTableFilename ?n \<mapsto> sstable_file ?T)" for m1
    using table_added [OF _ above T that] good rs by (simp_all add: db_good_def)
  have wal_ok: "wal_durable d" if "d wal_path = dir s wal_path" for d
    using durable that by (simp add: wal_durable_def)
  have unreturned: "stable (files s') (db_view s)"
    if "compact_write ?n ?T ?s1 = (r0, s')" "\<forall>a. r \<noteq> Ret a" for r0 :: "SSTableReader result"
    using that(1) T
  proof (cases rule: compact_write_disk)
    case (written fs es)
    have d: "dir s' = (dir s)(SSTableFilename ?n @ ''.tmp'' := None, SSTableFilename ?n \<mapsto> sstable_file ?T)"
      using written(1,2) by simp
    note m1 = new [OF d]
    have "sst_numbers (dir s') = drop 0 (sst_numbers (dir s)) @ [?n]" "disk_readers (dir s') = drop 0 ?rs @ [?rd]"
      using m1 by simp_all
    from compacted_directory [OF good room m(2,3) T m1(1,2) this] wal_ok [of "dir s'", OF m1(2)] show ?thesis
      by (intro stableI)
  next
    case failed
    then show ?thesis using failed' that(2) by blast
  qed
  from code show ?thesis
  proof (cases rule: andthen_cases)
    case (ret rd s2)
    from ret(1) T obtain fs es where s2: "s2 = ?s1\<lparr>files := fs, script := es\<rparr>"
      and fs: "map_of fs = (dir s)(SSTableFilename ?n @ ''.tmp'' := None, SSTableFilename ?n \<mapsto> sstable_file ?T)"
      and rd: "rd = ?rd"
      by (cases rule: compact_write_disk) auto
    note m1 = new [OF fs]
    let ?s3 = "s2\<lparr>sstables := [?rd]\<rparr>"
    have "map reader_path ?rs = map SSTableFilename (sst_numbers (dir s))"
      by (simp add: rs disk_readers_paths)
    with ret(2) have del: "compact_delete (map SSTableFilename (sst_numbers (dir s))) ?s3 = (r, s')"
      by (simp add: andthen_def compact_swap_def s2 rd)
    have "\<not> (\<exists>e. r = Throw e)"
      using compact_delete_no_throw [of _ ?s3] del by (metis fst_conv)
    with reliable have "no_failure (script ?s1)" by simp
    then have nf: "no_failure (script ?s3)"
      using consumes_no_failure [OF consumes_compact_write ret(1)] by simp
    have d3: "sst_numbers (dir ?s3) = sst_numbers (dir s) @ [?n]" "dir_ok (dir ?s3)"
      using m1 by (simp_all add: s2)
    from compact_delete_outcome [OF del d3 nf] obtain i fs' es' where
      s': "s' = ?s3\<lparr>files := fs', script := es'\<rparr>" and i: "i \<le> length (sst_numbers (dir s))"
      and d: "sst_numbers (map_of fs') = drop i (sst_numbers (dir s)) @ [?n]"
        "disk_readers (map_of fs') = drop i (disk_readers (dir ?s3))" "dir_ok (map_of fs')"
        "map_of fs' wal_path = dir s wal_path"
      and done': "r = Ret () \<longrightarrow> i = length (sst_numbers (dir s))"
      using m1(2) by (auto simp: s2)
    have len: "length ?rs = length (sst_numbers (dir s))" by (simp add: rs disk_readers_def)
    have readers: "disk_readers (map_of fs') = drop i ?rs @ [?rd]"
      using i len m1(4) d(2) by (simp add: s2)
    note disk = compacted_directory [OF good room m(2,3) T d(3,4,1) readers]
    have st: "stable (files s') (db_view s)"
      using disk wal_ok [of "map_of fs'", OF d(4)] by (intro stableI) (simp_all add: s')
    have "db_good s'" if "r = Ret ()"
    proof -
      have "\<forall>k \<in> set (sst_numbers (map_of fs')). k < ?n + 1"
        using d(1) done' that next_number_greater [OF room] by (simp del: set_sst_numbers)
      moreover have "disk_readers (map_of fs') = [?rd]"
        using readers done' that len by simp
      moreover have "dir s' = map_of fs'" "sstables s' = [?rd]" "next_sstable_number s' = ?n + 1"
        "memtable s' = memtable s"
        by (simp_all add: s' s2)
      moreover have "wal_content (map_of fs') = wal_content (dir s)" "map_of fs' wal_path \<noteq> None"
        using good d(4) by (simp_all add: wal_content_def db_good_def)
      moreover have "clean_log (wal_content (dir s))" "table_ok (table (memtable s))"
        "memtable s = memtable_run (map record_op (records (wal_content (dir s)))) MemTable_init"
        using good unfolding db_good_def by blast+
      ultimately show ?thesis
        using d(3) unfolding db_good_def by simp
    qed
    moreover have "length (sstables s') = 1" by (simp add: s')
    ultimately show ?thesis
      using st wal_ok [of "map_of fs'", OF d(4)] disk(2) by (auto simp: s' db_good_view)
  next
    case (throw e)
    with unreturned [OF throw(1)] show ?thesis by simp
  next
    case killed
    with unreturned [OF killed(1)] show ?thesis by simp
  qed
qed


section \<open>Runs of the compaction thread\<close>

lemma system_run_trans: "system_run c' ds c'' \<Longrightarrow> system_run c es c' \<Longrightarrow> system_run c (es @ ds) c''"
proof (induction rule: system_run.induct)
  case (start c')
  then show ?case by simp
next
  case (step c' ds d e d')
  from system_run.step [OF step.IH [OF step.prems] step.hyps(2)] show ?case by simp
qed

lemma system_run_first: "system_step c e c' \<Longrightarrow> system_run c' es c'' \<Longrightarrow> system_run c (e # es) c''"
  using system_run_trans [of c' es c'' c "[e]"] system_run.step [OF system_run.start, of c e c'] by simp

lemma delete_run:
  "compact_delete paths s = (Ret (), s') \<Longrightarrow>
     system_run (s, Deleting paths) (replicate (Suc (length paths)) Compactor) (s', Idle)"
proof (induction paths arbitrary: s)
  case Nil
  then have "s' = s" by simp
  then show ?case
    using system_run_first [OF system_step.finished system_run.start] by simp
next
  case (Cons p ps)
  from Cons.prems obtain b s1 where s1: "sys_remove p s = (Ret b, s1)" "compact_delete ps s1 = (Ret (), s')"
    by (auto simp: andthen_Ret)
  from system_run_first [OF system_step.delete [OF s1(1)] Cons.IH [OF s1(2)]] show ?case by simp
qed

lemma write_steps_run:
  "write_steps (calls_left j) j s = (Ret j', s') \<Longrightarrow> writing j \<noteq> None \<Longrightarrow> output_fits (s, j) \<Longrightarrow>
     system_run (s, j) (replicate (calls_left j) Compactor) (s', j')"
proof (induction "calls_left j" arbitrary: j s)
  case 0
  then show ?case by (cases j) simp_all
next
  case (Suc k)
  from Suc.prems(1) obtain j1 s1 where step: "write_step j s = (Ret j1, s1)"
    and rest: "write_steps k j1 s1 = (Ret j', s')"
    by (auto simp: Suc.hyps(2) [symmetric] andthen_Ret)
  from Suc.prems(2) obtain n merged number where "writing j = Some (n, merged, number)" by auto
  note calls = write_step_calls [OF step this]
  then have k: "k = calls_left j1" using Suc.hyps(2) by simp
  have fits: "output_fits (s1, j1)" using calls by (cases j1) simp_all
  have "system_run (s1, j1) (replicate k Compactor) (s', j')"
  proof (cases "writing j1 = None")
    case True
    then have "k = 0" using calls k by auto
    with rest show ?thesis by (auto intro: system_run.start)
  next
    case False
    with Suc.hyps(1) [OF k _ False fits] rest k show ?thesis by simp
  qed
  with system_run_first [OF system_step.write_call [OF Suc.prems(2,3) step]] Suc.hyps(2) show ?case
    by (metis replicate_Suc)
qed

lemma compact_write_run:
  fixes s s' :: database
  assumes "compact_write number merged s = (Ret reader, s')" and "length (sstable_image merged) < 2 ^ 64"
  shows "system_run (s, Allocated n merged number) (replicate 7 Compactor) (s', Written n reader)"
proof -
  have "write_steps 7 (Allocated n merged number) s = (Ret (Written n reader), s')"
    using assms(1) by (simp add: write_steps_in_a_row andthen_step ret_def)
  with write_steps_run [of "Allocated n merged number"] assms(2) show ?thesis by simp
qed

lemma compact_write_proceeds:
  assumes idle: "script s = []" and T: "table_ok merged"
  shows "\<exists>fs. compact_write n merged s = (Ret (reader_for (SSTableFilename n) merged), s\<lparr>files := fs\<rparr>) \<and>
    map_of fs = (dir s)(SSTableFilename n @ ''.tmp'' := None, SSTableFilename n \<mapsto> sstable_file merged)"
proof -
  obtain fs where w: "WriteSSTable (SSTableFilename n) merged s = (Ret (), s\<lparr>files := fs\<rparr>)"
    and fs: "map_of fs = (dir s)(SSTableFilename n @ ''.tmp'' := None, SSTableFilename n \<mapsto> sstable_file merged)"
    using WriteSSTable_proceeds [OF idle] by blast
  have "SSTableReader_open (SSTableFilename n) (s\<lparr>files := fs\<rparr>)
      = (Ret (reader_for (SSTableFilename n) merged), s\<lparr>files := fs\<rparr>)"
    using SSTableReader_open_proceeds [of "s\<lparr>files := fs\<rparr>" "SSTableFilename n" "sstable_file merged"] idle T
    by (simp add: fs sstable_file_def sstable_parse_image)
  with w have "compact_write n merged s = (Ret (reader_for (SSTableFilename n) merged), s\<lparr>files := fs\<rparr>)"
    by (simp add: compact_write_def andthen_def)
  with fs show ?thesis by blast
qed

lemma compact_delete_proceeds: "script s = [] \<Longrightarrow> \<exists>s'. compact_delete ps s = (Ret (), s')"
proof (induction ps arbitrary: s)
  case Nil
  then show ?case by simp
next
  case (Cons p ps)
  from Cons.IH [of "s\<lparr>files := AList.delete p (files s)\<rparr>"] Cons.prems show ?case
    by (simp add: sys_remove_def andthen_def syscall_proceeds)
qed

end
