(* ===== verification/Compaction_Faults.thy ===== *)
theory Compaction_Faults
  imports Compaction_Disk
begin

text \<open>
  Compaction and its environment: what compaction guarantees on its own, and two ways in
  which it does not keep what the engine acknowledged.
\<close>

section \<open>Two tables and a pending request\<close>

text \<open>The inputs of this theory: an empty log and two tables, the second the newer one.\<close>

definition two_tables ::
  "u64 \<Rightarrow> nat \<Rightarrow> io_event list \<Rightarrow> (bytes \<times> Entry) list \<Rightarrow> (bytes \<times> Entry) list \<Rightarrow> database" where
  "two_tables th tr es T1 T2 =
     (Database_init th tr
        [(SSTableFilename 2, sstable_file T2), (SSTableFilename 1, sstable_file T1),
         (wal_path, \<lparr>content = [], synced = 0\<rparr>)] es)
     \<lparr>sstables := [reader_for (SSTableFilename 1) T1, reader_for (SSTableFilename 2) T2],
      next_sstable_number := 3, compaction_requested := True\<rparr>"

lemma two_tables_good:
  assumes T1: "table_ok T1" and T2: "table_ok T2"
  shows "db_good (two_tables th tr es T1 T2)" and "wal_durable (dir (two_tables th tr es T1 T2))"
    and "wal_content (dir (two_tables th tr es T1 T2)) = []"
    and "sst_numbers (dir (two_tables th tr es T1 T2)) = [1, 2]"
proof -
  let ?f = "\<lparr>content = [], synced = 0\<rparr>"
  let ?d0 = "map_of [(wal_path, ?f)]"
  let ?d1 = "?d0(SSTableFilename 1 \<mapsto> sstable_file T1)"
  let ?d2 = "?d1(SSTableFilename 2 \<mapsto> sstable_file T2)"
  have d: "dir (two_tables th tr es T1 T2) = ?d2"
    by (simp add: two_tables_def Database_init_def)
  have "?d0 = [wal_path \<mapsto> ?f]" by simp
  then have ok0: "dir_ok ?d0" and n0: "sst_numbers ?d0 = []"
    using no_table_wal by blast+
  have r0: "disk_readers ?d0 = []" by (simp only: disk_readers_def n0 list.map)
  have above0: "\<forall>k \<in> set (sst_numbers ?d0). k < 1" unfolding n0 by simp
  have n1: "sst_numbers ?d1 = [1]" and r1: "disk_readers ?d1 = [reader_for (SSTableFilename 1) T1]"
    using sst_numbers_new [OF above0] disk_readers_new [OF above0 T1] unfolding n0 r0 by simp_all
  have above1: "\<forall>k \<in> set (sst_numbers ?d1). k < 2" unfolding n1 by simp
  have n2: "sst_numbers ?d2 = [1, 2]"
    and r2: "disk_readers ?d2 = [reader_for (SSTableFilename 1) T1, reader_for (SSTableFilename 2) T2]"
    using sst_numbers_new [OF above1] disk_readers_new [OF above1 T2] unfolding n1 r1 by simp_all
  have ok: "dir_ok ?d2" using ok0 T1 T2 by (intro dir_ok_upd_table)
  have above2: "\<forall>k \<in> set (sst_numbers ?d2). k < 3" unfolding n2 by simp
  have wal: "wal_content ?d2 = []" by (simp add: wal_content_def)
  then show "wal_content (dir (two_tables th tr es T1 T2)) = []" unfolding d .
  show "sst_numbers (dir (two_tables th tr es T1 T2)) = [1, 2]" unfolding d by (rule n2)
  show "wal_durable (dir (two_tables th tr es T1 T2))"
    unfolding d by (simp add: wal_durable_def)
  have mt: "memtable (two_tables th tr es T1 T2) = MemTable_init"
    "next_sstable_number (two_tables th tr es T1 T2) = 3"
    "sstables (two_tables th tr es T1 T2) = disk_readers ?d2"
    unfolding r2 by (simp_all add: two_tables_def Database_init_def)
  show "db_good (two_tables th tr es T1 T2)"
    unfolding db_good_def d mt wal using ok above2
    by (simp add: table_ok_def sstable_image_eq index_section_def sampled_def samples_def del: set_sst_numbers)
qed

lemma two_tables_view:
  assumes "table_ok T1" and "table_ok T2"
  shows "db_view (two_tables th tr es T1 T2) = live_store (map_of T1 ++ map_of T2)"
  using assms by (simp add: db_view_def db_entries_def two_tables_def Database_init_def layered_Cons table_ok_def)

text \<open>The merge of given tables is whatever sorted table has their content.\<close>

lemma compact_merge_eq:
  assumes "\<forall>r \<in> set rs. reader_ok r" and "sorted_keys m" and "map_of m = run_layers rs"
  shows "compact_merge rs = Inr (drop_tombstones m)"
proof -
  obtain m' where m': "compact_merge rs = Inr (drop_tombstones m')" "sorted_keys m'" "map_of m' = run_layers rs"
    using compact_merge_ok [OF assms(1)] by metis
  have "m' = m" by (rule sorted_keys_unique) (simp_all add: m' assms)
  with m'(1) show ?thesis by simp
qed

section \<open>A flush between the snapshot and the number\<close>

text \<open>
  The compaction thread snapshots, a client's update flushes, and the thread goes on to the
  end without any failure.
\<close>

definition racing_events :: "kv_op \<Rightarrow> nat \<Rightarrow> event list" where
  "racing_events x n =
     [Compactor, Compactor, Client x (Ret ()), Compactor] @ replicate 7 Compactor @ [Compactor] @
     replicate (Suc n) Compactor"

lemma racing_compaction:
  fixes s :: database
  assumes good: "db_good s" "wal_durable (dir s)" and idle: "script s = []"
    and asked: "compaction_requested s" "2 \<le> length (sstables s)"
    and room: "next_sstable_number s < - 2" and fits: "op_fits x s"
    and full: "flush_threshold_bytes s \<le> approximate_size_bytes (memtable_op x (memtable s))"
    and merged: "compact_merge (sstables s) = Inr merged" "table_ok merged"
  shows "\<exists>s'. system_run (s, Idle) (racing_events x (length (sstables s))) (s', Idle) \<and>
    recoverable (dir s') \<and> wal_content (dir s') = [] \<and>
    disk_readers (dir s') =
      [reader_for (SSTableFilename (next_sstable_number s)) (table (memtable_op x (memtable s))),
       reader_for (SSTableFilename (next_sstable_number s + 1)) merged]"
proof -
  let ?n = "next_sstable_number s" and ?rs = "sstables s" and ?T = "table (memtable_op x (memtable s))"
  let ?s1 = "s\<lparr>compaction_requested := False\<rparr>"
  have good1: "db_good ?s1" "wal_durable (dir ?s1)" "script ?s1 = []" "op_fits x ?s1"
    "flush_threshold_bytes ?s1 \<le> approximate_size_bytes (memtable_op x (memtable ?s1))"
    using good idle fits full by (auto simp: db_good_def op_fits_def)
  from Database_op_flushes [OF good1(3,1,4,5)] obtain s2 where op: "Database_op x ?s1 = (Ret (), s2)"
    and s2: "script s2 = []" "sstables s2 = ?rs @ [reader_for (SSTableFilename ?n) ?T]"
      "next_sstable_number s2 = ?n + 1" "memtable s2 = MemTable_init" "wal_content (dir s2) = []"
    by auto
  from op_outcome [OF op good1(1,2,4)] have good2: "db_good s2" by simp
  let ?s3 = "s2\<lparr>next_sstable_number := ?n + 1 + 1\<rparr>"
  have alloc: "compact_allocate s2 = (Ret (?n + 1), ?s3)" by (simp add: compact_allocate_def s2)
  have idle3: "script ?s3 = []" by (simp add: s2)
  let ?rd = "reader_for (SSTableFilename (?n + 1)) merged"
  from compact_write_proceeds [OF idle3 merged(2), of "?n + 1"] obtain fs
    where wr: "compact_write (?n + 1) merged ?s3 = (Ret ?rd, ?s3\<lparr>files := fs\<rparr>)"
      and fs: "map_of fs = (dir s2)(SSTableFilename (?n + 1) @ ''.tmp'' := None,
        SSTableFilename (?n + 1) \<mapsto> sstable_file merged)"
    by auto
  let ?s4 = "?s3\<lparr>files := fs\<rparr>"
  let ?s5 = "?s4\<lparr>sstables := [?rd, reader_for (SSTableFilename ?n) ?T]\<rparr>"
  have swap: "compact_swap (length ?rs) ?rd ?s4 = (Ret (map reader_path ?rs), ?s5)"
    by (simp add: compact_swap_def s2)
  from compact_delete_proceeds [of ?s5 "map reader_path ?rs"] s2(1) obtain s6
    where del: "compact_delete (map reader_path ?rs) ?s5 = (Ret (), s6)"
    by auto
  have image: "length (sstable_image merged) < 2 ^ 64" using merged(2) by (simp add: table_ok_def)
  have snap: "system_step (?s1, Started) Compactor (?s1, Merged (length ?rs) merged)"
    using system_step.snapshot [of ?s1 merged] asked(2) merged(1) by simp
  have run: "system_run (s, Idle) (racing_events x (length ?rs)) (s6, Idle)"
    using system_run_first [OF system_step.take_up [OF asked(1)]
      system_run_first [OF snap
      system_run_first [OF system_step.client [OF op good1(4)]
      system_run_first [OF system_step.allocate [OF alloc]
      system_run_trans [OF system_run_first [OF system_step.swap [OF swap] delete_run [OF del]]
        compact_write_run [OF wr image]]]]]]
    by (simp add: racing_events_def)
  have disk: "?rs = disk_readers (dir s)" using good(1) by (simp add: db_good_def)
  have disk2: "?rs @ [reader_for (SSTableFilename ?n) ?T] = disk_readers (dir s2)"
    using good2 s2(2) by (simp add: db_good_def)
  have above: "\<forall>k \<in> set (sst_numbers (dir s2)). k < ?n + 1" and ok2: "dir_ok (dir s2)"
    using good2 s2(3) by (simp_all add: db_good_def)
  note new = table_added [OF ok2 above merged(2) fs]
  have numbers2: "map SSTableFilename (sst_numbers (dir s2)) = map SSTableFilename (sst_numbers (dir s) @ [?n])"
    using arg_cong [OF disk2, of "map reader_path"] disk
    by (simp add: disk_readers_paths reader_index_simps)
  have numbers: "sst_numbers (dir s2) = sst_numbers (dir s) @ [?n]"
    by (rule map_injective [OF numbers2]) (simp add: inj_on_def)
  have del': "compact_delete (map SSTableFilename (sst_numbers (dir s))) ?s5 = (Ret (), s6)"
    using del disk by (simp add: disk_readers_paths)
  have pre: "sst_numbers (dir ?s5) = sst_numbers (dir s) @ [?n, ?n + 1]" "dir_ok (dir ?s5)"
    "no_failure (script ?s5)"
    using new numbers s2(1) by (simp_all add: no_failure_def)
  from compact_delete_outcome [OF del' pre] obtain fs' es' where s6: "s6 = ?s5\<lparr>files := fs', script := es'\<rparr>"
    and out: "sst_numbers (map_of fs') = [?n, ?n + 1]"
      "disk_readers (map_of fs') = drop (length (sst_numbers (dir s))) (disk_readers (dir ?s5))"
      "dir_ok (map_of fs')" "map_of fs' wal_path = dir ?s5 wal_path"
    by auto
  have len: "length (sst_numbers (dir s)) = length ?rs" using disk by (simp add: disk_readers_def)
  have readers: "disk_readers (map_of fs') = [reader_for (SSTableFilename ?n) ?T, ?rd]"
    using out(2) new(4) by (simp add: disk2 [symmetric] len)
  have wal: "wal_content (map_of fs') = []"
    using out(4) new(2) s2(5) by (simp add: wal_content_def)
  have nums: "?n < - 1" "?n + 1 < - 1"
    using room by (auto simp: word_less_nat_alt unat_plus_if' unsigned_minus_1_eq_mask mask_eq_exp_minus_1)
  have "recoverable (map_of fs')"
    unfolding recoverable_def out(1) wal using nums out(3)
    by (simp add: table_ok_def sstable_image_eq index_section_def sampled_def samples_def)
  with run readers wal show ?thesis by (intro exI [of _ s6]) (simp add: s6)
qed

text \<open>The merged table of a state whose merge fits.\<close>

lemma compaction_merged:
  assumes good: "db_good s" and fits: "compaction_fits s"
  obtains merged where "compact_merge (sstables s) = Inr merged" and "table_ok merged"
    and "live_store (map_of merged) = live_store (run_layers (sstables s))"
proof -
  have "\<forall>r \<in> set (sstables s). reader_ok r"
    using good disk_readers_ok [of "dir s"] by (auto simp: db_good_def)
  from compact_merge_ok [OF this] obtain m where m: "compact_merge (sstables s) = Inr (drop_tombstones m)"
    "sorted_keys m" "map_of m = run_layers (sstables s)" "sorted_keys (drop_tombstones m)"
    "\<forall>p \<in> set (drop_tombstones m). entry_fits p"
    by metis
  have "table_ok (drop_tombstones m)"
    using fits m by (simp add: compaction_fits_def table_ok_def)
  moreover have "live_store (map_of (drop_tombstones m)) = live_store (run_layers (sstables s))"
    using compacted_layers(1) [OF m(2,3), of Map.empty] by simp
  ultimately show ?thesis using that m(1) by blast
qed

section \<open>An old file that cannot be removed\<close>

lemma removed_tables:
  assumes m': "m' = (\<lambda>x. if x \<in> SSTableFilename ` A then None else m x)"
  shows "sst_numbers m' = filter (\<lambda>n. n \<notin> A) (sst_numbers m)"
    and "disk_readers m' = map (\<lambda>n. reader_for (SSTableFilename n) (table_at m n)) (filter (\<lambda>n. n \<notin> A) (sst_numbers m))"
    and "dir_ok m \<Longrightarrow> dir_ok m'"
proof -
  have present: "m' (SSTableFilename n) = (if n \<in> A then None else m (SSTableFilename n))" for n
    by (auto simp: m')
  have "sorted_wrt (<) (filter (\<lambda>n. n \<notin> A) (sst_numbers m))"
    by (intro sorted_wrt_filter) (simp add: sst_numbers_def)
  moreover have "sorted_wrt (<) (sst_numbers m')" by (simp add: sst_numbers_def)
  moreover have "set (sst_numbers m') = set (filter (\<lambda>n. n \<notin> A) (sst_numbers m))"
    by (auto simp: present split: if_splits)
  ultimately show n: "sst_numbers m' = filter (\<lambda>n. n \<notin> A) (sst_numbers m)"
    by (metis strict_sorted_equal)
  show "disk_readers m' = map (\<lambda>n. reader_for (SSTableFilename n) (table_at m n)) (filter (\<lambda>n. n \<notin> A) (sst_numbers m))"
    unfolding disk_readers_def n by (intro map_cong) (auto simp: table_at_def present)
  show "dir_ok m'" if "dir_ok m"
    by (rule dir_ok_subset [OF that]) (auto simp: m' split: if_splits)
qed

lemma compact_delete_files:
  "script s = [] \<Longrightarrow> \<exists>fs. compact_delete ps s = (Ret (), s\<lparr>files := fs\<rparr>) \<and>
     map_of fs = (\<lambda>x. if x \<in> set ps then None else dir s x)"
proof (induction ps arbitrary: s)
  case Nil
  then show ?case by (intro exI [of _ "files s"]) simp
next
  case (Cons p ps)
  let ?s1 = "s\<lparr>files := AList.delete p (files s)\<rparr>"
  from Cons.IH [of ?s1] Cons.prems obtain fs where fs: "compact_delete ps ?s1 = (Ret (), ?s1\<lparr>files := fs\<rparr>)"
    "map_of fs = (\<lambda>x. if x \<in> set ps then None else dir ?s1 x)"
    by auto
  have "compact_delete (p # ps) s = compact_delete ps ?s1"
    using Cons.prems by (simp add: sys_remove_def andthen_def syscall_proceeds)
  with fs show ?case
    by (intro exI [of _ fs]) (auto simp: delete_conv' fun_eq_iff)
qed

text \<open>
  All calls of the compaction succeed, except the first removal: the oldest table stays,
  below the merged one, from which the tombstones are gone.
\<close>

lemma compaction_leaves_oldest:
  fixes s :: "'x database_scheme"
  assumes good: "db_good s" and idle: "script s = []" and fits: "compaction_fits s"
    and two: "2 \<le> length (sstables s)"
    and merged: "compact_merge (sstables s) = Inr merged" "table_ok merged"
  shows "\<exists>i s'. CompactOnce (s\<lparr>script := replicate i Proceed @ [Io_error]\<rparr>) = (Ret (), s') \<and>
    recoverable (dir s') \<and> wal_content (dir s') = wal_content (dir s) \<and>
    disk_readers (dir s') = [hd (sstables s), reader_for (SSTableFilename (next_sstable_number s)) merged] \<and>
    sstables s' = [reader_for (SSTableFilename (next_sstable_number s)) merged] \<and> memtable s' = memtable s"
proof -
  let ?n = "next_sstable_number s" and ?rs = "sstables s"
  let ?rd = "reader_for (SSTableFilename ?n) merged"
  let ?s1 = "s\<lparr>next_sstable_number := ?n + 1\<rparr>"
  have idle1: "script ?s1 = []" using idle by simp
  have room: "?n < - 1" using fits by (simp add: compaction_fits_def)
  obtain fs where wr: "compact_write ?n merged ?s1 = (Ret ?rd, ?s1\<lparr>files := fs\<rparr>)"
    and fs: "map_of fs = (dir s)(SSTableFilename ?n @ ''.tmp'' := None, SSTableFilename ?n \<mapsto> sstable_file merged)"
    using compact_write_proceeds [OF idle1 merged(2), of ?n] by auto
  have "reliable (compact_write ?n merged :: ('x database_scheme, SSTableReader) prog)"
    unfolding compact_write_def
    by (intro reliable_andthen reliable_WriteSSTable reliable_SSTableReader_open)
  from reliableD [OF this idle1 wr] obtain i where
    i: "\<And>rest. compact_write ?n merged (?s1\<lparr>script := replicate i Proceed @ rest\<rparr>)
        = (Ret ?rd, ?s1\<lparr>files := fs, script := rest\<rparr>)"
    by auto
  have disk: "?rs = disk_readers (dir s)" using good by (simp add: db_good_def)
  obtain n0 ns where numbers: "sst_numbers (dir s) = n0 # ns"
    using two disk by (cases "sst_numbers (dir s)") (simp_all add: disk_readers_def)
  have paths: "map reader_path ?rs = SSTableFilename n0 # map SSTableFilename ns"
    by (simp add: disk disk_readers_paths numbers)
  let ?s3 = "?s1\<lparr>files := fs, sstables := [?rd], script := []\<rparr>"
  obtain gs where del: "compact_delete (map SSTableFilename ns) ?s3 = (Ret (), ?s3\<lparr>files := gs\<rparr>)"
    and gs: "map_of gs = (\<lambda>x. if x \<in> SSTableFilename ` set ns then None else map_of fs x)"
    using compact_delete_files [of ?s3 "map SSTableFilename ns"] by (auto cong: if_cong)
  let ?s' = "?s3\<lparr>files := gs\<rparr>"
  have commute: "s\<lparr>script := es, next_sstable_number := ?n + 1\<rparr> = ?s1\<lparr>script := es\<rparr>" for es
    by simp
  have i': "compact_write ?n merged (s\<lparr>script := replicate i Proceed @ [Io_error], next_sstable_number := ?n + 1\<rparr>)
      = (Ret ?rd, ?s1\<lparr>files := fs, script := [Io_error]\<rparr>)"
    unfolding commute by (rule i)
  have run: "CompactOnce (s\<lparr>script := replicate i Proceed @ [Io_error]\<rparr>) = (Ret (), ?s')"
    using two merged(1) i' paths del
    by (simp add: CompactOnce_def Let_def andthen_def lift_def compact_allocate_def compact_swap_def
        sys_remove_def syscall_def next_event_def)
  have above: "\<forall>k \<in> set (sst_numbers (dir s)). k < ?n" and ok: "dir_ok (dir s)"
    using good by (simp_all add: db_good_def)
  note new = table_added [OF ok above merged(2) fs]
  note gone = removed_tables [OF gs]
  have "n0 \<notin> set ns" using numbers by (metis distinct.simps(2) sst_numbers_def distinct_sorted_list_of_set)
  moreover have "?n \<notin> set ns" using above numbers by (metis less_irrefl list.set_intros(2))
  ultimately have left: "filter (\<lambda>n. n \<notin> set ns) (sst_numbers (map_of fs)) = [n0, ?n]"
    unfolding new(3) numbers by simp
  have readers: "map (\<lambda>n. reader_for (SSTableFilename n) (table_at (map_of fs) n)) (n0 # ns @ [?n]) = ?rs @ [?rd]"
    using new(4) unfolding disk_readers_def new(3) numbers disk by simp
  have d: "disk_readers (map_of gs) = [hd ?rs, ?rd]"
    unfolding gone(2) left using readers two by (cases ?rs) auto
  have wal: "wal_content (map_of gs) = wal_content (dir s)"
    using new(2) by (auto simp: wal_content_def gs)
  have "sst_numbers (map_of gs) = [n0, ?n]" unfolding gone(1) left ..
  moreover have "n0 < - 1" using above numbers room by (metis less_trans list.set_intros(1))
  ultimately have "recoverable (map_of gs)"
    using gone(3) [OF new(1)] room db_good_recoverable [OF good] wal
    by (simp add: recoverable_def del: set_sst_numbers)
  with run d wal show ?thesis by (intro exI [of _ i] exI [of _ ?s']) simp
qed

section \<open>Properties\<close>


text \<open>
  C6. A flush between a compaction's snapshot and its number loses an acknowledged update:
  the flushed table has the smaller number, so after a restart the compacted table, which
  does not contain the update, counts as the newer one. Every call succeeds, the update
  returns and is readable until the process ends; the next process reads the old value.
\<close>

theorem interleaved_compaction_loses_write:
  assumes "db_good s" and "wal_durable (dir s)" and "script s = []"
    and "compaction_requested s" and "2 \<le> length (sstables s)" and "compaction_fits s"
    and "next_sstable_number s < - 2" and "op_fits x s"
    and "flush_threshold_bytes s \<le> approximate_size_bytes (memtable_op x (memtable s))"
    and "live_store (run_layers (sstables s)) (op_key x) = Some old"
  shows "\<exists>s' s''.
    system_run (s, Idle) (racing_events x (length (sstables s))) (s', Idle) \<and>
    Database_get s' (op_key x) = Inr (store_op x (db_view s) (op_key x)) \<and>
    Database_construct (Database_init th tr (files s') []) = (Ret (), s'') \<and>
    Database_get s'' (op_key x) = Inr (Some old)"
proof -
  obtain merged where m: "compact_merge (sstables s) = Inr merged" "table_ok merged"
    "live_store (map_of merged) = live_store (run_layers (sstables s))"
    using compaction_merged [OF assms(1,6)] by blast
  obtain s' where run: "system_run (s, Idle) (racing_events x (length (sstables s))) (s', Idle)"
    and ok: "recoverable (dir s')" and wal: "wal_content (dir s') = []"
    and readers: "disk_readers (dir s') =
      [reader_for (SSTableFilename (next_sstable_number s)) (table (memtable_op x (memtable s))),
       reader_for (SSTableFilename (next_sstable_number s + 1)) merged]"
    using racing_compaction [OF assms(1-5,7-9) m(1,2)] by blast
  have all_ret: "\<forall>y r. Client y r \<in> set (racing_events x n) \<longrightarrow> r = Ret ()"
    and ops: "client_ops (racing_events x n) = [x]" for n
    by (auto simp: racing_events_def)
  have live: "live_ok s'" and view: "db_view s' = store_op x (db_view s)"
    using system_run_ok [OF run] db_good_live [OF assms(1)] all_ret ops by simp_all
  have memory: "Database_get s' (op_key x) = Inr (store_op x (db_view s) (op_key x))"
    using Database_get_view [OF live_ok_reads [OF live]] view by simp
  have "live_store (map_of merged) (op_key x) = Some old" using m(3) assms(10) by simp
  then have "disk_store (dir s') (op_key x) = Some old"
    using m(2) by (auto simp: disk_store_def wal readers layered_Cons live_store_def map_add_def
        table_ok_def split: option.splits)
  moreover obtain r s'' where call: "Database_construct (Database_init th tr (files s') []) = (r, s'')" by force
  moreover from Database_construct_outcome [OF call ok]
  have new: "r = Ret ()" "db_good s''" "db_view s'' = disk_store (dir s')" by simp_all
  ultimately have "Database_get s'' (op_key x) = Inr (Some old)"
    using Database_get_view [OF db_good_reads [OF new(2)]] by simp
  with run memory call new(1) show ?thesis by blast
qed

text \<open>
  C14. A file that cannot be removed brings a deleted key back: when the oldest table holds a
  value, a newer one its tombstone and only the removal of the oldest file fails (the code
  ignores the error), the compaction returns normally and the key reads as deleted, but the
  tombstone is gone from the disk and the next process reads the old value.
\<close>

theorem unremoved_table_resurrects:
  assumes "db_good s" and "script s = []" and "compaction_fits s" and "2 \<le> length (sstables s)"
    and "wal_content (dir s) = []"
    and "map_of (reader_entries (hd (sstables s))) k = Some (put_entry old)" and "db_view s k = None"
  shows "\<exists>i s' s''. CompactOnce (s\<lparr>script := replicate i Proceed @ [Io_error]\<rparr>) = (Ret (), s') \<and>
    Database_get s' k = Inr None \<and>
    Database_construct (Database_init th tr (files s') []) = (Ret (), s'') \<and>
    Database_get s'' k = Inr (Some old)"
proof -
  obtain merged where m: "compact_merge (sstables s) = Inr merged" "table_ok merged"
    "live_store (map_of merged) = live_store (run_layers (sstables s))"
    using compaction_merged [OF assms(1,3)] by blast
  obtain i s' where run: "CompactOnce (s\<lparr>script := replicate i Proceed @ [Io_error]\<rparr>) = (Ret (), s')"
    and ok: "recoverable (dir s')" and wal: "wal_content (dir s') = []"
    and readers: "disk_readers (dir s') = [hd (sstables s), reader_for (SSTableFilename (next_sstable_number s)) merged]"
    and mem: "sstables s' = [reader_for (SSTableFilename (next_sstable_number s)) merged]" "memtable s' = memtable s"
    using compaction_leaves_oldest [OF assms(1-4) m(1,2)] assms(5) by metis
  have empty: "table (memtable s) = []" using assms(1,5) by (simp add: db_good_def)
  have gone: "map_of merged k = None"
  proof -
    have "live_store (map_of merged) k = None"
      using m(3) assms(7) empty by (simp add: db_view_def db_entries_def)
    moreover obtain m0 where "merged = drop_tombstones m0"
      using m(1) by (auto simp: compact_merge_def split: sum.splits)
    then have "\<forall>e. map_of merged k = Some e \<longrightarrow> \<not> is_tombstone e"
      by (auto simp: drop_tombstones_filter dest: map_of_SomeD)
    ultimately show ?thesis by (cases "map_of merged k") (auto simp: live_store_def live_def)
  qed
  have sorted: "sorted_keys merged" "\<forall>p \<in> set merged. entry_fits p" using m(2) by (simp_all add: table_ok_def)
  have reads: "reads_ok s'" using sorted empty by (simp add: reads_ok_def mem)
  have "db_view s' k = None"
    using sorted gone by (simp add: db_view_def db_entries_def mem empty layered_Cons live_store_def)
  then have memory: "Database_get s' k = Inr None" by (simp add: Database_get_view [OF reads])
  have disk: "disk_store (dir s') k = Some old"
    using sorted gone assms(6)
    by (simp add: disk_store_def wal readers layered_Cons live_store_def map_add_def)
  obtain r s'' where call: "Database_construct (Database_init th tr (files s') []) = (r, s'')" by force
  from Database_construct_outcome [OF call ok]
  have new: "r = Ret ()" "db_good s''" "db_view s'' = disk_store (dir s')" by simp_all
  have "Database_get s'' k = Inr (Some old)"
    by (simp add: Database_get_view [OF db_good_reads [OF new(2)]] new(3) disk)
  with run memory call new(1) show ?thesis by blast
qed

text \<open>
  C16. A compaction returns when no call fails: neither the merge, nor the write, nor the
  removals can throw on the tables of an engine in a good state.
\<close>

theorem compaction_returns:
  assumes "db_good s" and "script s = []" and "compaction_fits s"
  shows "fst (CompactOnce s) = Ret ()"
proof (cases "length (sstables s) < 2")
  case True
  then show ?thesis by (simp add: CompactOnce_def ret_def)
next
  case False
  obtain merged where m: "compact_merge (sstables s) = Inr merged" "table_ok merged"
    using compaction_merged [OF assms(1,3)] by blast
  let ?n = "next_sstable_number s" and ?s1 = "s\<lparr>next_sstable_number := next_sstable_number s + 1\<rparr>"
  obtain fs rd where wr: "compact_write ?n merged ?s1 = (Ret rd, ?s1\<lparr>files := fs\<rparr>)"
    using compact_write_proceeds [of ?s1 merged ?n] assms(2) m(2) by auto
  let ?s2 = "?s1\<lparr>files := fs, sstables := [rd]\<rparr>"
  obtain s' where "compact_delete (map reader_path (sstables s)) ?s2 = (Ret (), s')"
    using compact_delete_proceeds [of ?s2] assms(2) by auto
  with False m(1) wr show ?thesis
    by (simp add: CompactOnce_def Let_def andthen_def lift_def compact_allocate_def compact_swap_def)
qed

section \<open>Concrete inputs\<close>

lemma small_tables:
  "table_ok [([1], put_entry [7])]" "table_ok [([2], put_entry [8])]" "table_ok [([1], tombstone)]"
  "table_ok []" "table_ok [([1], put_entry [9])]"
  "table_ok [([1], put_entry [7]), ([2], put_entry [8])]"
  by (simp_all add: table_ok_def entry_fits_def sstable_image_eq entry_bytes_def length_EncodeRecord
      index_section_def sampled_def samples_def index_entry_bytes_def entry_type_def)

lemma small_merges:
  "compact_merge (sstables (two_tables th tr es [([1], put_entry [7])] [([2], put_entry [8])]))
     = Inr [([1], put_entry [7]), ([2], put_entry [8])]"
  "compact_merge (sstables (two_tables th tr es [([1], put_entry [7])] [([1], tombstone)])) = Inr []"
proof -
  let ?m = "[([1], put_entry [7]), ([2], put_entry [8])]" and ?n = "[([1], tombstone)]"
  have ok: "\<forall>r \<in> set (sstables (two_tables th tr es [([1], put_entry [7])] T)). reader_ok r"
    if "table_ok T" for T
    using that small_tables by (simp add: two_tables_def table_ok_def)
  have "map_of ?m = run_layers (sstables (two_tables th tr es [([1], put_entry [7])] [([2], put_entry [8])]))"
    using small_tables by (simp add: two_tables_def layered_Cons table_ok_def fun_eq_iff)
  from compact_merge_eq [OF ok [OF small_tables(2)] _ this] show
    "compact_merge (sstables (two_tables th tr es [([1], put_entry [7])] [([2], put_entry [8])])) = Inr ?m"
    by simp
  have "map_of ?n = run_layers (sstables (two_tables th tr es [([1], put_entry [7])] [([1], tombstone)]))"
    using small_tables by (simp add: two_tables_def layered_Cons table_ok_def fun_eq_iff)
  from compact_merge_eq [OF ok [OF small_tables(3)] _ this] show
    "compact_merge (sstables (two_tables th tr es [([1], put_entry [7])] [([1], tombstone)])) = Inr []"
    by simp
qed

lemma small_fits:
  "compaction_fits (two_tables th tr es [([1], put_entry [7])] [([2], put_entry [8])])"
  "compaction_fits (two_tables th tr es [([1], put_entry [7])] [([1], tombstone)])"
proof -
  have "(3 :: u64) < - 1"
    by (simp add: word_less_nat_alt unsigned_minus_1_eq_mask mask_eq_exp_minus_1)
  then show
    "compaction_fits (two_tables th tr es [([1], put_entry [7])] [([2], put_entry [8])])"
    "compaction_fits (two_tables th tr es [([1], put_entry [7])] [([1], tombstone)])"
    using small_tables unfolding compaction_fits_def small_merges
    by (simp_all add: table_ok_def) (simp_all add: two_tables_def)
qed

lemma small_put:
  "op_fits (Put [1] [9]) (two_tables 1 tr es T1 T2)"
  "flush_threshold_bytes (two_tables 1 tr es T1 T2)
     \<le> approximate_size_bytes (memtable_op (Put [1] [9]) (memtable (two_tables 1 tr es T1 T2)))"
proof -
  have "(3 :: u64) < - 1"
    by (simp add: word_less_nat_alt unsigned_minus_1_eq_mask mask_eq_exp_minus_1)
  then show "op_fits (Put [1] [9]) (two_tables 1 tr es T1 T2)"
    using small_tables(5) by (simp add: op_fits_def two_tables_def Database_init_def memtable_put_Upsert table_Upsert)
  show "flush_threshold_bytes (two_tables 1 tr es T1 T2)
     \<le> approximate_size_bytes (memtable_op (Put [1] [9]) (memtable (two_tables 1 tr es T1 T2)))"
    by (simp add: two_tables_def Database_init_def memtable_put_def Upsert_def MemTable_init_def EntrySize_def)
qed


theorem interleaved_compaction_loses_write_witness:
  "\<exists>s' s''. system_run (two_tables 1 2 [] [([1], put_entry [7])] [([2], put_entry [8])], Idle)
        (racing_events (Put [1] [9]) 2) (s', Idle) \<and>
    Database_get s' [1] = Inr (Some [9]) \<and>
    Database_construct (Database_init 1 2 (files s') []) = (Ret (), s'') \<and>
    Database_get s'' [1] = Inr (Some [7])"
proof -
  let ?s = "two_tables 1 2 [] [([1], put_entry [7])] [([2], put_entry [8])]"
  note good = two_tables_good [OF small_tables(1,2), of 1 2 "[]"]
  have len: "length (sstables ?s) = 2" and misc: "script ?s = []" "compaction_requested ?s"
    by (simp_all add: two_tables_def Database_init_def)
  then have two: "2 \<le> length (sstables ?s)" by simp
  have room: "next_sstable_number ?s < - 2"
    by (simp add: two_tables_def word_less_nat_alt)
  have old: "live_store (run_layers (sstables ?s)) (op_key (Put [1] [9])) = Some [7]"
    using small_tables by (simp add: two_tables_def layered_Cons table_ok_def live_store_def)
  from interleaved_compaction_loses_write [OF good(1,2) misc two small_fits(1) [of 1 2 "[]"] room small_put old, of 1 2]
  show ?thesis unfolding len by simp
qed

theorem interleaved_reads_correct_witness:
  "\<exists>s'. system_run (two_tables 1 2 [] [([1], put_entry [7])] [([2], put_entry [8])], Idle)
        (racing_events (Put [1] [9]) 2) (s', Idle) \<and>
    Database_get s' [1] = Inr (Some [9]) \<and> Database_get s' [2] = Inr (Some [8])"
proof -
  let ?s = "two_tables 1 2 [] [([1], put_entry [7])] [([2], put_entry [8])]"
  let ?es = "racing_events (Put [1] [9]) 2"
  note good = two_tables_good [OF small_tables(1,2), of 1 2 "[]"]
  have len: "length (sstables ?s) = 2" and misc: "script ?s = []" "compaction_requested ?s"
    and room: "next_sstable_number ?s < - 2"
    by (simp_all add: two_tables_def Database_init_def word_less_nat_alt)
  have two: "2 \<le> length (sstables ?s)" using len by simp
  obtain s' where run: "system_run (?s, Idle) ?es (s', Idle)"
    using racing_compaction [OF good(1,2) misc two room small_put small_merges(1) small_tables(6)]
    unfolding len by blast
  have ret: "\<forall>x r. Client x r \<in> set ?es \<longrightarrow> r = Ret ()" and ops: "client_ops ?es = [Put [1] [9]]"
    by (simp_all add: racing_events_def numeral_2_eq_2)
  note reads = interleaved_reads_correct [OF run good(1) ret]
  have "Database_get s' [1] = Inr (Some [9])" "Database_get s' [2] = Inr (Some [8])"
    using reads [of "[1]" "[]" "[]"] reads [of "[2]" "[]" "[]"]
    by (simp_all add: ops two_tables_view small_tables live_store_def)
  with run show ?thesis by blast
qed

theorem unremoved_table_resurrects_witness:
  "\<exists>i s' s''. CompactOnce ((two_tables 1 2 [] [([1], put_entry [7])] [([1], tombstone)])
        \<lparr>script := replicate i Proceed @ [Io_error]\<rparr>) = (Ret (), s') \<and>
    Database_get s' [1] = Inr None \<and>
    Database_construct (Database_init 1 2 (files s') []) = (Ret (), s'') \<and>
    Database_get s'' [1] = Inr (Some [7])"
proof -
  let ?s = "two_tables 1 2 [] [([1], put_entry [7])] [([1], tombstone)]"
  note good = two_tables_good [OF small_tables(1,3), of 1 2 "[]"]
  have "script ?s = []" "2 \<le> length (sstables ?s)"
    and "map_of (reader_entries (hd (sstables ?s))) [1] = Some (put_entry [7])"
    using small_tables(1) by (simp_all add: two_tables_def Database_init_def table_ok_def)
  moreover have "db_view ?s [1] = None"
    by (simp add: two_tables_view small_tables live_store_def)
  ultimately show ?thesis
    using unremoved_table_resurrects [OF good(1) _ small_fits(2) [of 1 2 "[]"] _ good(3), of "[1]" "[7]" 1 2]
    by blast
qed

theorem compaction_returns_witness:
  "fst (CompactOnce (two_tables 1 2 [] [([1], put_entry [7])] [([1], tombstone)])) = Ret ()"
  using compaction_returns [OF two_tables_good(1) [OF small_tables(1,3), of 1 2 "[]"] _ small_fits(2) [of 1 2 "[]"]]
  by (simp add: two_tables_def Database_init_def)

end
