(* ===== verification/Compaction_Safety.thy ===== *)
theory Compaction_Safety
  imports Compaction_Faults
begin

text \<open>
  The engine with its compaction thread is crash-safe as long as the two things that
  \<open>Compaction_Faults\<close> shows to go wrong do not happen: no flush between a compaction's
  snapshot and its number, and no old file that cannot be removed. Everything else may
  interleave, with flushes before and after, and the process may die anywhere.
\<close>

section \<open>What the disk holds while a compaction runs\<close>

lemma db_sound_change:
  assumes "db_sound s" and "memtable s' = memtable s" and "dir_ok (dir s')"
    and "dir s' wal_path = dir s wal_path"
    and "\<forall>n \<in> set (sst_numbers (dir s')). n < next_sstable_number s'"
    and "\<forall>r \<in> set (sstables s'). reader_ok r" and "tables_agree (disk_readers (dir s')) (sstables s')"
  shows "db_sound s'"
proof -
  have "wal_content (dir s') = wal_content (dir s)" using assms(4) by (simp add: wal_content_def)
  with assms show ?thesis unfolding db_sound_def by auto
qed

lemma table_inserted:
  assumes ok: "dir_ok d" and numbers: "sst_numbers d = olds @ news"
    and place: "\<forall>k \<in> set olds. k < n" "\<forall>k \<in> set news. n < k" and T: "table_ok es"
    and m: "m = d(SSTableFilename n @ ''.tmp'' := t, SSTableFilename n \<mapsto> sstable_file es)"
  shows "dir_ok m" and "m wal_path = d wal_path" and "sst_numbers m = olds @ n # news"
    and "disk_readers m = take (length olds) (disk_readers d) @
      reader_for (SSTableFilename n) es # drop (length olds) (disk_readers d)"
proof -
  show "dir_ok m" unfolding m using ok T by (intro dir_ok_upd_table dir_ok_upd_other) simp_all
  show "m wal_path = d wal_path" by (simp add: m)
  have sorted: "sorted_wrt (<) (olds @ news)" using numbers by (metis sst_numbers_def sorted_list_of_set.strict_sorted_key_list_of_set)
  have "sorted_wrt (<) (olds @ n # news)" using sorted place by (simp add: sorted_wrt_append)
  moreover have "sorted_wrt (<) (sst_numbers m)" by (simp add: sst_numbers_def)
  moreover have "set (sst_numbers m) = set (olds @ n # news)"
  proof -
    have "k \<in> set (sst_numbers d) \<longleftrightarrow> k \<in> set olds \<or> k \<in> set news" for k
      by (simp add: numbers del: set_sst_numbers)
    then show ?thesis by (auto simp: m split: if_splits)
  qed
  ultimately show m_numbers: "sst_numbers m = olds @ n # news" by (metis strict_sorted_equal)
  have same: "table_at m k = table_at d k" if "k \<noteq> n" for k
    using that by (simp add: table_at_def m)
  have new: "table_at m n = es"
    using T by (simp add: table_at_def m sstable_file_def sstable_parse_image table_ok_def)
  let ?rd = "\<lambda>k. reader_for (SSTableFilename k) (table_at d k)"
  have "map (\<lambda>k. reader_for (SSTableFilename k) (table_at m k)) olds = map ?rd olds"
    and "map (\<lambda>k. reader_for (SSTableFilename k) (table_at m k)) news = map ?rd news"
    using place same by (auto intro!: map_cong)
  then show "disk_readers m = take (length olds) (disk_readers d) @
      reader_for (SSTableFilename n) es # drop (length olds) (disk_readers d)"
    by (simp add: disk_readers_def m_numbers numbers new)
qed

text \<open>Under the merged table, the tables it was made from cannot be seen.\<close>

lemma merged_hides:
  assumes "sorted_keys m" and "map_of m = run_layers rs"
    and reader: "reader_entries rd = drop_tombstones m"
  shows "tables_agree (drop i rs @ rd # news) (rd # news)"
  unfolding tables_agree_def
proof
  fix newer
  have split: "run_layers rs = run_layers (take i rs) ++ run_layers (drop i rs)"
    by (metis append_take_drop_id layered_append map_append)
  define top where "top = run_layers news ++ newer"
  have "live_store (run_layers (drop i rs) ++ map_of (drop_tombstones m) ++ top)
      = live_store (map_of (drop_tombstones m) ++ top)"
    using split
    by (auto simp: live_store_def fun_eq_iff map_add_def map_of_drop_tombstones assms(1,2) live_def
        split: option.splits)
  then show "live_store (run_layers (drop i rs @ rd # news) ++ newer) = live_store (run_layers (rd # news) ++ newer)"
    by (simp add: layered_append layered_Cons reader top_def map_add_assoc)
qed

lemma merged_replaces:
  assumes "sorted_keys m" and "map_of m = run_layers rs"
    and reader: "reader_entries rd = drop_tombstones m"
  shows "tables_agree (rs @ rd # news) (rs @ news)" and "tables_agree (rd # news) (rs @ news)"
proof -
  show two: "tables_agree (rd # news) (rs @ news)"
    unfolding tables_agree_def
    using compacted_layers(1) [OF assms(1,2)]
    by (simp add: layered_Cons layered_append reader map_add_assoc [symmetric] del: map_add_assoc)
  show "tables_agree (rs @ rd # news) (rs @ news)"
    using merged_hides [OF assms, of 0 news] two by (simp add: tables_agree_def)
qed

section \<open>The invariant\<close>

text \<open>
  For each place of the thread: the object's tables and those on disk agree; which part of
  the disk is old, merged and new; and that the old part cannot be seen once the merged
  table is in place. First the two that the write passes through: the number has been drawn,
  and the merged table has its name.
\<close>

definition numbered :: "database \<Rightarrow> nat \<Rightarrow> (bytes \<times> Entry) list \<Rightarrow> u64 \<Rightarrow> bool" where
  "numbered s n merged number \<longleftrightarrow> db_good s \<and> replaces s n merged \<and> number < next_sstable_number s \<and>
     (\<exists>olds news. sst_numbers (dir s) = olds @ news \<and> length olds = n \<and>
        (\<forall>k \<in> set olds. k < number) \<and> (\<forall>k \<in> set news. number < k))"

definition in_place :: "database \<Rightarrow> nat \<Rightarrow> (bytes \<times> Entry) list \<Rightarrow> u64 \<Rightarrow> bool" where
  "in_place s n merged number \<longleftrightarrow> db_sound s \<and> replaces s n merged \<and>
     (\<exists>olds news. sst_numbers (dir s) = olds @ number # news \<and> length olds = n \<and>
        map reader_path (take n (sstables s)) = map SSTableFilename olds \<and>
        disk_readers (dir s) =
          take n (sstables s) @ reader_for (SSTableFilename number) merged # drop n (sstables s))"

fun safe_job :: "database \<times> job \<Rightarrow> bool" where
  "safe_job (s, Idle) = db_good s"
| "safe_job (s, Started) = db_good s"
| "safe_job (s, Merged n merged) = (db_good s \<and> replaces s n merged \<and> n = length (sstables s))"
| "safe_job (s, Allocated n merged number) = numbered s n merged number"
| "safe_job (s, Writing n merged number sections) =
     (numbered s n merged number \<and> output_ok (s, Writing n merged number sections))"
| "safe_job (s, Synced n merged number) =
     (numbered s n merged number \<and> output_ok (s, Synced n merged number))"
| "safe_job (s, Renamed n merged number) =
     (in_place s n merged number \<and> output_ok (s, Renamed n merged number))"
| "safe_job (s, Written n reader) =
     (\<exists>merged number. reader = reader_for (SSTableFilename number) merged \<and> in_place s n merged number)"
| "safe_job (s, Deleting paths) =
     (db_sound s \<and>
      (\<exists>olds news rs. paths = map SSTableFilename olds \<and> sst_numbers (dir s) = olds @ news \<and>
         disk_readers (dir s) = rs @ sstables s \<and> length rs = length olds \<and>
         (\<forall>i. tables_agree (drop i rs @ sstables s) (sstables s))))"
| "safe_job (s, Dead) = False"

lemma numberedI:
  "db_good s \<Longrightarrow> replaces s n merged \<Longrightarrow> number < next_sstable_number s \<Longrightarrow>
   sst_numbers (dir s) = olds @ news \<Longrightarrow> length olds = n \<Longrightarrow> \<forall>k \<in> set olds. k < number \<Longrightarrow>
   \<forall>k \<in> set news. number < k \<Longrightarrow> numbered s n merged number"
  unfolding numbered_def by blast

lemma in_placeI:
  "db_sound s \<Longrightarrow> replaces s n merged \<Longrightarrow> sst_numbers (dir s) = olds @ number # news \<Longrightarrow> length olds = n \<Longrightarrow>
   map reader_path (take n (sstables s)) = map SSTableFilename olds \<Longrightarrow>
   disk_readers (dir s) =
     take n (sstables s) @ reader_for (SSTableFilename number) merged # drop n (sstables s) \<Longrightarrow>
   in_place s n merged number"
  unfolding in_place_def by blast

lemma safe_DeletingI:
  "db_sound s \<Longrightarrow> paths = map SSTableFilename olds \<Longrightarrow> sst_numbers (dir s) = olds @ news \<Longrightarrow>
   disk_readers (dir s) = rs @ sstables s \<Longrightarrow> length rs = length olds \<Longrightarrow>
   (\<And>i. tables_agree (drop i rs @ sstables s) (sstables s)) \<Longrightarrow> safe_job (s, Deleting paths)"
  unfolding safe_job.simps by blast

lemma safe_job_sound: "safe_job (s, j) \<Longrightarrow> db_sound s"
  by (cases j) (auto simp: numbered_def in_place_def intro: db_good_sound)

lemma safe_job_output: "safe_job (s, j) \<Longrightarrow> output_ok (s, j)"
  by (cases j) (auto simp: numbered_def drawn_def)

lemma sound_stable:
  "db_sound s \<Longrightarrow> wal_durable (dir s) \<Longrightarrow> stable (files s) (db_view s)"
  by (intro stableI) (simp_all add: db_sound_recoverable db_sound_view)

lemma numbered_extends:
  assumes num: "numbered s n merged number" and ext: "extends s s'" and sound: "db_sound s'"
  shows "numbered s' n merged number"
proof -
  obtain extra ns where e: "next_sstable_number s \<le> next_sstable_number s'" "sstables s' = sstables s @ extra"
    "sst_numbers (dir s') = sst_numbers (dir s) @ ns" "\<forall>n \<in> set ns. next_sstable_number s \<le> n"
    using ext unfolding extends_def by blast
  from num obtain olds news where n: "sst_numbers (dir s) = olds @ news" "length olds = n"
    "\<forall>k \<in> set olds. k < number" "\<forall>k \<in> set news. number < k" "number < next_sstable_number s"
    "db_good s" "replaces s n merged"
    unfolding numbered_def by blast
  have "\<forall>k \<in> set (news @ ns). number < k" using n(4,5) e(4) by (auto dest: less_le_trans)
  moreover have "replaces s' n merged" using n(7) by (rule replaces_grows) (auto simp: grows_def e(2))
  moreover have "number < next_sstable_number s'" using n(5) e(1) by (rule less_le_trans)
  ultimately show ?thesis
    using n e by (intro numberedI [of s' n merged number olds "news @ ns"] extends_good [OF n(6) ext sound]) simp_all
qed

lemma in_place_extends:
  assumes place: "in_place s n merged number" and ext: "extends s s'" and sound: "db_sound s'"
  shows "in_place s' n merged number"
proof -
  obtain extra ns where e: "sstables s' = sstables s @ extra"
    "sst_numbers (dir s') = sst_numbers (dir s) @ ns" "disk_readers (dir s') = disk_readers (dir s) @ extra"
    using ext unfolding extends_def by blast
  from place obtain olds news where w: "replaces s n merged" "sst_numbers (dir s) = olds @ number # news"
    "length olds = n" "map reader_path (take n (sstables s)) = map SSTableFilename olds"
    "disk_readers (dir s) = take n (sstables s) @ reader_for (SSTableFilename number) merged # drop n (sstables s)"
    unfolding in_place_def by blast
  have grown: "replaces s' n merged" using w(1) by (rule replaces_grows) (auto simp: grows_def e(1))
  have "n \<le> length (sstables s)" using w(1) by (simp add: replaces_def)
  with w e show ?thesis by (intro in_placeI [OF sound grown, where olds = olds and news = "news @ ns"]) simp_all
qed

text \<open>An update that returned, and did not flush in the one window that matters.\<close>

lemma safe_job_extends:
  assumes safe: "safe_job (s, j)" and ext: "extends s s'" and sound: "db_sound s'" and out: "output_ok (s', j)"
    and window: "\<And>n merged. j = Merged n merged \<Longrightarrow> sstables s' = sstables s"
  shows "safe_job (s', j)"
proof -
  have good: "db_good s \<Longrightarrow> db_good s'" by (rule extends_good [OF _ ext sound])
  note kept = numbered_extends [OF _ ext sound] in_place_extends [OF _ ext sound]
  show ?thesis
  proof (cases j)
    case (Merged n merged)
    with window safe good show ?thesis by (auto intro: replaces_same)
  next
    case (Written n reader)
    with safe obtain merged number where "reader = reader_for (SSTableFilename number) merged"
      "in_place s n merged number" by auto
    with kept(2) show ?thesis unfolding Written safe_job.simps by blast
  next
    case (Deleting paths)
    obtain extra ns where e: "sstables s' = sstables s @ extra"
      "sst_numbers (dir s') = sst_numbers (dir s) @ ns" "disk_readers (dir s') = disk_readers (dir s) @ extra"
      using ext unfolding extends_def by blast
    from Deleting safe obtain olds news rs where d: "paths = map SSTableFilename olds"
      "sst_numbers (dir s) = olds @ news" "disk_readers (dir s) = rs @ sstables s" "length rs = length olds"
      "\<forall>i. tables_agree (drop i rs @ sstables s) (sstables s)"
      by auto
    have "tables_agree (drop i rs @ sstables s') (sstables s')" for i
      using tables_agree_append [OF spec [OF d(5), of i], of extra] by (simp add: e(1))
    with d e show ?thesis
      unfolding Deleting by (intro safe_DeletingI [OF sound d(1), of "news @ ns" rs]) simp_all
  qed (use safe good kept out in simp_all)
qed

section \<open>The steps of the thread\<close>

text \<open>
  The excluded cases: a flush by an update that returns while the thread has its snapshot and
  no number, and a removal that fails; and numbers that have run out.
\<close>

fun undisturbed :: "database \<times> job \<Rightarrow> event \<Rightarrow> database \<times> job \<Rightarrow> bool" where
  "undisturbed (s, Merged n merged) (Client x r) (s', j') = (r = Ret () \<longrightarrow> sstables s' = sstables s)"
| "undisturbed (s, Merged n merged) Compactor (s', j') = (next_sstable_number s < - 1)"
| "undisturbed (s, Deleting (path # paths)) Compactor (s', Deleting paths') = (dir s' path = None)"
| "undisturbed c e c' = True"

lemma safe_snapshot:
  assumes "db_good s" and "compact_merge (sstables s) = Inr merged"
  shows "replaces s (length (sstables s)) merged"
proof -
  have "\<forall>r \<in> set (sstables s). reader_ok r" using db_good_live [OF assms(1)] by (simp add: live_ok_def)
  from compact_merge_ok [OF this] obtain m where m: "compact_merge (sstables s) = Inr (drop_tombstones m)"
    "sorted_keys m" "map_of m = run_layers (sstables s)" "sorted_keys (drop_tombstones m)"
    "\<forall>p \<in> set (drop_tombstones m). entry_fits p"
    by metis
  then have "merged = drop_tombstones m" using assms(2) by simp
  with m show ?thesis by (auto simp: replaces_def)
qed

text \<open>The merged table in place, before and after the swap.\<close>

lemma merged_in_place:
  assumes num: "numbered s n merged number" and T: "table_ok merged"
    and fs: "map_of fs = (dir s)(SSTableFilename number @ ''.tmp'' := t, SSTableFilename number \<mapsto> sstable_file merged)"
  shows "in_place (s\<lparr>files := fs, script := es\<rparr>) n merged number" and "map_of fs wal_path = dir s wal_path"
proof -
  from num obtain olds news where good: "db_good s" and r: "replaces s n merged"
    and number: "number < next_sstable_number s"
    and place: "sst_numbers (dir s) = olds @ news" "length olds = n" "\<forall>k \<in> set olds. k < number"
      "\<forall>k \<in> set news. number < k"
    unfolding numbered_def by blast
  let ?rd = "reader_for (SSTableFilename number) merged" and ?s' = "s\<lparr>files := fs, script := es\<rparr>"
  have rs: "sstables s = disk_readers (dir s)" and ok: "dir_ok (dir s)" using good by (simp_all add: db_good_def)
  note new = table_inserted [OF ok place(1,3,4) T fs]
  show wal: "map_of fs wal_path = dir s wal_path" by (rule new(2))
  from r obtain m where m: "merged = drop_tombstones m" "sorted_keys m" "map_of m = run_layers (take n (sstables s))"
    by (auto simp: replaces_def)
  have rd: "reader_entries ?rd = drop_tombstones m" "reader_ok ?rd"
    using T by (simp_all add: m(1) table_ok_def)
  have readers: "disk_readers (map_of fs) = take n (sstables s) @ ?rd # drop n (sstables s)"
    using new(4) by (simp add: rs place(2))
  have agree: "tables_agree (disk_readers (dir ?s')) (sstables ?s')"
    using merged_replaces(1) [OF m(2,3) rd(1), of "drop n (sstables s)"] readers by simp
  have bound: "\<forall>k \<in> set (sst_numbers (dir ?s')). k < next_sstable_number ?s'"
  proof -
    have "\<forall>k \<in> set (olds @ news). k < next_sstable_number s"
      using good place(1) unfolding db_good_def by metis
    then show ?thesis using new(3) number by (simp del: set_sst_numbers)
  qed
  have "\<forall>r \<in> set (sstables ?s'). reader_ok r" using db_good_sound [OF good] by (simp add: db_sound_def)
  then have "db_sound ?s'"
    using db_sound_change [OF db_good_sound [OF good], of ?s'] new(1) wal bound agree by simp
  moreover have "map reader_path (take n (sstables s)) = map SSTableFilename olds"
    using place(1,2) by (simp add: rs take_map [symmetric] disk_readers_paths)
  moreover have "replaces ?s' n merged" using r by (rule replaces_same) simp
  ultimately show "in_place ?s' n merged number"
    using new(3) place(2) readers by (intro in_placeI [where olds = olds and news = news]) simp_all
qed

lemma swapped:
  assumes "safe_job (s, Written n reader)" and s': "s' = s\<lparr>sstables := reader # drop n (sstables s)\<rparr>"
  shows "safe_job (s', Deleting (map reader_path (take n (sstables s))))"
proof -
  from assms(1) obtain olds number news merged where w: "reader = reader_for (SSTableFilename number) merged"
    "replaces s n merged" "sst_numbers (dir s) = olds @ number # news" "length olds = n"
    "map reader_path (take n (sstables s)) = map SSTableFilename olds"
    "disk_readers (dir s) = take n (sstables s) @ reader # drop n (sstables s)" and sound: "db_sound s"
    by (auto simp: in_place_def)
  from w(2) obtain m where m: "merged = drop_tombstones m" "sorted_keys m" "map_of m = run_layers (take n (sstables s))"
    and fits: "sorted_keys merged" "\<forall>p \<in> set merged. entry_fits p" and n: "n \<le> length (sstables s)"
    by (auto simp: replaces_def)
  have rd: "reader_entries reader = drop_tombstones m" "reader_ok reader"
    using fits by (simp_all add: w(1) m(1))
  note hides = merged_hides [OF m(2,3) rd(1), of _ "drop n (sstables s)"]
  have "tables_agree (disk_readers (dir s')) (sstables s')"
    using hides [of 0] w(6) by (simp add: s')
  moreover have "\<forall>r \<in> set (sstables s'). reader_ok r"
    using sound rd(2) by (auto simp: s' db_sound_def dest: in_set_dropD)
  ultimately have "db_sound s'"
    using sound by (intro db_sound_change [OF sound]) (simp_all add: s' db_sound_def)
  then show ?thesis
    using hides w n by (intro safe_DeletingI [of s' _ olds "number # news" "take n (sstables s)"]) (simp_all add: s')
qed

lemma oldest_removed:
  assumes safe: "safe_job (s, Deleting (path # paths))" and s': "s' = s\<lparr>files := fs, script := es\<rparr>"
    and fs: "map_of fs = (dir s)(path := None)"
  shows "safe_job (s', Deleting paths)" and "map_of fs wal_path = dir s wal_path"
proof -
  from safe [unfolded safe_job.simps] obtain olds news rs
    where d: "path # paths = map SSTableFilename olds" "sst_numbers (dir s) = olds @ news"
      "disk_readers (dir s) = rs @ sstables s" "length rs = length olds"
      "\<forall>i. tables_agree (drop i rs @ sstables s) (sstables s)" and sound: "db_sound s"
    by - (elim conjE exE, rule that)
  then obtain n ns where olds: "olds = n # ns" "path = SSTableFilename n" "paths = map SSTableFilename ns"
    by (cases olds) auto
  have numbers: "sst_numbers (dir s) = n # (ns @ news)" using d(2) olds(1) by simp
  note rm = remove_oldest [OF numbers]
  have dir': "dir s' = (dir s)(SSTableFilename n := None)" by (simp add: s' fs olds(2))
  show wal: "map_of fs wal_path = dir s wal_path" by (simp add: fs olds(2))
  have rs: "rs \<noteq> []" using d(4) olds(1) by auto
  have readers: "disk_readers (dir s') = tl rs @ sstables s'"
    unfolding dir' using rm(2) d(3) rs by (simp add: s')
  have agree: "tables_agree (drop i (tl rs) @ sstables s') (sstables s')" for i
    using spec [OF d(5), of "Suc i"] by (simp add: s' drop_Suc)
  have "\<forall>k \<in> set (sst_numbers (dir s')). k < next_sstable_number s'"
  proof -
    have "\<forall>k \<in> set (sst_numbers (dir s)). k < next_sstable_number s" using sound by (simp add: db_sound_def)
    then show ?thesis unfolding dir' rm(1) numbers by (simp add: s')
  qed
  moreover have "dir_ok (dir s')" unfolding dir' using sound by (intro dir_ok_remove) (simp add: db_sound_def)
  moreover have "\<forall>r \<in> set (sstables s'). reader_ok r" using sound by (simp add: s' db_sound_def)
  ultimately have "db_sound s'"
    using agree [of 0] readers wal by (intro db_sound_change [OF sound]) (simp_all add: s')
  then show "safe_job (s', Deleting paths)"
    using agree readers rm(1) olds(1,3) d(4)
    by (intro safe_DeletingI [of s' _ ns news "tl rs"]) (simp_all add: dir')
qed

text \<open>The calls of the write, whatever becomes of them.\<close>

lemma tmp_touched:
  assumes t: "touches (tmp_of k) s s'" and num: "numbered s n merged number"
  shows "numbered s' n merged number"
proof -
  from t obtain fs es t where s': "s' = s\<lparr>files := fs, script := es\<rparr>" and fs: "map_of fs = (dir s)(tmp_of k := t)"
    by (auto simp: touches_def)
  from num have good: "db_good s" and r: "replaces s n merged" by (simp_all add: numbered_def)
  have tables: "sst_numbers (dir s') = sst_numbers (dir s)" "disk_readers (dir s') = disk_readers (dir s)"
    using same_tables [of "dir s'" "dir s"] by (simp_all add: s' fs)
  have "dir_ok (dir s')" using good by (auto simp: s' fs db_good_def intro: dir_ok_upd_other)
  then have "db_sound s'"
    using db_good_sound [OF good] tables
    by (intro db_sound_change [OF db_good_sound [OF good]]) (simp_all add: s' fs db_sound_def)
  then have "db_good s'" using good tables by (simp add: db_good_iff s')
  moreover have "replaces s' n merged" using r by (rule replaces_same) (simp add: s')
  ultimately show ?thesis using num tables(1) by (simp add: numbered_def s')
qed

lemma safe_write:
  assumes call: "write_step j s = (r, s')" and job: "writing j = Some (n, merged, number)"
    and safe: "safe_job (s, j)" and fits: "output_fits (s, j)" and durable: "wal_durable (dir s)"
  shows "stable (files s') (db_view s) \<and> wal_durable (dir s') \<and> (\<forall>j'. r = Ret j' \<longrightarrow> safe_job (s', j'))"
proof -
  note out = safe_job_output [OF safe]
  have r: "replaces s n merged" using safe job by (cases j) (auto simp: numbered_def in_place_def)
  have T: "table_ok merged" using r output_small [OF job out fits] by (simp add: replaces_def table_ok_def)
  from call job out fits show ?thesis
  proof (cases rule: write_step_outcome)
    case tmp
    have "safe_job (s', j')" if "r = Ret j'" for j'
    proof -
      have "calls_left j = Suc (calls_left j')" using write_step_calls [of j s j' s'] call job that by simp
      then have "numbered s n merged number" using tmp(2) [OF that] safe job by (cases j) auto
      from tmp_touched [OF tmp(1) this] tmp(2,3) [OF that] show ?thesis by auto
    qed
    with touched_tmp_stable [OF tmp(1) safe_job_sound [OF safe] durable] show ?thesis by simp
  next
    case (renamed fs es)
    then have "numbered s n merged number" using safe by simp
    note new = merged_in_place(1) [OF this T renamed(4), of es] merged_in_place(2) [OF this T renamed(4)]
    have "db_view s' = db_view s" by (simp add: renamed(3) db_view_def db_entries_def)
    moreover have "wal_durable (dir s')" using durable new(2) renamed(3) by (simp add: wal_durable_def)
    moreover have safe': "safe_job (s', Renamed n merged number)" using new(1) renamed(3,5) by simp
    ultimately show ?thesis using sound_stable [OF safe_job_sound [OF safe']] renamed(2) by auto
  next
    case (opened es)
    have "safe_job (s', j')" if "r = Ret j'" for j'
    proof -
      from opened(3) [OF that] obtain reader where reader: "j' = Written n reader"
        "sstable_parse (SSTableFilename number) (sstable_image merged) = Inr reader"
        by blast
      then have "reader = reader_for (SSTableFilename number) merged" using T by (simp add: sstable_parse_image)
      moreover have "in_place s' n merged number"
      proof (rule in_place_extends)
        show "in_place s n merged number" using safe opened(1) by simp
        show "extends s s'" by (rule extends_same) (simp_all add: opened(2))
        have "db_sound s' \<longleftrightarrow> db_sound s" unfolding db_sound_def by (simp add: opened(2))
        then show "db_sound s'" using safe_job_sound [OF safe] by simp
      qed
      ultimately show ?thesis using reader(1) by auto
    qed
    then show ?thesis using sound_stable [OF safe_job_sound [OF safe] durable] durable opened(2) by simp
  qed
qed

text \<open>Every step of the thread keeps the store on disk, and the invariant unless the process ends.\<close>

lemma sound_same_fields:
  assumes sound: "db_sound s" and same: "files s' = files s" "sstables s' = sstables s" "memtable s' = memtable s"
    and "next_sstable_number s \<le> next_sstable_number s'"
  shows "db_sound s'"
proof (rule db_sound_change [OF sound])
  have parts: "dir_ok (dir s)" "\<forall>n \<in> set (sst_numbers (dir s)). n < next_sstable_number s"
    "\<forall>r \<in> set (sstables s). reader_ok r" "tables_agree (disk_readers (dir s)) (sstables s)"
    using sound unfolding db_sound_def by blast+
  show "dir_ok (dir s')" "\<forall>r \<in> set (sstables s'). reader_ok r"
    "tables_agree (disk_readers (dir s')) (sstables s')" "memtable s' = memtable s" "dir s' wal_path = dir s wal_path"
    using parts same by simp_all
  show "\<forall>n \<in> set (sst_numbers (dir s')). n < next_sstable_number s'"
    using parts(2) assms(5) less_le_trans unfolding same by blast
qed

lemma good_same_fields:
  "db_good s \<Longrightarrow> files s' = files s \<Longrightarrow> sstables s' = sstables s \<Longrightarrow> memtable s' = memtable s \<Longrightarrow>
   next_sstable_number s \<le> next_sstable_number s' \<Longrightarrow> db_good s'"
  using sound_same_fields [of s s'] by (simp add: db_good_iff)

lemma compactor_keeps_view:
  assumes "system_step (s, j) Compactor (s', j')" and "safe_job (s, j)" and "live_ok s" and "job_ok (s, j)"
  shows "db_view s' = db_view s"
  using compactor_step_ok [OF assms(1,3,4)] by blast

lemma safe_compactor:
  assumes step: "system_step (s, j) Compactor (s', j')" and safe: "safe_job (s, j)"
    and durable: "wal_durable (dir s)" and calm: "undisturbed (s, j) Compactor (s', j')"
  shows "(j' = Dead \<or> safe_job (s', j') \<and> wal_durable (dir s')) \<and> stable (files s') (db_view s)"
proof -
  have sound: "db_sound s" by (rule safe_job_sound [OF safe])
  have same: "stable (files s') (db_view s)" if "files s' = files s"
    using sound_stable [OF sound durable] that by simp
  have kept: ?thesis if "safe_job (s', j')" "dir s' wal_path = dir s wal_path" "db_view s' = db_view s"
  proof -
    have "wal_durable (dir s')" using durable that(2) by (simp add: wal_durable_def)
    with sound_stable [OF safe_job_sound [OF that(1)]] that show ?thesis by simp
  qed
  show ?thesis
    using step
  proof (cases rule: compactor_cases)
    case take_up
    then have s': "s' = s\<lparr>compaction_requested := False\<rparr>" "j' = Started" and "db_good s" using safe by simp_all
    then have "db_good s'" by (intro good_same_fields [of s s']) simp_all
    then show ?thesis using same durable by (simp add: s')
  next
    case nothing_to_do
    then show ?thesis using safe same durable by simp
  next
    case (snapshot merged)
    then show ?thesis using safe same durable by (simp add: safe_snapshot)
  next
    case (merge_throws e)
    with same show ?thesis by simp
  next
    case (allocate number n merged)
    then have good: "db_good s" and r: "replaces s n merged" "n = length (sstables s)" using safe by auto
    from allocate(3) have s': "s' = s\<lparr>next_sstable_number := number + 1\<rparr>" "number = next_sstable_number s"
      by (auto simp: compact_allocate_def)
    have room: "number < - 1" using calm by (simp add: allocate(1) s'(2))
    have n: "number < number + 1" by (rule next_number_greater [OF room])
    have "db_good s'" using n by (intro good_same_fields [OF good]) (simp_all add: s')
    moreover have "replaces s' n merged" using r(1) by (rule replaces_same) (simp add: s')
    moreover have "length (sst_numbers (dir s)) = n"
      using good r(2) by (simp add: db_good_def disk_readers_def)
    moreover have "\<forall>k \<in> set (sst_numbers (dir s)). k < number"
      using good by (simp add: db_good_def s'(2))
    ultimately have "numbered s' n merged number"
      using n by (intro numberedI [where olds = "sst_numbers (dir s)" and news = "[]"]) (simp_all add: s'(1) del: set_sst_numbers)
    then show ?thesis using allocate(2) same durable by (simp add: s'(1))
  next
    case (write_call n merged number)
    note out = safe_write [OF write_call(2,3) safe write_call(1) durable]
    have "db_view s' = db_view s"
      using write_step_memory [OF write_call(2,3) safe_job_output [OF safe] write_call(1)]
      by (simp add: db_view_def db_entries_def)
    with out show ?thesis by simp
  next
    case (write_throws r n merged number)
    with safe_write [OF write_throws(3,5) safe write_throws(2) durable] show ?thesis by simp
  next
    case (swap n reader old_paths)
    then have s': "s' = s\<lparr>sstables := reader # drop n (sstables s)\<rparr>" "old_paths = map reader_path (take n (sstables s))"
      by (simp_all add: compact_swap_def)
    have "safe_job (s', Deleting old_paths)"
      using swapped [of s n reader s'] safe swap(1) s' by simp
    then show ?thesis using swap(2) same durable by (simp add: s'(1))
  next
    case (delete path removed paths)
    from delete(3) have s': "s' = s\<lparr>files := AList.delete path (files s), script := tl (script s)\<rparr> \<or> s' = s\<lparr>script := tl (script s)\<rparr>"
      unfolding sys_remove_def by (cases rule: syscall_cases) auto
    have gone: "dir s' path = None" using calm delete(1,2) by simp
    have "dir s path \<noteq> None"
    proof -
      obtain olds news where "path # paths = map SSTableFilename olds" "sst_numbers (dir s) = olds @ news"
        using safe [unfolded delete(1) safe_job.simps] by - (elim conjE exE, rule that)
      then obtain n ns where "path = SSTableFilename n" "sst_numbers (dir s) = n # ns @ news" by (cases olds) auto
      then show ?thesis using set_sst_numbers [of n "dir s"] by simp
    qed
    with gone s' have s': "s' = s\<lparr>files := AList.delete path (files s), script := tl (script s)\<rparr>" by auto
    have fs: "map_of (AList.delete path (files s)) = (dir s)(path := None)" by (simp add: delete_conv')
    note rm = oldest_removed [OF safe [unfolded delete(1)] s' fs]
    have "db_view s' = db_view s" by (simp add: s' db_view_def db_entries_def)
    with kept rm delete(2) s' show ?thesis by simp
  next
    case (delete_killed path paths)
    from delete_killed(3) have "files s' = files s"
      unfolding sys_remove_def by (cases rule: syscall_cases) auto
    with delete_killed(2) same show ?thesis by simp
  next
    case finished
    then have "disk_readers (dir s) = sstables s" using safe by auto
    then have "db_good s'" using sound finished by (simp add: db_good_iff)
    with finished same durable show ?thesis by simp
  qed
qed

section \<open>Runs\<close>

text \<open>
  Runs in which every update returns, the process lives and the excluded cases do not occur.
\<close>

inductive calm_run :: "database \<times> job \<Rightarrow> event list \<Rightarrow> database \<times> job \<Rightarrow> bool" where
  calm_start: "calm_run c [] c"
| calm_step: "calm_run c es c' \<Longrightarrow> system_step c' e c'' \<Longrightarrow> undisturbed c' e c'' \<Longrightarrow>
     (\<And>x r. e = Client x r \<Longrightarrow> r = Ret ()) \<Longrightarrow> snd c'' \<noteq> Dead \<Longrightarrow> calm_run c (es @ [e]) c''"

lemma calm_run_system:
  "calm_run c es c' \<Longrightarrow> system_run c es c' \<and> (\<forall>x r. Client x r \<in> set es \<longrightarrow> r = Ret ())"
  by (induction rule: calm_run.induct) (auto intro: system_run.intros)

text \<open>One update, whatever its result, from a safe state.\<close>

lemma safe_client:
  assumes step: "system_step (s, j) (Client x r) (s', j')" and safe: "safe_job (s, j)"
    and durable: "wal_durable (dir s)" and calm: "undisturbed (s, j) (Client x r) (s', j')"
  shows "(r = Ret () \<longrightarrow> safe_job (s', j') \<and> wal_durable (dir s') \<and> stable (files s') (store_op x (db_view s))) \<and>
    (\<forall>b fs'. restart b (files s') fs' \<longrightarrow>
        recoverable (map_of fs') \<and> disk_store (map_of fs') \<in> {db_view s, store_op x (db_view s)})"
proof -
  from step have op: "Database_op x s = (r, s')" "op_fits x s" "j' = j"
    by (auto elim: client_step)
  note out = op_sound [OF op(1) safe_job_sound [OF safe] durable op(2)]
  have "safe_job (s', j)" if "r = Ret ()"
  proof (rule safe_job_extends [OF safe])
    show "extends s s'" "db_sound s'" using out that by simp_all
    show "output_ok (s', j)" by (rule output_ok_client [OF op(1,2) safe_job_output [OF safe]])
    show "sstables s' = sstables s" if "j = Merged n merged" for n merged
      using calm \<open>r = Ret ()\<close> that by simp
  qed
  moreover have "stable (files s') (store_op x (db_view s))" if "r = Ret ()"
    using out that sound_stable [of s'] by simp
  ultimately show ?thesis using out op(3) by simp
qed

lemma calm_run_safe:
  "calm_run c es c' \<Longrightarrow> safe_job c \<Longrightarrow> wal_durable (dir (fst c)) \<Longrightarrow>
     safe_job c' \<and> wal_durable (dir (fst c'))"
proof (induction rule: calm_run.induct)
  case (calm_start c)
  then show ?case by simp
next
  case (calm_step c es c' e c'')
  obtain s j s' j' where c: "c' = (s, j)" "c'' = (s', j')" by force
  from calm_step have IH: "safe_job (s, j)" "wal_durable (dir s)" by (simp_all add: c)
  show ?case
  proof (cases e)
    case (Client x r)
    then have "r = Ret ()" using calm_step.hyps(4) by blast
    with safe_client [OF calm_step.hyps(2) [unfolded c Client] IH calm_step.hyps(3) [unfolded c Client]]
    show ?thesis by (simp add: c)
  next
    case Compactor
    with safe_compactor [OF calm_step.hyps(2) [unfolded c Compactor] IH calm_step.hyps(3) [unfolded c Compactor]]
      calm_step.hyps(5)
    show ?thesis by (simp add: c)
  qed
qed

section \<open>Crash safety with the thread\<close>

text \<open>
  The engine with its compaction thread is crash-safe: let client updates, flushes and
  the steps of the thread interleave, let the last step end any way (an update or the
  thread's write may fail or be killed midway), and let the machine crash; the next process
  finds every update that returned, and of the others at most the one that was running.
  Excluded are the flush between a compaction's snapshot and its number and the failing
  removal of an old file, for which this does not hold.
\<close>

lemma interleaved_crash_safe:
  assumes "calm_run (s, Idle) es (s1, j1)" and "db_good s" and "wal_durable (dir s)"
    and "system_step (s1, j1) e (s', j')" and "undisturbed (s1, j1) e (s', j')"
    and "restart machine (files s') fs'"
  shows "\<exists>s'' ops. Database_construct (Database_init th tr fs' []) = (Ret (), s'') \<and>
    (ops = client_ops (es @ [e]) \<or> ops = client_ops es \<and> (\<forall>x. e \<noteq> Client x (Ret ()))) \<and>
    (\<forall>k. Database_get s'' k = Inr (store_ops ops (db_view s) k))"
proof -
  have safe: "safe_job (s1, j1)" "wal_durable (dir s1)"
    using calm_run_safe [OF assms(1)] assms(2,3) by simp_all
  have view: "db_view s1 = store_ops (client_ops es) (db_view s)"
    using calm_run_system [OF assms(1)] system_run_ok [of "(s, Idle)" es "(s1, j1)"] db_good_live [OF assms(2)]
    by simp
  have "recoverable (map_of fs') \<and> (\<exists>ops. (ops = client_ops (es @ [e]) \<or> ops = client_ops es \<and> (\<forall>x. e \<noteq> Client x (Ret ()))) \<and>
      disk_store (map_of fs') = store_ops ops (db_view s))"
  proof (cases e)
    case Compactor
    with safe_compactor [OF _ safe] assms(4-6) view show ?thesis by (auto simp: stable_def client_ops_snoc)
  next
    case (Client x r)
    note out = safe_client [OF assms(4) [unfolded Client] safe assms(5) [unfolded Client]]
    have snoc: "store_ops (client_ops (es @ [e])) (db_view s) = store_op x (db_view s1)"
      by (simp add: Client client_ops_snoc store_ops_append view)
    show ?thesis
    proof (cases "r = Ret ()")
      case True
      with out assms(6) snoc show ?thesis by (auto simp: stable_def)
    next
      case False
      with Client have none: "\<forall>y. e \<noteq> Client y (Ret ())" by simp
      from out assms(6) have "recoverable (map_of fs')" "disk_store (map_of fs') \<in> {db_view s1, store_op x (db_view s1)}"
        by blast+
      with snoc view none show ?thesis by auto
    qed
  qed
  then obtain ops where ok: "recoverable (map_of fs')" and
    ops: "ops = client_ops (es @ [e]) \<or> ops = client_ops es \<and> (\<forall>x. e \<noteq> Client x (Ret ()))"
    and disk: "disk_store (map_of fs') = store_ops ops (db_view s)" by blast
  obtain r s'' where call: "Database_construct (Database_init th tr fs' []) = (r, s'')" by force
  from Database_construct_outcome [OF call ok]
  have new: "r = Ret ()" "db_good s''" "db_view s'' = disk_store (map_of fs')" by simp_all
  then have "\<forall>k. Database_get s'' k = Inr (store_ops ops (db_view s) k)"
    using Database_get_view [OF db_good_reads [OF new(2)]] disk by simp
  with call new(1) ops show ?thesis by blast
qed

end
