(* ===== verification/Thread_Generations.thy ===== *)
theory Thread_Generations
  imports Generations Compaction_Safety
begin

text \<open>
  The same through any number of processes with the compaction thread running in each: the
  engine as it is, within the bounds in which it is crash-safe (\<open>undisturbed\<close>).
\<close>

section \<open>A process with its thread\<close>

lemma construct_no_request:
  assumes "Database_construct (Database_init th tr fs es) = (r, s)"
  shows "\<not> compaction_requested s"
proof -
  have "compaction_requested s = compaction_requested (Database_init th tr fs es)"
    by (rule preservesD [OF preserves_construct assms]) (simp add: outside_opening_def blind_def)
  then show ?thesis by (simp add: Database_init_def)
qed

lemma compactor_keeps_log:
  assumes "system_step (s, j) Compactor (s', j')" and "job_ok (s, j)"
  shows "dir s' wal_path = dir s wal_path"
  using assms(1)
proof (cases rule: compactor_cases)
  case (write_call n merged number)
  from write_step_memory [OF write_call(2,3) job_ok_output [OF assms(2)] write_call(1)] show ?thesis by simp
next
  case (write_throws r n merged number)
  from write_step_memory [OF write_throws(3,5) job_ok_output [OF assms(2)] write_throws(2)] show ?thesis by simp
next
  case (delete path removed paths)
  then show ?thesis using assms(2) sys_remove_memory [OF delete(3)] by auto
next
  case (delete_killed path paths)
  then show ?thesis using assms(2) sys_remove_memory [OF delete_killed(3)] by auto
qed (auto simp: compact_allocate_def compact_swap_def)

text \<open>The thread stays in its wait until an update has returned, and then the log is durable.\<close>

lemma idle_until_update: "\<not> compaction_requested s \<Longrightarrow> \<not> system_step (s, Idle) Compactor c"
  by (cases c) (auto elim: compactor_step)

lemma first_update:
  assumes "system_step (s, Idle) (Client x (Ret ())) (s', j')" and "db_good s" and "pending S (dir s)"
  shows "safe_job (s', j') \<and> wal_durable (dir s')"
proof -
  from assms(1) have op: "Database_op x s = (Ret (), s')" "op_fits x s" "j' = Idle"
    by (auto elim: client_step)
  from op_pending_sound [OF op(1) db_good_sound [OF assms(2)] assms(3) op(2)] extends_good [OF assms(2)] op(3)
  show ?thesis by simp
qed

lemma calm_from_opening:
  assumes "calm_run c es c'" and "c = (s, Idle)" and "db_good s" and "pending S (dir s)" and "\<not> compaction_requested s"
  shows "es = [] \<and> c' = c \<or> safe_job c' \<and> wal_durable (dir (fst c'))"
  using assms
proof (induction rule: calm_run.induct)
  case (calm_step c es c' e c'')
  obtain s1 j1 s2 j2 where c: "c' = (s1, j1)" "c'' = (s2, j2)" by force
  note IH = calm_step.IH [OF calm_step.prems]
  show ?case
  proof (cases e)
    case (Client x r)
    then have r: "r = Ret ()" using calm_step.hyps(4) by blast
    from IH show ?thesis
    proof
      assume "es = [] \<and> c' = c"
      then have "system_step (s, Idle) (Client x (Ret ())) (s2, j2)"
        using calm_step.hyps(2) calm_step.prems(1) c(2) Client r by simp
      from first_update [OF this calm_step.prems(2,3)] show ?thesis by (simp add: c)
    next
      assume "safe_job c' \<and> wal_durable (dir (fst c'))"
      with safe_client [OF calm_step.hyps(2) [unfolded c Client], OF _ _ calm_step.hyps(3) [unfolded c Client]] r
      show ?thesis by (simp add: c)
    qed
  next
    case Compactor
    from IH have "safe_job c' \<and> wal_durable (dir (fst c'))"
    proof
      assume "es = [] \<and> c' = c"
      with calm_step.hyps(2) calm_step.prems(1,4) Compactor show ?thesis by (simp add: idle_until_update)
    qed
    with safe_compactor [OF calm_step.hyps(2) [unfolded c Compactor], OF _ _ calm_step.hyps(3) [unfolded c Compactor]]
      calm_step.hyps(5)
    show ?thesis by (simp add: c)
  qed
qed simp

text \<open>The updates that returned, the last event included.\<close>

definition returned_ops :: "event list \<Rightarrow> event \<Rightarrow> kv_op list" where
  "returned_ops es e = client_ops es @
     (case e of Compactor \<Rightarrow> [] | Client x r \<Rightarrow> (if r = Ret () then [x] else []))"

lemma run_with_thread_pending:
  assumes run: "calm_run (s, Idle) es (s1, j1)" and good: "db_good s" and pend: "pending S (dir s)"
    and idle: "\<not> compaction_requested s" and view: "db_view s \<in> S"
    and last: "system_step (s1, j1) e (s', j')" "undisturbed (s1, j1) e (s', j')"
  shows "pending (\<Union>v \<in> S. {store_ops (returned_ops es e) v, store_ops (client_ops (es @ [e])) v}) (dir s')"
    (is "pending ?T _")
proof -
  have live: "live_ok s1" "job_ok (s1, j1)" "db_view s1 = store_ops (client_ops es) (db_view s)"
    using calm_run_system [OF run] system_run_ok [of "(s, Idle)" es "(s1, j1)"] db_good_live [OF good] by simp_all
  from calm_from_opening [OF run refl good pend idle]
  consider (start) "es = []" "s1 = s" "j1 = Idle" | (on) "safe_job (s1, j1)" "wal_durable (dir s1)" by auto
  then show ?thesis
  proof cases
    case start
    with last(1) idle obtain x r where e: "e = Client x r" by (cases e) (auto simp: idle_until_update)
    from last(1) have op: "Database_op x s = (r, s')" "op_fits x s" by (auto simp: start e elim: client_step)
    show ?thesis
    proof (cases "r = Ret ()")
      case True
      have "pending {store_op x (db_view s)} (dir s')"
        using op_pending [OF op(1) good pend op(2)] True by auto
      then show ?thesis by (rule pending_mono) (use view True in \<open>auto simp: start e returned_ops_def\<close>)
    next
      case False
      have "pending (insert (store_op x (db_view s)) S) (dir s')"
        using op_pending [OF op(1) good pend op(2)] by simp
      then show ?thesis by (rule pending_mono) (use view False in \<open>auto simp: start e returned_ops_def\<close>)
    qed
  next
    case on
    have sound: "db_sound s1" by (rule safe_job_sound [OF on(1)])
    have pend1: "pending {db_view s1} (dir s1)"
      using pending_durable [OF db_sound_recoverable [OF sound] on(2)] db_sound_view [OF sound] by simp
    show ?thesis
    proof (cases e)
      case Compactor
      have "dir s' wal_path = dir s1 wal_path"
        using compactor_keeps_log last(1) live(2) Compactor by blast
      then have "wal_durable (dir s')" using on(2) by (simp add: wal_durable_def)
      moreover have "stable (files s') (db_view s1)"
        using safe_compactor [OF _ on] last Compactor by blast
      then have "recoverable (dir s')" "disk_store (dir s') = db_view s1"
        unfolding stable_def restart_def by blast+
      ultimately have "pending {db_view s1} (dir s')" using pending_durable by metis
      then show ?thesis
        by (rule pending_mono) (use view live(3) in \<open>auto simp: Compactor returned_ops_def client_ops_snoc\<close>)
    next
      case (Client x r)
      from last(1) have op: "Database_op x s1 = (r, s')" "op_fits x s1" by (auto simp: Client elim: client_step)
      note out = op_pending_sound [OF op(1) sound pend1 op(2)]
      show ?thesis
      proof (cases "r = Ret ()")
        case True
        with out have "pending {store_op x (db_view s1)} (dir s')" by auto
        then show ?thesis by (rule pending_mono)
          (use view live(3) True in \<open>auto simp: Client returned_ops_def client_ops_snoc store_ops_append\<close>)
      next
        case False
        from out have "pending (insert (store_op x (db_view s1)) {db_view s1}) (dir s')" by simp
        then show ?thesis by (rule pending_mono)
          (use view live(3) False in \<open>auto simp: Client returned_ops_def client_ops_snoc store_ops_append\<close>)
      qed
    qed
  qed
qed


section \<open>The life of a process with its thread\<close>

lemma calm_end_pending:
  assumes run: "calm_run (s, Idle) es (s1, j1)" and good: "db_good s" and pend: "pending S (dir s)"
    and idle: "\<not> compaction_requested s" and view: "db_view s \<in> S"
  shows "pending {store_ops (client_ops es) v | v. v \<in> S} (dir s1)"
  using calm_from_opening [OF run refl good pend idle]
proof
  assume "es = [] \<and> (s1, j1) = (s, Idle)"
  with pend show ?thesis by simp
next
  assume on: "safe_job (s1, j1) \<and> wal_durable (dir (fst (s1, j1)))"
  have sound: "db_sound s1" using on by (blast intro: safe_job_sound)
  have "db_view s1 = store_ops (client_ops es) (db_view s)"
    using calm_run_system [OF run] system_run_ok [of "(s, Idle)" es "(s1, j1)"] db_good_live [OF good] by simp
  moreover have "pending {db_view s1} (dir s1)"
    using pending_durable [OF db_sound_recoverable [OF sound]] on db_sound_view [OF sound] by simp
  ultimately show ?thesis using view by (elim pending_mono) auto
qed

text \<open>
  A process that opens the directory, serves its clients while the thread works, and ends
  during one last event, which may be an update or a step of the thread that throws or is cut
  off, or between two events.
\<close>

inductive threaded_life :: process where
  dies_opening: "Database_construct (Database_init th tr fs es) = (r, s) \<Longrightarrow> r \<noteq> Ret () \<Longrightarrow>
     restart machine (files s) fs' \<Longrightarrow> threaded_life fs xs 0 fs'"
| between: "Database_construct (Database_init th tr fs sc) = (Ret (), s) \<Longrightarrow>
     calm_run (s, Idle) es (s1, j1) \<Longrightarrow> restart machine (files s1) fs' \<Longrightarrow>
     threaded_life fs (client_ops es) (length (client_ops es)) fs'"
| during: "Database_construct (Database_init th tr fs sc) = (Ret (), s) \<Longrightarrow>
     calm_run (s, Idle) es (s1, j1) \<Longrightarrow> system_step (s1, j1) e (s', j') \<Longrightarrow>
     undisturbed (s1, j1) e (s', j') \<Longrightarrow> restart machine (files s') fs' \<Longrightarrow>
     threaded_life fs (client_ops (es @ [e])) (length (returned_ops es e)) fs'"

lemma returned_ops_take:
  "take (length (returned_ops es e)) (client_ops (es @ [e])) = returned_ops es e"
  "take (Suc (length (returned_ops es e))) (client_ops (es @ [e])) = client_ops (es @ [e])"
  by (cases e; simp add: returned_ops_def client_ops_snoc)+

lemma opened_pending:
  assumes "Database_construct (Database_init th tr fs es) = (r, s)" and "pending S (map_of fs)"
  shows "pending S (dir s)" and "r = Ret () \<Longrightarrow> db_good s \<and> db_view s \<in> S \<and> \<not> compaction_requested s"
  using Database_construct_outcome [OF assms(1)] pending_here [OF assms(2)] pending_keeps [OF assms(2)]
    construct_no_request [OF assms(1)] by auto

lemma threaded_life_pending:
  assumes "threaded_life fs xs n fs'" and "pending S (map_of fs)"
  shows "pending (\<Union>v \<in> S. {store_ops (take n xs) v, store_ops (take (Suc n) xs) v}) (map_of fs')"
  using assms(1)
proof cases
  case (dies_opening th tr es r s machine)
  from pending_restart [OF opened_pending(1) [OF dies_opening(2) assms(2)] dies_opening(4)] show ?thesis
    unfolding dies_opening(1) by (rule pending_mono) auto
next
  case (between th tr sc s es s1 j1 machine)
  note o = opened_pending [OF between(3) assms(2)]
  from calm_end_pending [OF between(4) _ o(1)] o(2)
  have "pending {store_ops (client_ops es) v | v. v \<in> S} (dir s1)" by blast
  from pending_restart [OF this between(5)] show ?thesis
    unfolding between(1,2) by (rule pending_mono) auto
next
  case (during th tr sc s es s1 j1 e s' j' machine)
  note o = opened_pending [OF during(3) assms(2)]
  from run_with_thread_pending [OF during(4) _ o(1) _ _ during(5,6)] o(2)
  have "pending (\<Union>v \<in> S. {store_ops (returned_ops es e) v, store_ops (client_ops (es @ [e])) v}) (dir s')" by blast
  from pending_restart [OF this during(7)] show ?thesis
    unfolding during(1,2) returned_ops_take .
qed

interpretation threaded: process_model threaded_life
  by unfold_locales (rule threaded_life_pending)


section \<open>A run with two flushes\<close>

text \<open>A fresh engine that flushes at every update and compacts from two tables on.\<close>

lemma two_flushes:
  obtains s s3 merged where "Database_construct (Database_init 1 2 [] []) = (Ret (), s)"
    and "calm_run (s, Idle) [Client (Put [1] [2]) (Ret ()), Client (Put [3] [4]) (Ret ()), Compactor] (s3, Started)"
    and "system_step (s3, Started) Compactor (s3, Merged 2 merged)"
proof -
  obtain s where s: "Database_construct (Database_init 1 2 [] []) = (Ret (), s)"
    using fresh_engine_opened by blast
  note o = opened_empty [OF s, simplified]
  have idle: "script s = []" by (rule construct_script [OF s]) simp
  have th: "flush_threshold_bytes s = 1" "compaction_trigger_count s = 2"
    using preservesD [OF preserves_construct s, of flush_threshold_bytes]
      preservesD [OF preserves_construct s, of compaction_trigger_count]
    by (simp_all add: outside_opening_def blind_def Database_init_def)
  have small: "(1 :: u64) \<le> approximate_size_bytes (memtable_op (Put [a] [b]) MemTable_init)" for a b
    by (simp add: memtable_put_def Upsert_def EntrySize_def MemTable_init_def Let_def)
  have fits1: "op_fits (Put [1] [2]) s" by (rule small_put_fits [OF o(4,5)])
  from Database_op_proceeds [OF idle o(1) fits1] obtain s1 where
    op1: "Database_op (Put [1] [2]) s = (Ret (), s1)" and idle1: "script s1 = []" by blast
  note out1 = op_outcome [OF op1 o(1,2) fits1, simplified]
  note f1 = flushing_op [OF op1, unfolded o th, OF small, simplified]
  have "(2 :: u64) < - 1"
    by (simp add: word_less_nat_alt unsigned_minus_1_eq_mask mask_eq_exp_minus_1)
  then have fits2: "op_fits (Put [3] [4]) s1"
    using small_put_fits [of "s\<lparr>memtable := MemTable_init, next_sstable_number := 1\<rparr>" 3 4] f1 by (simp add: op_fits_def)
  from Database_op_proceeds [OF idle1 _ fits2] out1 obtain s2 where
    op2: "Database_op (Put [3] [4]) s1 = (Ret (), s2)" by blast
  have good2: "db_good s2" using op_outcome [OF op2 _ _ fits2] out1 by simp
  have "flush_threshold_bytes s1 \<le> approximate_size_bytes (memtable_op (Put [3] [4]) (memtable s1))"
    using f1 small by simp
  from flushing_op [OF op2 this] have f2: "compaction_requested s2" "length (sstables s2) = 2" using f1 by simp_all
  have "\<forall>r \<in> set (sstables s2). reader_ok r" using db_good_live [OF good2] by (simp add: live_ok_def)
  then obtain merged where merged: "compact_merge (sstables s2) = Inr merged" by (rule compact_merge_ok)
  have 1: "calm_run (s, Idle) [Client (Put [1] [2]) (Ret ())] (s1, Idle)"
    using calm_step [OF calm_start system_step.client [OF op1 fits1]] by simp
  have 2: "calm_run (s, Idle) [Client (Put [1] [2]) (Ret ()), Client (Put [3] [4]) (Ret ())] (s2, Idle)"
    using calm_step [OF 1 system_step.client [OF op2 fits2]] by simp
  let ?s3 = "s2\<lparr>compaction_requested := False\<rparr>"
  have 3: "calm_run (s, Idle) [Client (Put [1] [2]) (Ret ()), Client (Put [3] [4]) (Ret ()), Compactor] (?s3, Started)"
    using calm_step [OF 2 system_step.take_up [OF f2(1)]] by simp
  have "system_step (?s3, Started) Compactor (?s3, Merged 2 merged)"
    using system_step.snapshot [of ?s3 merged] merged f2(2) by simp
  with s 3 show thesis by (rule that)
qed

section \<open>Properties\<close>

text \<open>
  C2. Acknowledged writes survive any number of processes with the compaction thread at work
  in each of them, interleaved with the clients, the calls of its unlocked write included, and
  cut off wherever the process ends, as long as no flush comes between a compaction's merge and
  its file number, every old file is removed and the file numbers do not run out
  (\<open>undisturbed\<close>): the next process finds the store of all updates that ever returned,
  in order, and of each process at most the one that was running when it ended.
\<close>

theorem generations_with_thread:
  assumes "recoverable (map_of fs)" and "wal_durable (map_of fs)" and "lives threaded_life fs hist fs'"
  shows "\<exists>t h. Database_construct (Database_init th tr fs' []) = (Ret (), t) \<and> keeps_returned hist h \<and>
    (\<forall>k. Database_get t k = Inr (store_ops h (disk_store (map_of fs)) k))"
  using assms by (rule threaded.keep_writes)

theorem generations_with_thread_witness:
  "\<exists>fs' t. lives threaded_life [] [([Put [1] [2], Put [3] [4]], 2), ([Put [1] [5]], 0)] fs' \<and>
    Database_construct (Database_init 1 2 fs' []) = (Ret (), t) \<and> Database_get t [3] = Inr (Some [4])"
proof -
  from two_flushes obtain s s2 merged where s: "Database_construct (Database_init 1 2 [] []) = (Ret (), s)"
    and 2: "calm_run (s, Idle) [Client (Put [1] [2]) (Ret ()), Client (Put [3] [4]) (Ret ()), Compactor] (s2, Started)"
    and 3: "system_step (s2, Started) Compactor (s2, Merged 2 merged)" by blast
  have same: "restart False fs fs" for fs by (simp add: restart_def)
  have "threaded_life [] [Put [1] [2], Put [3] [4]] 2 (files s2)"
    using threaded_life.during [OF s 2 3, of False "files s2"] same by (simp add: returned_ops_def numeral_2_eq_2)
  from lives.another [where process = threaded_life, OF lives.first this]
  have 4: "lives threaded_life [] [([Put [1] [2], Put [3] [4]], 2)] (files s2)" by simp
  let ?w = "Database_init 1 4 (files s2) [Kill]"
  have "Database_construct ?w = (Killed, ?w\<lparr>script := []\<rparr>)"
    by (simp add: Database_construct_def andthen_def syscall_def next_event_def)
  then have "threaded_life (files s2) [Put [1] [5]] 0 (files s2)"
    by (rule threaded_life.dies_opening [where machine = False]) (simp_all add: same)
  from lives.another [where process = threaded_life, OF 4 this]
  have lives: "lives threaded_life [] [([Put [1] [2], Put [3] [4]], 2), ([Put [1] [5]], 0)] (files s2)" by simp
  from generations_with_thread [OF empty_recoverable(1,2) lives, of 1 2] obtain t h where
    t: "Database_construct (Database_init 1 2 (files s2) []) = (Ret (), t)"
    and h: "keeps_returned [([Put [1] [2], Put [3] [4]], 2), ([Put [1] [5]], 0)] h"
    and get: "\<forall>k. Database_get t k = Inr (store_ops h (disk_store (map_of [])) k)" by blast
  have "h = [Put [1] [2], Put [3] [4]] \<or> h = [Put [1] [2], Put [3] [4], Put [1] [5]]" using h by auto
  then have "Database_get t [3] = Inr (Some [4])" using get by auto
  with lives t show ?thesis by blast
qed

end
