(* ===== verification/Compaction_Signals.thy ===== *)
theory Compaction_Signals
  imports LSM_Prelude
begin

text \<open>
  The signalling between clients and the compaction thread: \<^verbatim>\<open>MaybeTriggerCompaction\<close>,
  \<^verbatim>\<open>CompactionThreadMain\<close>, \<^verbatim>\<open>WaitForBackgroundCompaction\<close> and the destructor of
  \<^verbatim>\<open>src/database.cpp\<close>. All of them share one mutex and one condition variable. A stretch
  of code under the mutex is one step; a notification comes after the mutex is released, so
  it is a step of its own, and other threads can run in between.

  A condition variable wakes one sleeping thread, any one, for \<^verbatim>\<open>notify_one\<close>, all of them
  for \<^verbatim>\<open>notify_all\<close>, and nobody when nobody sleeps; a sleeper may also wake by itself. A
  woken thread tests its predicate again before it goes on.
\<close>

section \<open>The threads\<close>

text \<open>
  Where the compaction thread stands: about to take the mutex and test its predicate, asleep
  in \<^verbatim>\<open>wait\<close>, in \<^verbatim>\<open>CompactOnce\<close>, about to call \<^verbatim>\<open>notify_all\<close>, returned.
\<close>

datatype thread_pc = Testing | Asleep | Compacting | Notifying | Exited

text \<open>
  The flags; the thread; how many threads have set a flag and not called \<^verbatim>\<open>notify_one\<close> yet;
  how many callers of \<^verbatim>\<open>WaitForBackgroundCompaction\<close> are about to test their predicate, and
  how many sleep.
\<close>

record signals =
  requested :: bool
  running :: bool
  shutting_down :: bool
  thread :: thread_pc
  notifiers :: nat
  waiters_testing :: nat
  waiters_asleep :: nat

definition signals_init :: signals where
  "signals_init = \<lparr>requested = False, running = False, shutting_down = False, thread = Testing,
     notifiers = 0, waiters_testing = 0, waiters_asleep = 0\<rparr>"

text \<open>What happens from outside, and what the threads then do.\<close>

datatype signal_event = Request | Shutdown | Wait_call | Spurious | Internal

text \<open>The second half of \<^verbatim>\<open>MaybeTriggerCompaction\<close>, and the destructor up to its \<^verbatim>\<open>join\<close>.\<close>

definition trigger :: "signals \<Rightarrow> signals" where
  "trigger s = s\<lparr>requested := True, notifiers := notifiers s + 1\<rparr>"

definition shut_down :: "signals \<Rightarrow> signals" where
  "shut_down s = s\<lparr>shutting_down := True, notifiers := notifiers s + 1\<rparr>"

text \<open>The predicates of the two \<^verbatim>\<open>wait\<close> calls.\<close>

definition thread_wanted :: "signals \<Rightarrow> bool" where
  "thread_wanted s \<longleftrightarrow> requested s \<or> shutting_down s"

definition compaction_over :: "signals \<Rightarrow> bool" where
  "compaction_over s \<longleftrightarrow> \<not> requested s \<and> \<not> running s"

lemmas signal_defs [simp] = trigger_def shut_down_def thread_wanted_def compaction_over_def

inductive signal_step :: "signals \<Rightarrow> signal_event \<Rightarrow> signals \<Rightarrow> bool" where
  request: "signal_step s Request (trigger s)"
| shutdown: "\<not> shutting_down s \<Longrightarrow>
     signal_step s Shutdown (shut_down s)"
| wait_call: "signal_step s Wait_call (s\<lparr>waiters_testing := waiters_testing s + 1\<rparr>)"
| spurious_thread: "thread s = Asleep \<Longrightarrow> signal_step s Spurious (s\<lparr>thread := Testing\<rparr>)"
| spurious_waiter: "waiters_asleep s = Suc n \<Longrightarrow>
     signal_step s Spurious (s\<lparr>waiters_asleep := n, waiters_testing := waiters_testing s + 1\<rparr>)"
| notify_thread: "notifiers s = Suc n \<Longrightarrow> thread s = Asleep \<Longrightarrow>
     signal_step s Internal (s\<lparr>notifiers := n, thread := Testing\<rparr>)"
| notify_waiter: "notifiers s = Suc n \<Longrightarrow> waiters_asleep s = Suc m \<Longrightarrow>
     signal_step s Internal
       (s\<lparr>notifiers := n, waiters_asleep := m, waiters_testing := waiters_testing s + 1\<rparr>)"
| notify_nobody: "notifiers s = Suc n \<Longrightarrow> thread s \<noteq> Asleep \<Longrightarrow> waiters_asleep s = 0 \<Longrightarrow>
     signal_step s Internal (s\<lparr>notifiers := n\<rparr>)"
| thread_sleeps: "thread s = Testing \<Longrightarrow> \<not> thread_wanted s \<Longrightarrow>
     signal_step s Internal (s\<lparr>thread := Asleep\<rparr>)"
| thread_exits: "thread s = Testing \<Longrightarrow> thread_wanted s \<Longrightarrow> shutting_down s \<Longrightarrow>
     signal_step s Internal (s\<lparr>thread := Exited\<rparr>)"
| thread_starts: "thread s = Testing \<Longrightarrow> thread_wanted s \<Longrightarrow> \<not> shutting_down s \<Longrightarrow>
     signal_step s Internal (s\<lparr>requested := False, running := True, thread := Compacting\<rparr>)"
| thread_finishes: "thread s = Compacting \<Longrightarrow>
     signal_step s Internal (s\<lparr>running := False, thread := Notifying\<rparr>)"
| thread_notifies: "thread s = Notifying \<Longrightarrow>
     signal_step s Internal
       (s\<lparr>thread := Testing, waiters_testing := waiters_testing s + waiters_asleep s, waiters_asleep := 0\<rparr>)"
| waiter_returns: "waiters_testing s = Suc n \<Longrightarrow> compaction_over s \<Longrightarrow>
     signal_step s Internal (s\<lparr>waiters_testing := n\<rparr>)"
| waiter_sleeps: "waiters_testing s = Suc n \<Longrightarrow> \<not> compaction_over s \<Longrightarrow>
     signal_step s Internal (s\<lparr>waiters_testing := n, waiters_asleep := waiters_asleep s + 1\<rparr>)"

inductive signal_run :: "signals \<Rightarrow> signal_event list \<Rightarrow> signals \<Rightarrow> bool" where
  start: "signal_run s [] s"
| step: "signal_step s e s' \<Longrightarrow> signal_run s' es s'' \<Longrightarrow> signal_run s (e # es) s''"

inductive_cases internal_step: "signal_step s Internal s'"
inductive_cases any_step: "signal_step s e s'"
inductive_cases run_cons: "signal_run s (e # es) s'"
inductive_simps signal_run_Nil: "signal_run s [] s'"

section \<open>Invariants\<close>

text \<open>The flags agree with the thread.\<close>

definition flags_agree :: "signals \<Rightarrow> bool" where
  "flags_agree s \<longleftrightarrow> (running s \<longleftrightarrow> thread s = Compacting) \<and> (thread s = Exited \<longrightarrow> shutting_down s)"

lemma step_flags_agree: "signal_step s e s' \<Longrightarrow> flags_agree s \<Longrightarrow> flags_agree s'"
  by (cases rule: any_step) (auto simp: flags_agree_def)

text \<open>Something to do for the thread, and it sleeps: then somebody is about to wake it.\<close>

definition awaited :: "signals \<Rightarrow> bool" where
  "awaited s \<longleftrightarrow> (thread s = Asleep \<and> (requested s \<or> shutting_down s) \<longrightarrow> 0 < notifiers s)"

lemma step_awaited:
  "signal_step s e s' \<Longrightarrow> waiters_asleep s = 0 \<Longrightarrow> awaited s \<Longrightarrow> awaited s'"
  by (cases rule: any_step) (auto simp: awaited_def)

text \<open>A sleeping waiter has something to wait for, and the notification comes with its end.\<close>

definition waiters_awaited :: "signals \<Rightarrow> bool" where
  "waiters_awaited s \<longleftrightarrow> (0 < waiters_asleep s \<longrightarrow> requested s \<or> thread s = Compacting \<or> thread s = Notifying)"

lemma step_waiters_awaited:
  "signal_step s e s' \<Longrightarrow> flags_agree s \<Longrightarrow> waiters_awaited s \<Longrightarrow> waiters_awaited s'"
  by (cases rule: any_step) (auto simp: waiters_awaited_def flags_agree_def)

section \<open>Internal steps end\<close>

fun thread_rank :: "thread_pc \<Rightarrow> nat" where
  "thread_rank Asleep = 0"
| "thread_rank Exited = 0"
| "thread_rank Testing = 1"
| "thread_rank Notifying = 2"
| "thread_rank Compacting = 3"

definition waiters :: "signals \<Rightarrow> nat" where
  "waiters s = waiters_testing s + waiters_asleep s"

definition load :: "signals \<Rightarrow> nat" where
  "load s = thread_rank (thread s) + (if requested s then 4 else 0) + 2 * notifiers s"

text \<open>
  A bound on the number of internal steps: each unit of load wakes at most all the waiters,
  and each waiter that is awake tests once.
\<close>

definition work_left :: "signals \<Rightarrow> nat" where
  "work_left s = (waiters s + 1) * load s + waiters_testing s"

lemma internal_load:
  "signal_step s Internal s' \<Longrightarrow> waiters s' \<le> waiters s \<and>
     (load s' < load s \<or> load s' = load s \<and> waiters_testing s' < waiters_testing s)"
  by (cases rule: internal_step) (auto simp: load_def waiters_def)

lemma internal_work:
  assumes "signal_step s Internal s'"
  shows "work_left s' < work_left s"
proof -
  have w: "waiters s' \<le> waiters s" and t: "waiters_testing s' \<le> waiters s'"
    using internal_load [OF assms] by (simp_all add: waiters_def)
  from internal_load [OF assms] consider "load s' < load s"
    | "load s' = load s" "waiters_testing s' < waiters_testing s" by blast
  then show ?thesis
  proof cases
    case 1
    have "(waiters s' + 1) * load s' + (waiters s + 1) \<le> (waiters s + 1) * load s' + (waiters s + 1)"
      using w by simp
    also have "\<dots> = (waiters s + 1) * (load s' + 1)" by (simp only: distrib_left mult_1_right)
    also have "\<dots> \<le> (waiters s + 1) * load s" using 1 by (intro mult_le_mono2) simp
    finally show ?thesis using w t by (simp add: work_left_def)
  next
    case 2
    have "(waiters s' + 1) * load s \<le> (waiters s + 1) * load s" using w by (intro mult_le_mono1) simp
    with 2(2) show ?thesis unfolding work_left_def 2(1) by linarith
  qed
qed

section \<open>Reachable states\<close>

lemma run_flags: "signal_run s es s' \<Longrightarrow> flags_agree s \<and> waiters_awaited s \<Longrightarrow> flags_agree s' \<and> waiters_awaited s'"
  by (induction rule: signal_run.induct) (auto intro: step_flags_agree step_waiters_awaited)

lemma no_waiters_step:
  "signal_step s e s' \<Longrightarrow> e \<noteq> Wait_call \<Longrightarrow> waiters s = 0 \<Longrightarrow> waiters s' = 0"
  by (cases rule: any_step) (auto simp: waiters_def)

lemma run_awaited:
  "signal_run s es s' \<Longrightarrow> Wait_call \<notin> set es \<Longrightarrow> waiters s = 0 \<Longrightarrow> awaited s \<Longrightarrow> awaited s'"
proof (induction rule: signal_run.induct)
  case (start s)
  then show ?case by simp
next
  case (step s e s' es s'')
  then have "awaited s'" using step_awaited [OF step.hyps(1)] by (simp add: waiters_def)
  moreover have "waiters s' = 0" using no_waiters_step [OF step.hyps(1)] step.prems by auto
  ultimately show ?case using step.IH step.prems by simp
qed

text \<open>Nobody can move: every thread sleeps, or has returned.\<close>

lemma quiet_state:
  assumes "\<nexists>s'. signal_step s Internal s'"
  shows "notifiers s = 0" and "waiters_testing s = 0" and "thread s = Asleep \<or> thread s = Exited"
proof -
  show "notifiers s = 0"
  proof (cases "notifiers s")
    case (Suc n)
    then show ?thesis
      using assms signal_step.notify_thread notify_waiter notify_nobody
      by (metis not0_implies_Suc)
  qed
  show "waiters_testing s = 0"
    using assms waiter_returns waiter_sleeps by (metis not0_implies_Suc)
  show "thread s = Asleep \<or> thread s = Exited"
    using assms thread_sleeps thread_exits thread_starts thread_finishes thread_notifies
    by (metis thread_pc.exhaust)
qed

section \<open>When no thread can move\<close>

text \<open>
  No request is forgotten while nobody calls \<open>WaitForBackgroundCompaction\<close>: in any
  reachable state in which no thread can move, the compaction thread has taken up every
  request, and after a shutdown it has returned, so that the destructor's \<open>join\<close> does too.
\<close>

lemma requests_are_served:
  assumes "signal_run signals_init es s" and "Wait_call \<notin> set es"
    and "\<nexists>s'. signal_step s Internal s'"
  shows "if shutting_down s then thread s = Exited else thread s = Asleep \<and> \<not> requested s \<and> \<not> running s"
proof -
  have "awaited signals_init" and "waiters signals_init = 0"
    by (simp_all add: signals_init_def awaited_def waiters_def)
  then have "awaited s" using run_awaited [OF assms(1,2)] by simp
  moreover have "flags_agree s"
    using run_flags [OF assms(1)] by (simp add: signals_init_def flags_agree_def waiters_awaited_def)
  ultimately show ?thesis
    using quiet_state [OF assms(3)] by (auto simp: awaited_def flags_agree_def)
qed

text \<open>
  No waiter is left behind: in any reachable state in which no thread can move and no
  request is pending, every call of \<open>WaitForBackgroundCompaction\<close> has returned.
\<close>

lemma waiters_are_released:
  assumes "signal_run signals_init es s" and "\<not> requested s"
    and "\<nexists>s'. signal_step s Internal s'"
  shows "waiters s = 0"
proof -
  have "waiters_awaited s"
    using run_flags [OF assms(1)] by (simp add: signals_init_def flags_agree_def waiters_awaited_def)
  then show ?thesis
    using quiet_state [OF assms(3)] assms(2) by (auto simp: waiters_awaited_def waiters_def)
qed

section \<open>Properties\<close>

text \<open>
  C24. A request can be lost: \<open>notify_one\<close> can wake a caller of
  \<open>WaitForBackgroundCompaction\<close> instead of the compaction thread. The caller finds the
  request still pending and sleeps again, the thread was never woken: the request is
  pending, nobody moves and nobody is about to.
\<close>

theorem notify_one_lost_wakeup:
  "\<exists>s. signal_run signals_init [Internal, Request, Wait_call, Internal, Internal, Internal] s \<and>
     requested s \<and> thread s = Asleep \<and> waiters_asleep s = 1 \<and> (\<nexists>s'. signal_step s Internal s')"
proof -
  let ?s1 = "signals_init\<lparr>thread := Asleep\<rparr>"
  let ?s2 = "?s1\<lparr>requested := True, notifiers := 1\<rparr>"
  let ?s3 = "?s2\<lparr>waiters_testing := 1\<rparr>"
  let ?s4 = "?s2\<lparr>waiters_testing := 0, waiters_asleep := 1\<rparr>"
  let ?s5 = "?s2\<lparr>notifiers := 0, waiters_asleep := 0, waiters_testing := 1\<rparr>"
  let ?s6 = "?s2\<lparr>notifiers := 0, waiters_testing := 0, waiters_asleep := 1\<rparr>"
  have "signal_step signals_init Internal ?s1"
    by (rule thread_sleeps) (simp_all add: signals_init_def)
  moreover have "signal_step ?s1 Request ?s2"
    using request [of ?s1] by (simp add: signals_init_def)
  moreover have "signal_step ?s2 Wait_call ?s3"
    using wait_call [of ?s2] by (simp add: signals_init_def)
  moreover have "signal_step ?s3 Internal ?s4"
    using waiter_sleeps [of ?s3 0] by (simp add: signals_init_def)
  moreover have "signal_step ?s4 Internal ?s5"
    using notify_waiter [of ?s4 0 0] by (simp add: signals_init_def)
  moreover have "signal_step ?s5 Internal ?s6"
    using waiter_sleeps [of ?s5 0] by (simp add: signals_init_def)
  ultimately have "signal_run signals_init [Internal, Request, Wait_call, Internal, Internal, Internal] ?s6"
    by (intro signal_run.step [OF _ signal_run.step [OF _ signal_run.step [OF _ signal_run.step
      [OF _ signal_run.step [OF _ signal_run.step [OF _ signal_run.start]]]]]])
  moreover have "\<nexists>s'. signal_step ?s6 Internal s'"
    by (auto simp: signals_init_def elim!: internal_step)
  ultimately show ?thesis by (intro exI [of _ ?s6]) (simp add: signals_init_def)
qed

end
