(* ===== verification/Engine_Threads.thy ===== *)
theory Engine_Threads
  imports Thread_Generations Compaction_Signals
begin

text \<open>
  The engine with its threads: the data of \<open>system_step\<close> and the flags and wake-ups of
  \<open>signal_step\<close> together, synchronised where the code has both: an update whose flush passes
  the guard of \<^verbatim>\<open>MaybeTriggerCompaction\<close> is a request, and the thread takes the request up
  when it starts a compaction and announces the end when \<^verbatim>\<open>CompactOnce\<close> has returned.
\<close>

section \<open>The threads on the data\<close>

type_synonym engine = "(database \<times> job) \<times> signals"

text \<open>
  An update, with its result and whether it asked for a compaction; the thread taking up a
  request; a step of \<^verbatim>\<open>CompactOnce\<close>; anything else that concerns flags and wake-ups only. The
  destructor may not run while an update does.
\<close>

datatype engine_event = Update kv_op "unit result" bool | Take_up | Compact | Signal signal_event

inductive engine_step :: "engine \<Rightarrow> engine_event \<Rightarrow> engine \<Rightarrow> bool" where
  update: "Database_op x s = (r, s') \<Longrightarrow> op_fits x s \<Longrightarrow> j \<noteq> Dead \<Longrightarrow> \<not> shutting_down g \<Longrightarrow>
     engine_step ((s, j), g) (Update x r (asks r s s')) ((s', j), if asks r s s' then trigger g else g)"
| take_up: "signal_step g Internal g' \<Longrightarrow> thread g \<noteq> Compacting \<Longrightarrow> thread g' = Compacting \<Longrightarrow>
     engine_step ((s, Idle), g) Take_up ((s\<lparr>compaction_requested := False\<rparr>, Started), g')"
| compact: "system_step (s, j) Compactor (s', j') \<Longrightarrow> j \<noteq> Idle \<Longrightarrow>
     engine_step ((s, j), g) Compact ((s', j'), g)"
| signal: "signal_step g e g' \<Longrightarrow> e \<noteq> Request \<Longrightarrow> j \<noteq> Dead \<Longrightarrow>
     (thread g' = Compacting \<longrightarrow> thread g = Compacting) \<Longrightarrow>
     (thread g = Compacting \<and> thread g' \<noteq> Compacting \<longrightarrow> j = Idle) \<Longrightarrow>
     engine_step ((s, j), g) (Signal e) ((s, j), g')"

inductive_cases engine_cases: "engine_step ((s, j), g) e c"

inductive engine_run :: "engine \<Rightarrow> engine_event list \<Rightarrow> engine \<Rightarrow> bool" where
  engine_start: "engine_run c [] c"
| engine_next: "engine_run c es c' \<Longrightarrow> engine_step c' e c'' \<Longrightarrow> engine_run c (es @ [e]) c''"

text \<open>What a run does to the data, and to the flags.\<close>

fun data_events :: "engine_event list \<Rightarrow> event list" where
  "data_events [] = []"
| "data_events (Update x r a # es) = Client x r # data_events es"
| "data_events (Take_up # es) = Compactor # data_events es"
| "data_events (Compact # es) = Compactor # data_events es"
| "data_events (Signal e # es) = data_events es"

fun signal_events :: "engine_event list \<Rightarrow> signal_event list" where
  "signal_events [] = []"
| "signal_events (Update x r a # es) = (if a then Request # signal_events es else signal_events es)"
| "signal_events (Take_up # es) = Internal # signal_events es"
| "signal_events (Compact # es) = signal_events es"
| "signal_events (Signal e # es) = e # signal_events es"

lemma data_events_append: "data_events (es @ ds) = data_events es @ data_events ds"
  by (induction es rule: data_events.induct) simp_all

lemma signal_events_append: "signal_events (es @ ds) = signal_events es @ signal_events ds"
  by (induction es rule: signal_events.induct) simp_all

section \<open>Both parts of a run\<close>

text \<open>The flag of the data is the flag of the signals, and a compaction under way is \<^const>\<open>running\<close>.\<close>

fun linked :: "engine \<Rightarrow> bool" where
  "linked ((s, j), g) \<longleftrightarrow> compaction_requested s = requested g \<and> (j \<noteq> Idle \<longrightarrow> thread g = Compacting)"

lemma thread_starts_cases:
  assumes "signal_step g Internal g'" and "thread g \<noteq> Compacting" and "thread g' = Compacting"
  shows "requested g" and "\<not> requested g'" and "thread g = Testing" and "\<not> shutting_down g"
  using assms by (auto elim: internal_step)

lemma signal_keeps_request:
  "signal_step g e g' \<Longrightarrow> e \<noteq> Request \<Longrightarrow> (thread g' = Compacting \<longrightarrow> thread g = Compacting) \<Longrightarrow>
     requested g' = requested g"
  by (cases rule: any_step) auto

lemma preserves_write_step:
  assumes "blind f"
  shows "preserves f (write_step j)"
proof -
  note at = blind_blind_at [OF assms, of UNIV] UNIV_I
  note calls = preserves_WriteAll [OF at] preserves_file_calls(1,3) [OF at] preserves_file_calls(6) [OF at UNIV_I]
    preserves_SSTableReader_open [OF assms]
  show ?thesis
    by (cases j rule: write_step.cases; simp add: sstable_sections_eq)
      (intro preserves_andthen preserves_basic preserves_if calls)+
qed

lemma write_step_fields:
  assumes "write_step j s = (r, s')"
  shows "compaction_requested s' = compaction_requested s"
    and "compaction_trigger_count s' = compaction_trigger_count s" and "sstables s' = sstables s"
  using preservesD [OF preserves_write_step [OF blind_flush_fields] assms] by (simp_all add: flush_fields_def)

lemma sys_remove_fields: "sys_remove path s = (r, s') \<Longrightarrow> flush_fields s' = flush_fields s"
  unfolding sys_remove_def by (auto simp: flush_fields_def elim!: syscall_cases)

lemma compact_keeps_request:
  assumes "system_step (s, j) Compactor (s', j')" and "j \<noteq> Idle"
  shows "compaction_requested s' = compaction_requested s"
  using assms(1)
proof (cases rule: compactor_cases)
  case write_call
  then show ?thesis using write_step_fields(1) by blast
next
  case write_throws
  then show ?thesis using write_step_fields(1) by blast
next
  case (delete path removed paths)
  then show ?thesis using sys_remove_fields [OF delete(3)] by (simp add: flush_fields_def)
next
  case (delete_killed path paths)
  then show ?thesis using sys_remove_fields [OF delete_killed(3)] by (simp add: flush_fields_def)
next
  case take_up
  then show ?thesis using assms(2) by simp
qed (auto simp: compact_allocate_def compact_swap_def)

lemma engine_linked: "engine_step c e c' \<Longrightarrow> linked c \<Longrightarrow> linked c'"
proof (induction rule: engine_step.induct)
  case (update x s r s' j g)
  with op_requests [OF update(1)] show ?case by auto
next
  case (take_up g g' s)
  with thread_starts_cases(2) [OF take_up(1-3)] show ?case by simp
next
  case (compact s j s' j' g)
  with compact_keeps_request [OF compact(1,2)] show ?case by simp
next
  case (signal g e g' j s)
  with signal_keeps_request [OF signal(1,2,4)] show ?case by auto
qed

lemma signal_run_snoc: "signal_run s es s' \<Longrightarrow> signal_step s' e s'' \<Longrightarrow> signal_run s (es @ [e]) s''"
  by (induction rule: signal_run.induct) (auto intro: signal_run.intros)

lemma engine_parts:
  "engine_run c es c' \<Longrightarrow> linked c \<Longrightarrow>
     linked c' \<and> system_run (fst c) (data_events es) (fst c') \<and> signal_run (snd c) (signal_events es) (snd c')"
proof (induction rule: engine_run.induct)
  case (engine_start c)
  then show ?case by (simp add: system_run.start signal_run.start)
next
  case (engine_next c es c' e c'')
  then have IH: "linked c'" "system_run (fst c) (data_events es) (fst c')"
    "signal_run (snd c) (signal_events es) (snd c')" by simp_all
  from engine_next.hyps(2) IH have "system_run (fst c) (data_events (es @ [e])) (fst c'') \<and>
      signal_run (snd c) (signal_events (es @ [e])) (snd c'')"
  proof (cases rule: engine_step.cases)
    case (update x s r s' j g)
    have "system_run (fst c) (data_events es @ [Client x r]) (s', j)"
      using IH(2) system_step.client [OF update(4-6)] by (auto simp: update intro: system_run.step)
    moreover have "signal_step g Request (trigger g)" by (rule request)
    ultimately show ?thesis
      using IH(3) by (auto simp: update data_events_append signal_events_append intro: signal_run_snoc)
  next
    case (take_up g g' s)
    have "compaction_requested s" using IH(1) thread_starts_cases(1) [OF take_up(4-6)] by (simp add: take_up)
    from system_run.step [OF IH(2), of Compactor] system_step.take_up [OF this] take_up(4) IH(3) show ?thesis
      by (auto simp: take_up data_events_append signal_events_append intro: signal_run_snoc)
  next
    case (compact s j s' j' g)
    with system_run.step [OF IH(2), of Compactor] IH(3) show ?thesis
      by (auto simp: data_events_append signal_events_append)
  next
    case (signal g e' g' j s)
    with IH(2,3) show ?thesis
      by (auto simp: data_events_append signal_events_append intro: signal_run_snoc)
  qed
  with engine_linked [OF engine_next.hyps(2) IH(1)] show ?case by blast
qed


section \<open>No thread moves for ever\<close>

text \<open>A snapshot is of at least two tables, all of which are still there until the swap.\<close>

fun snapshot_size :: "job \<Rightarrow> nat option" where
  "snapshot_size (Merged n merged) = Some n"
| "snapshot_size (Allocated n merged number) = Some n"
| "snapshot_size (Writing n merged number sections) = Some n"
| "snapshot_size (Synced n merged number) = Some n"
| "snapshot_size (Renamed n merged number) = Some n"
| "snapshot_size (Written n reader) = Some n"
| "snapshot_size j = None"

fun snapshot_ok :: "database \<times> job \<Rightarrow> bool" where
  "snapshot_ok (s, j) \<longleftrightarrow> (\<forall>n. snapshot_size j = Some n \<longrightarrow> 2 \<le> n \<and> n \<le> length (sstables s))"

declare snapshot_ok.simps [simp del]

lemma snapshot_ok_cases [simp]:
  "snapshot_size j = None \<Longrightarrow> snapshot_ok (s, j)"
  "snapshot_size j = Some n \<Longrightarrow> snapshot_ok (s, j) \<longleftrightarrow> 2 \<le> n \<and> n \<le> length (sstables s)"
  by (simp_all add: snapshot_ok.simps)

fun job_rank :: "database \<times> job \<Rightarrow> nat" where
  "job_rank (s, Started) = length (sstables s) + 12"
| "job_rank (s, Merged n merged) = n + 11"
| "job_rank (s, Written n reader) = n + 3"
| "job_rank (s, Deleting paths) = length paths + 2"
| "job_rank (s, Idle) = 0"
| "job_rank (s, Dead) = 0"
| "job_rank (s, j) = the (snapshot_size j) + 3 + calls_left j"

lemma write_step_progress:
  assumes "write_step j s = (Ret j', s')" and "writing j = Some (n, merged, number)"
  shows "job_rank (s', j') < job_rank (s, j)" and "snapshot_size j = Some n" and "snapshot_size j' = Some n"
proof -
  note calls = write_step_calls [OF assms]
  show n: "snapshot_size j = Some n" using assms(2) by (cases j) simp_all
  show n': "snapshot_size j' = Some n" using calls by (cases j') auto
  have "job_rank (s, j) = n + 3 + calls_left j" using assms(2) n by (cases j) simp_all
  moreover have "job_rank (s', j') = n + 3 + calls_left j'" using calls n' by (cases j') auto
  ultimately show "job_rank (s', j') < job_rank (s, j)" using calls by simp
qed

text \<open>Every step of the thread is one towards the end of its compaction.\<close>

lemma compact_progress:
  assumes "system_step (s, j) Compactor (s', j')" and "j \<noteq> Idle" and "snapshot_ok (s, j)"
  shows "job_rank (s', j') < job_rank (s, j) \<and> length (sstables s') \<le> length (sstables s) \<and> snapshot_ok (s', j') \<and>
    compaction_trigger_count s' = compaction_trigger_count s"
  using assms(1)
proof (cases rule: compactor_cases)
  case (write_call n merged number)
  then show ?thesis
    using write_step_fields(2,3) [OF write_call(2)] write_step_progress [OF write_call(2,3)] assms(3) by simp
next
  case (write_throws r n merged number)
  have "0 < job_rank (s, j)" using write_throws(5) by (cases j) simp_all
  then show ?thesis using write_throws(1) write_step_fields(2,3) [OF write_throws(3)] by simp
next
  case (swap n reader old_paths)
  then show ?thesis using assms(3) by (auto simp: compact_swap_def)
next
  case (delete path removed paths)
  then show ?thesis using sys_remove_fields [OF delete(3)] by (simp add: flush_fields_def)
next
  case (delete_killed path paths)
  then show ?thesis using sys_remove_fields [OF delete_killed(3)] by (simp add: flush_fields_def)
next
  case take_up
  then show ?thesis using assms(2) by simp
next
  case (allocate number n merged)
  then show ?thesis using assms(3) by (auto simp: compact_allocate_def)
qed simp_all

text \<open>A bound on the steps the threads take of their own accord.\<close>

fun engine_work :: "engine \<Rightarrow> nat" where
  "engine_work ((s, j), g) = job_rank (s, j) + work_left g * (length (sstables s) + 13)"

definition own_event :: "engine_event \<Rightarrow> bool" where
  "own_event e \<longleftrightarrow> e \<in> {Take_up, Compact, Signal Internal}"

lemma own_step_work:
  assumes "engine_step c e c'" and "own_event e" and "snapshot_ok (fst c)"
  shows "engine_work c' < engine_work c \<and> snapshot_ok (fst c')"
  using assms(1)
proof (cases rule: engine_step.cases)
  case (update x s r s' j g)
  with assms(2) show ?thesis by (simp add: own_event_def)
next
  case (take_up g g' s)
  have "Suc (work_left g') \<le> work_left g" using internal_work [OF take_up(4)] by simp
  then have "(length (sstables s) + 13) * Suc (work_left g') \<le> (length (sstables s) + 13) * work_left g"
    by (rule mult_le_mono2)
  with take_up show ?thesis by (simp add: algebra_simps)
next
  case (compact s j s' j' g)
  with compact_progress [OF compact(4,5)] assms(3)
  have p: "job_rank (s', j') < job_rank (s, j)" "length (sstables s') \<le> length (sstables s)" "snapshot_ok (s', j')"
    by simp_all
  have "work_left g * (length (sstables s') + 13) \<le> work_left g * (length (sstables s) + 13)"
    using p(2) by (intro mult_le_mono2) simp
  with p(1) have "job_rank (s', j') + work_left g * (length (sstables s') + 13) < job_rank (s, j) + work_left g * (length (sstables s) + 13)"
    by (rule add_less_le_mono)
  with p(3) compact show ?thesis by simp
next
  case (signal g e' g' j s)
  then have "work_left g' < work_left g" using assms(2) by (intro internal_work) (simp add: own_event_def)
  then have "work_left g' * (length (sstables s) + 13) < work_left g * (length (sstables s) + 13)"
    by (rule mult_less_mono1) simp
  with signal assms(3) show ?thesis by simp
qed

lemma own_run_work:
  "engine_run c es c' \<Longrightarrow> \<forall>e \<in> set es. own_event e \<Longrightarrow> snapshot_ok (fst c) \<Longrightarrow>
     snapshot_ok (fst c') \<and> length es + engine_work c' \<le> engine_work c"
proof (induction rule: engine_run.induct)
  case (engine_next c es c' e c'')
  then have IH: "snapshot_ok (fst c')" "length es + engine_work c' \<le> engine_work c" and e: "own_event e" by simp_all
  from own_step_work [OF engine_next.hyps(2) e IH(1)] IH(2) show ?case by simp
qed simp

section \<open>Where all threads rest\<close>

definition quiet :: "engine \<Rightarrow> bool" where
  "quiet c \<longleftrightarrow> (\<forall>e c'. own_event e \<longrightarrow> \<not> engine_step c e c')"

text \<open>A compaction under way can always go on, unless its output outgrows the address space.\<close>

lemma compaction_moves:
  assumes "j \<noteq> Idle" and "j \<noteq> Dead" and "output_fits (s, j)"
  shows "\<exists>s' j'. system_step (s, j) Compactor (s', j')"
proof (cases "writing j = None")
  case False
  obtain r s' where "write_step j s = (r, s')" by force
  with False assms(3) show ?thesis
    by (cases r) (blast intro: system_step.write_call system_step.write_throws)+
next
  case True
  show ?thesis
  proof (cases j)
    case Started
    show ?thesis
    proof (cases "length (sstables s) < 2")
      case True
      with Started show ?thesis by (auto intro: system_step.nothing_to_do)
    next
      case False
      then have "2 \<le> length (sstables s)" by simp
      with Started show ?thesis
        by (cases "compact_merge (sstables s)") (auto intro: system_step.merge_throws system_step.snapshot)
    qed
  next
    case (Merged n merged)
    obtain number s' where "compact_allocate s = (Ret number, s')" by (simp add: compact_allocate_def)
    with Merged show ?thesis by (auto intro: system_step.allocate)
  next
    case (Written n reader)
    obtain paths s' where "compact_swap n reader s = (Ret paths, s')" by (simp add: compact_swap_def)
    with Written show ?thesis by (auto intro: system_step.swap)
  next
    case (Deleting paths)
    show ?thesis
    proof (cases paths)
      case Nil
      then show ?thesis using Deleting by (auto intro: system_step.finished)
    next
      case (Cons path rest)
      obtain r s' where r: "sys_remove path s = (r, s')" by force
      then have "r \<noteq> Throw e" for e unfolding sys_remove_def by (auto elim!: syscall_cases)
      with r Cons Deleting show ?thesis by (cases r) (auto intro: system_step.delete system_step.delete_killed)
    qed
  qed (use assms True in simp_all)
qed

lemma quiet_parts:
  assumes "quiet ((s, j), g)" and "j \<noteq> Dead" and "output_fits (s, j)"
  shows "j = Idle" and "\<nexists>g'. signal_step g Internal g'"
proof -
  show j: "j = Idle"
  proof (rule ccontr)
    assume "j \<noteq> Idle"
    from compaction_moves [OF this assms(2,3)] obtain s' j' where "system_step (s, j) Compactor (s', j')" by blast
    from engine_step.compact [OF this \<open>j \<noteq> Idle\<close>] assms(1) show False
      unfolding quiet_def own_event_def by blast
  qed
  show "\<nexists>g'. signal_step g Internal g'"
  proof
    assume "\<exists>g'. signal_step g Internal g'"
    then obtain g' where step: "signal_step g Internal g'" by blast
    show False
    proof (cases "thread g \<noteq> Compacting \<and> thread g' = Compacting")
      case True
      with engine_step.take_up [OF step, of s] assms(1) j show False by (auto simp: quiet_def own_event_def)
    next
      case False
      with engine_step.signal [OF step, of j s] assms(1) j show False by (auto simp: quiet_def own_event_def)
    qed
  qed
qed


section \<open>How many tables there can be\<close>

definition tables_limit :: "database \<Rightarrow> nat" where
  "tables_limit s = max 2 (compaction_trigger_count s)"

text \<open>Below the limit, or a request is pending, or a compaction that gets below it is under way.\<close>

fun paced :: "engine \<Rightarrow> bool" where
  "paced ((s, j), g) \<longleftrightarrow> j = Started \<or> j = Dead \<or> requested g \<or> length (sstables s) < tables_limit s \<or>
     snapshot_size j = Some (length (sstables s))"

lemma returned_op_tables:
  assumes "Database_op x s = (Ret (), s')"
  shows "compaction_trigger_count s' = compaction_trigger_count s"
    and "length (sstables s') = length (sstables s) \<and> \<not> asks (Ret ()) s s' \<or>
      length (sstables s') = Suc (length (sstables s)) \<and>
      asks (Ret ()) s s' = (compaction_trigger_count s \<le> Suc (length (sstables s)))"
  using returned_op_asks [OF assms] by (auto simp: asks_def flush_fields_def split: if_splits)

lemma paced_update:
  assumes "Database_op x s = (Ret (), s')" and "snapshot_ok (s, j)" and "paced ((s, j), g)"
  shows "paced ((s', j), if asks (Ret ()) s s' then trigger g else g) \<and> snapshot_ok (s', j)"
  using returned_op_tables [OF assms(1)] assms(2,3) by (cases j) (auto simp: tables_limit_def)

lemma paced_compact:
  assumes "system_step (s, j) Compactor (s', j')" and "j \<noteq> Idle" and "snapshot_ok (s, j)" and "paced ((s, j), g)"
  shows "paced ((s', j'), g)"
  using assms(1)
proof (cases rule: compactor_cases)
  case take_up
  then show ?thesis using assms(2) by simp
next
  case nothing_to_do
  then show ?thesis by (simp add: tables_limit_def less_max_iff_disj)
next
  case (allocate number n merged)
  then show ?thesis using assms(4) by (auto simp: compact_allocate_def tables_limit_def)
next
  case (write_call n merged number)
  then have "j \<noteq> Started" "j \<noteq> Dead" by auto
  with assms(4) show ?thesis
    using write_step_fields(2,3) [OF write_call(2)] write_step_progress(2,3) [OF write_call(2,3)]
    by (simp add: tables_limit_def)
next
  case (swap n reader old_paths)
  then have "s' = s\<lparr>sstables := reader # drop n (sstables s)\<rparr>" by (simp add: compact_swap_def)
  with swap assms(3,4) show ?thesis by (auto simp: tables_limit_def)
next
  case (delete path removed paths)
  then show ?thesis using sys_remove_fields [OF delete(3)] assms(4) by (simp add: flush_fields_def tables_limit_def)
next
  case finished
  then show ?thesis using assms(4) by simp
qed simp_all

lemma paced_step:
  assumes "engine_step c e c'" and "snapshot_ok (fst c)" and "paced c" and "\<forall>x r a. e = Update x r a \<longrightarrow> r = Ret ()"
  shows "paced c' \<and> snapshot_ok (fst c')"
  using assms(1)
proof (cases rule: engine_step.cases)
  case (update x s r s' j g)
  then have "r = Ret ()" using assms(4) by blast
  with update paced_update [of x s s' j g] assms(2,3) show ?thesis by simp
next
  case (take_up g g' s)
  then show ?thesis by simp
next
  case (compact s j s' j' g)
  with paced_compact [OF compact(4,5)] compact_progress [OF compact(4,5)] assms(2,3) show ?thesis by simp
next
  case (signal g e' g' j s)
  have "requested g' = requested g" by (rule signal_keeps_request [OF signal(4,5,7)])
  with signal assms(2,3) show ?thesis by (cases j) auto
qed

lemma paced_run:
  "engine_run c es c' \<Longrightarrow> snapshot_ok (fst c) \<Longrightarrow> paced c \<Longrightarrow> \<forall>x r a. Update x r a \<in> set es \<longrightarrow> r = Ret () \<Longrightarrow>
     paced c' \<and> snapshot_ok (fst c')"
proof (induction rule: engine_run.induct)
  case (engine_next c es c' e c'')
  then have "paced c'" "snapshot_ok (fst c')" "\<forall>x r a. e = Update x r a \<longrightarrow> r = Ret ()" by auto
  from paced_step [OF engine_next.hyps(2) this(2,1,3)] show ?case .
qed simp

section \<open>Where the threads come to rest\<close>

lemma no_wait_call: "Signal Wait_call \<notin> set es \<Longrightarrow> Wait_call \<notin> set (signal_events es)"
  by (induction es rule: signal_events.induct) auto

lemma rested:
  assumes "engine_run ((s0, Idle), signals_init) es ((s, j), g)" and "\<not> compaction_requested s0"
    and "Signal Wait_call \<notin> set es" and "quiet ((s, j), g)" and "j \<noteq> Dead" and "output_fits (s, j)"
  shows "j = Idle" and "if shutting_down g then thread g = Exited else thread g = Asleep \<and> \<not> requested g"
proof -
  note parts = quiet_parts [OF assms(4-6)]
  show "j = Idle" by (rule parts(1))
  have "signal_run signals_init (signal_events es) g"
    using engine_parts [OF assms(1)] assms(2) by (simp add: signals_init_def)
  from requests_are_served [OF this no_wait_call [OF assms(3)] parts(2)]
  show "if shutting_down g then thread g = Exited else thread g = Asleep \<and> \<not> requested g"
    by (simp split: if_splits)
qed

section \<open>Properties\<close>

text \<open>
  C22. The engine with its threads refines both of its parts: whatever happens between the
  clients, the thread, the wake-ups and the destructor is a run of updates and steps of
  \<^verbatim>\<open>CompactOnce\<close> on the data, and a run of the signalling in which requests come exactly from
  the updates that asked; the two flags \<^verbatim>\<open>compaction_requested_\<close> agree and a compaction under
  way is one that the signalling knows to be running.
\<close>

theorem engine_refines_parts:
  assumes "engine_run ((s0, Idle), signals_init) es ((s, j), g)" and "\<not> compaction_requested s0"
  shows "system_run (s0, Idle) (data_events es) (s, j) \<and> signal_run signals_init (signal_events es) g \<and>
    compaction_requested s = requested g \<and> (j \<noteq> Idle \<longrightarrow> running g)"
proof -
  have l: "linked ((s0, Idle), signals_init)" using assms(2) by (simp add: signals_init_def)
  note parts = engine_parts [OF assms(1) l]
  then have "signal_run signals_init (signal_events es) g" by simp
  from run_flags [OF this] have "flags_agree g"
    by (simp add: signals_init_def flags_agree_def waiters_awaited_def)
  with parts show ?thesis by (auto simp: flags_agree_def)
qed


text \<open>
  C23. The threads come to rest: left alone, with no new call and no spurious wake-up, the
  compaction thread, the waiters and the pending notifications take at most \<open>engine_work\<close> more
  steps, compactions included.
\<close>

theorem engine_settles:
  assumes "engine_run c es c'" and "\<forall>e \<in> set es. own_event e" and "snapshot_ok (fst c)"
  shows "length es + engine_work c' \<le> engine_work c"
  using own_run_work [OF assms] by simp



section \<open>A concrete run\<close>

lemma engine_first: "engine_run c' es c'' \<Longrightarrow> engine_step c e c' \<Longrightarrow> engine_run c (e # es) c''"
proof (induction rule: engine_run.induct)
  case (engine_start c')
  then show ?case using engine_run.engine_next [OF engine_run.engine_start] by fastforce
next
  case (engine_next c' es d e' d')
  from engine_run.engine_next [OF engine_next.IH [OF engine_next.prems] engine_next.hyps(2)] show ?case by simp
qed

text \<open>
  An engine that flushes at every update and asks for a compaction of every table: a put, and
  the thread finds that there is nothing to merge.
\<close>

lemma one_flush:
  obtains s s1 where "Database_construct (Database_init 1 1 [] []) = (Ret (), s)"
    and "\<And>g. \<not> shutting_down g \<Longrightarrow> engine_step ((s, Idle), g) (Update (Put [1] [2]) (Ret ()) True) ((s1, Idle), trigger g)"
    and "calm_run (s, Idle) [Client (Put [1] [2]) (Ret ())] (s1, Idle)"
    and "\<not> compaction_requested s" and "sstables s = []" and "length (sstables s1) = 1" and "compaction_requested s1"
proof -
  obtain s where s: "Database_construct (Database_init 1 1 [] []) = (Ret (), s)"
    using fresh_engine_opened by blast
  note o = opened_empty [OF s, simplified]
  have idle: "script s = []" by (rule construct_script [OF s]) simp
  have th: "flush_threshold_bytes s = 1" "compaction_trigger_count s = 1"
    using preservesD [OF preserves_construct s, of flush_threshold_bytes]
      preservesD [OF preserves_construct s, of compaction_trigger_count]
    by (simp_all add: outside_opening_def blind_def Database_init_def)
  have small: "(1 :: u64) \<le> approximate_size_bytes (memtable_op (Put [1] [2]) MemTable_init)"
    by (simp add: memtable_put_def Upsert_def EntrySize_def MemTable_init_def Let_def)
  have fits: "op_fits (Put [1] [2]) s" by (rule small_put_fits [OF o(4,5)])
  from Database_op_proceeds [OF idle o(1) fits] obtain s1 where op: "Database_op (Put [1] [2]) s = (Ret (), s1)" by blast
  note f = flushing_op [OF op, unfolded o th, OF small, simplified]
  have asks: "asks (Ret ()) s s1" using f o(6) by (simp add: asks_def)
  have "engine_step ((s, Idle), g) (Update (Put [1] [2]) (Ret ()) True) ((s1, Idle), trigger g)" if "\<not> shutting_down g" for g
    using engine_step.update [OF op fits _ that, of Idle] asks by simp
  moreover have "calm_run (s, Idle) [Client (Put [1] [2]) (Ret ())] (s1, Idle)"
    using calm_step [OF calm_start system_step.client [OF op fits]] by simp
  moreover have "sstables s = []" "length (sstables s1) = 1" "compaction_requested s1" using o(6) f by simp_all
  ultimately show thesis by (intro that [OF s _ _ construct_no_request [OF s]])
qed

text \<open>The flags while the thread is at it: taken up, returned, announced, asleep.\<close>

definition busy :: signals where
  "busy = signals_init\<lparr>running := True, thread := Compacting, notifiers := 1\<rparr>"

lemma busy_steps:
  "signal_step (trigger signals_init) Internal busy"
  "signal_step busy Internal (busy\<lparr>running := False, thread := Notifying\<rparr>)"
  "signal_step (busy\<lparr>running := False, thread := Notifying\<rparr>) Internal (busy\<lparr>running := False, thread := Testing\<rparr>)"
  "signal_step (busy\<lparr>running := False, thread := Testing\<rparr>) Internal (signals_init)"
  "signal_step signals_init Internal (signals_init\<lparr>thread := Asleep\<rparr>)"
  using thread_starts [of "trigger signals_init"] thread_finishes [of busy]
    thread_notifies [of "busy\<lparr>running := False, thread := Notifying\<rparr>"]
    notify_nobody [of "busy\<lparr>running := False, thread := Testing\<rparr>" 0] thread_sleeps [of signals_init]
  by (simp_all add: busy_def signals_init_def)

text \<open>The thread takes the request up, finds that there is nothing to merge yet, and sleeps again.\<close>

definition served_events :: "engine_event list" where
  "served_events = [Take_up, Compact, Signal Internal, Signal Internal, Signal Internal, Signal Internal]"

lemma served_step:
  shows "engine_step ((s, Idle), trigger signals_init) Take_up ((s\<lparr>compaction_requested := False\<rparr>, Started), busy)"
    and "length (sstables s) < 2 \<Longrightarrow> engine_step ((s, Started), g) Compact ((s, Idle), g)"
  using engine_step.take_up [OF busy_steps(1)] engine_step.compact [OF system_step.nothing_to_do, of s g]
  by (simp_all add: busy_def signals_init_def)

lemma served_run:
  assumes len: "length (sstables s1) = 1"
  shows "engine_run ((s1, Idle), trigger signals_init) served_events
    ((s1\<lparr>compaction_requested := False\<rparr>, Idle), signals_init\<lparr>thread := Asleep\<rparr>)"
proof -
  let ?s2 = "s1\<lparr>compaction_requested := False\<rparr>"
  have 1: "engine_step ((?s2, Started), busy) Compact ((?s2, Idle), busy)" using len by (intro served_step(2)) simp
  have 2: "engine_step ((?s2, Idle), busy) (Signal Internal) ((?s2, Idle), busy\<lparr>running := False, thread := Notifying\<rparr>)"
    by (rule engine_step.signal [OF busy_steps(2)]) simp_all
  have 3: "engine_step ((?s2, Idle), busy\<lparr>running := False, thread := Notifying\<rparr>) (Signal Internal)
      ((?s2, Idle), busy\<lparr>running := False, thread := Testing\<rparr>)"
    by (rule engine_step.signal [OF busy_steps(3)]) simp_all
  have 4: "engine_step ((?s2, Idle), busy\<lparr>running := False, thread := Testing\<rparr>) (Signal Internal) ((?s2, Idle), signals_init)"
    by (rule engine_step.signal [OF busy_steps(4)]) (simp_all add: signals_init_def)
  have 5: "engine_step ((?s2, Idle), signals_init) (Signal Internal) ((?s2, Idle), signals_init\<lparr>thread := Asleep\<rparr>)"
    by (rule engine_step.signal [OF busy_steps(5)]) (simp_all add: signals_init_def)
  show ?thesis
    unfolding served_events_def
    using engine_first [OF engine_first [OF engine_first [OF engine_first [OF engine_first
      [OF engine_first [OF engine_run.engine_start 5] 4] 3] 2] 1] served_step(1)] .
qed

definition one_flush_events :: "engine_event list" where
  "one_flush_events = Update (Put [1] [2]) (Ret ()) True # served_events"

lemma one_flush_run:
  assumes up: "\<And>g. \<not> shutting_down g \<Longrightarrow> engine_step ((s, Idle), g) (Update (Put [1] [2]) (Ret ()) True) ((s1, Idle), trigger g)"
    and len: "length (sstables s1) = 1"
  shows "engine_run ((s, Idle), signals_init) one_flush_events
    ((s1\<lparr>compaction_requested := False\<rparr>, Idle), signals_init\<lparr>thread := Asleep\<rparr>)"
  unfolding one_flush_events_def
  using engine_first [OF served_run [OF len] up] by (simp add: signals_init_def)

lemma resting_quiet:
  assumes "\<nexists>g'. signal_step g Internal g'"
  shows "quiet ((s, Idle), g)"
  using assms by (auto simp: quiet_def own_event_def elim: engine_cases)

theorem engine_refines_parts_witness:
  "\<exists>s s'. engine_run ((s, Idle), signals_init) one_flush_events ((s', Idle), signals_init\<lparr>thread := Asleep\<rparr>) \<and>
    system_run (s, Idle) [Client (Put [1] [2]) (Ret ()), Compactor, Compactor] (s', Idle) \<and>
    signal_run signals_init [Request, Internal, Internal, Internal, Internal, Internal] (signals_init\<lparr>thread := Asleep\<rparr>)"
proof -
  from one_flush obtain s s1 where up: "\<And>g. \<not> shutting_down g \<Longrightarrow>
      engine_step ((s, Idle), g) (Update (Put [1] [2]) (Ret ()) True) ((s1, Idle), trigger g)"
    and idle: "\<not> compaction_requested s" and len: "length (sstables s1) = 1" by metis
  from engine_refines_parts [OF one_flush_run [OF up len] idle] one_flush_run [OF up len]
  show ?thesis by (auto simp: one_flush_events_def served_events_def)
qed


theorem engine_settles_witness:
  "\<exists>s s'. engine_run ((s, Idle), trigger signals_init) served_events ((s', Idle), signals_init\<lparr>thread := Asleep\<rparr>) \<and>
    6 + engine_work ((s', Idle), signals_init\<lparr>thread := Asleep\<rparr>) \<le> engine_work ((s, Idle), trigger signals_init) \<and>
    engine_work ((s, Idle), trigger signals_init) = 98"
proof -
  from one_flush obtain s :: database where len: "length (sstables s) = 1" by metis
  note run = served_run [OF len]
  from engine_settles [OF run] have
    "6 + engine_work ((s\<lparr>compaction_requested := False\<rparr>, Idle), signals_init\<lparr>thread := Asleep\<rparr>) \<le>
       engine_work ((s, Idle), trigger signals_init)"
    by (simp add: served_events_def own_event_def)
  moreover have "engine_work ((s, Idle), trigger signals_init) = 98"
    using len by (simp add: work_left_def load_def waiters_def signals_init_def)
  ultimately show ?thesis using run by blast
qed

text \<open>The destructor begins while the thread is in \<^verbatim>\<open>CompactOnce\<close>.\<close>

definition leaving :: signals where
  "leaving = busy\<lparr>running := False, shutting_down := True, thread := Exited\<rparr>"

lemma leaving_steps:
  "signal_step busy Shutdown (shut_down busy)"
  "signal_step (shut_down busy) Internal ((shut_down busy)\<lparr>running := False, thread := Notifying\<rparr>)"
  "signal_step ((shut_down busy)\<lparr>running := False, thread := Notifying\<rparr>) Internal
     ((shut_down busy)\<lparr>running := False, thread := Testing\<rparr>)"
  "signal_step ((shut_down busy)\<lparr>running := False, thread := Testing\<rparr>) Internal (leaving\<lparr>notifiers := 2\<rparr>)"
  "signal_step (leaving\<lparr>notifiers := 2\<rparr>) Internal (leaving\<lparr>notifiers := 1\<rparr>)"
  "signal_step (leaving\<lparr>notifiers := 1\<rparr>) Internal (leaving\<lparr>notifiers := 0\<rparr>)"
  using shutdown [of busy] thread_finishes [of "shut_down busy"]
    thread_notifies [of "(shut_down busy)\<lparr>running := False, thread := Notifying\<rparr>"]
    thread_exits [of "(shut_down busy)\<lparr>running := False, thread := Testing\<rparr>"]
    notify_nobody [of "leaving\<lparr>notifiers := 2\<rparr>" 1] notify_nobody [of "leaving\<lparr>notifiers := 1\<rparr>" 0]
  by (simp_all add: leaving_def busy_def signals_init_def numeral_2_eq_2)

definition leaving_events :: "engine_event list" where
  "leaving_events = [Update (Put [1] [2]) (Ret ()) True, Take_up, Signal Shutdown, Compact, Signal Internal,
     Signal Internal, Signal Internal, Signal Internal, Signal Internal]"

lemma leaving_run:
  assumes up: "\<And>g. \<not> shutting_down g \<Longrightarrow> engine_step ((s, Idle), g) (Update (Put [1] [2]) (Ret ()) True) ((s1, Idle), trigger g)"
    and len: "length (sstables s1) = 1"
  shows "engine_run ((s, Idle), signals_init) leaving_events
    ((s1\<lparr>compaction_requested := False\<rparr>, Idle), leaving\<lparr>notifiers := 0\<rparr>)"
proof -
  let ?s2 = "s1\<lparr>compaction_requested := False\<rparr>" and ?g = "shut_down busy"
  have 0: "engine_step ((s, Idle), signals_init) (Update (Put [1] [2]) (Ret ()) True) ((s1, Idle), trigger signals_init)"
    by (rule up) (simp add: signals_init_def)
  have 1: "engine_step ((?s2, Started), busy) (Signal Shutdown) ((?s2, Started), ?g)"
    by (rule engine_step.signal [OF leaving_steps(1)]) (simp_all add: busy_def signals_init_def)
  have 2: "engine_step ((?s2, Started), ?g) Compact ((?s2, Idle), ?g)" using len by (intro served_step(2)) simp
  have 3: "engine_step ((?s2, Idle), ?g) (Signal Internal) ((?s2, Idle), ?g\<lparr>running := False, thread := Notifying\<rparr>)"
    by (rule engine_step.signal [OF leaving_steps(2)]) simp_all
  have 4: "engine_step ((?s2, Idle), ?g\<lparr>running := False, thread := Notifying\<rparr>) (Signal Internal)
      ((?s2, Idle), ?g\<lparr>running := False, thread := Testing\<rparr>)"
    by (rule engine_step.signal [OF leaving_steps(3)]) simp_all
  have 5: "engine_step ((?s2, Idle), ?g\<lparr>running := False, thread := Testing\<rparr>) (Signal Internal) ((?s2, Idle), leaving\<lparr>notifiers := 2\<rparr>)"
    by (rule engine_step.signal [OF leaving_steps(4)]) (simp_all add: leaving_def)
  have 6: "engine_step ((?s2, Idle), leaving\<lparr>notifiers := 2\<rparr>) (Signal Internal) ((?s2, Idle), leaving\<lparr>notifiers := 1\<rparr>)"
    by (rule engine_step.signal [OF leaving_steps(5)]) (simp_all add: leaving_def)
  have 7: "engine_step ((?s2, Idle), leaving\<lparr>notifiers := 1\<rparr>) (Signal Internal) ((?s2, Idle), leaving\<lparr>notifiers := 0\<rparr>)"
    by (rule engine_step.signal [OF leaving_steps(6)]) (simp_all add: leaving_def)
  show ?thesis
    unfolding leaving_events_def
    using engine_first [OF engine_first [OF engine_first [OF engine_first [OF engine_first [OF engine_first
      [OF engine_first [OF engine_first [OF engine_first [OF engine_run.engine_start 7] 6] 5] 4] 3] 2] 1] served_step(1)] 0] .
qed


end
