(* ===== verification/Directory_Sync.thy ===== *)
theory Directory_Sync
  imports Engine
begin

text \<open>
  The crash model of \<open>Posix_Io\<close> keeps every rename. POSIX promises that only once the directory
  itself has been synced, which \<^verbatim>\<open>WriteSSTable\<close> never does: it syncs the temporary file,
  renames it and returns. Here a crash may undo the rename of a table, and nothing else.
\<close>

section \<open>A crash that forgets a rename\<close>

definition undo_rename :: "string \<Rightarrow> (string \<times> disk_file) list \<Rightarrow> (string \<times> disk_file) list" where
  "undo_rename path fs = map (\<lambda>(name, f). (if name = path then path @ ''.tmp'' else name, f)) fs"

lemma undo_rename_lookup:
  "name \<noteq> path \<Longrightarrow> name \<noteq> path @ ''.tmp'' \<Longrightarrow> map_of (undo_rename path fs) name = map_of fs name"
  "map_of (undo_rename path fs) path = None"
proof (induction fs)
  case (Cons p fs)
  { case 1 with Cons show ?case by (cases p) (auto simp: undo_rename_def) }
  { case 2 with Cons show ?case by (cases p) (auto simp: undo_rename_def) }
qed (simp_all add: undo_rename_def)

text \<open>Without its newest table a directory stands for what the older ones hold.\<close>

lemma forgotten_table:
  assumes ok: "recoverable (map_of fs)" and last: "sst_numbers (map_of fs) = ns @ [n]"
  shows "recoverable (map_of (undo_rename (SSTableFilename n) fs))"
    and "records (wal_content (map_of fs)) = [] \<Longrightarrow>
      disk_store (map_of (undo_rename (SSTableFilename n) fs)) = live_store (run_layers (butlast (disk_readers (map_of fs))))"
proof -
  let ?m = "map_of fs" and ?m' = "map_of (undo_rename (SSTableFilename n) fs)"
  have strict: "sorted_wrt (<) (ns @ [n])" unfolding last [symmetric] by (simp add: sst_numbers_def)
  then have new: "n \<notin> set ns" by (auto simp: sorted_wrt_append)
  have at: "?m' (SSTableFilename k) = (if k = n then None else ?m (SSTableFilename k))" for k
    by (simp add: undo_rename_lookup)
  have wal: "?m' wal_path = ?m wal_path" by (simp add: undo_rename_lookup)
  have nums: "sst_numbers ?m' = ns"
  proof (rule strict_sorted_equal)
    show "sorted_wrt (<) (sst_numbers ?m')" by (simp add: sst_numbers_def)
    show "sorted_wrt (<) ns" using strict by (simp add: sorted_wrt_append)
    have "set (sst_numbers ?m') = set (sst_numbers ?m) - {n}" by (auto simp: at split: if_splits)
    then show "set (sst_numbers ?m') = set ns" using new unfolding last by auto
  qed
  have "table_at ?m' k = table_at ?m k" if "k \<in> set ns" for k
    using that new by (auto simp: table_at_def at)
  then have readers: "disk_readers ?m' = butlast (disk_readers ?m)"
    by (simp add: disk_readers_def nums last map_butlast)
  have "dir_ok ?m'"
    unfolding dir_ok_def
  proof (intro allI impI)
    fix name f assume f: "?m' name = Some f"
    have old: "dir_ok ?m" using ok by (simp add: recoverable_def)
    consider "name = SSTableFilename n @ ''.tmp''" | "name \<noteq> SSTableFilename n" "name \<noteq> SSTableFilename n @ ''.tmp''"
      using f undo_rename_lookup(2) by fastforce
    then show "case ParseSSTableNumber name of Inl e \<Rightarrow> False | Inr None \<Rightarrow> True
      | Inr (Some n) \<Rightarrow> name = SSTableFilename n \<and> (\<exists>es. table_ok es \<and> f = sstable_file es)"
    proof cases
      case 1
      then show ?thesis by simp
    next
      case 2
      with f have "?m name = Some f" by (simp add: undo_rename_lookup)
      with old show ?thesis by (simp add: dir_ok_def)
    qed
  qed
  then show "recoverable ?m'"
    using ok last by (auto simp: recoverable_def nums wal_content_def wal)
  show "disk_store ?m' = live_store (run_layers (butlast (disk_readers ?m)))" if "records (wal_content ?m) = []"
    using that by (simp add: disk_store_def readers wal_content_def wal)
qed

section \<open>Properties\<close>

text \<open>
  C19. The flush relies on the rename being durable: let a crash undo the rename of the table a
  flushing update has written, after the update returned; the next process finds the content
  of the older tables only, so this update and every other one since the last flush, each of
  them acknowledged and synced in its time, is lost. The log that held them has been emptied.
\<close>

theorem unsynced_rename_loses_writes:
  assumes "script s = []" and "db_good s" and "wal_durable (dir s)" and "op_fits x s"
    and "flush_threshold_bytes s \<le> approximate_size_bytes (memtable_op x (memtable s))"
    and "Database_op x s = (r, s')"
  shows "r = Ret () \<and>
    (\<exists>t. Database_construct
        (Database_init th tr (undo_rename (SSTableFilename (next_sstable_number s)) (files s')) []) = (Ret (), t) \<and>
      (\<forall>k. Database_get t k = Inr (live_store (run_layers (sstables s)) k)))"
proof -
  let ?n = "next_sstable_number s"
  let ?fs = "undo_rename (SSTableFilename ?n) (files s')"
  from Database_op_flushes [OF assms(1,2,4,5)] assms(6) have r: "r = Ret ()"
    and tables: "sstables s' = sstables s @ [reader_for (SSTableFilename ?n) (table (memtable_op x (memtable s)))]"
    and log: "wal_content (dir s') = []" by auto
  have good: "db_good s'" using op_outcome [OF assms(6,2,3,4)] r by simp
  then have readers: "disk_readers (dir s') = sstables s'" by (simp add: db_good_def)
  have ok: "recoverable (dir s')" by (rule db_good_recoverable [OF good])
  have "sst_numbers (dir s') \<noteq> []" using readers tables by (auto simp: disk_readers_def)
  then obtain ns m where ns: "sst_numbers (dir s') = ns @ [m]" by (metis rev_exhaust)
  have "SSTableFilename m = SSTableFilename ?n"
    using arg_cong [OF readers, of "\<lambda>rs. reader_path (last rs)"] by (simp add: disk_readers_def ns tables reader_index_simps)
  then have m: "m = ?n" by simp
  have "records (wal_content (dir s')) = []"
    by (simp add: log)
  from forgotten_table [OF ok ns] this have "recoverable (map_of ?fs)"
    "disk_store (map_of ?fs) = live_store (run_layers (sstables s))"
    by (simp_all add: m readers tables)
  moreover obtain r' t where call: "Database_construct (Database_init th tr ?fs []) = (r', t)" by force
  ultimately have t: "r' = Ret ()" "db_good t" "db_view t = live_store (run_layers (sstables s))"
    using Database_construct_outcome [OF call] by simp_all
  then have "\<forall>k. Database_get t k = Inr (live_store (run_layers (sstables s)) k)"
    using Database_get_view [OF db_good_reads [OF t(2)]] by simp
  with r call t(1) show ?thesis by blast
qed

theorem unsynced_rename_loses_writes_witness:
  "\<exists>s' t. Database_put [1] [2] (fresh_engine 1 4 []) = (Ret (), s') \<and>
    Database_construct (Database_init 1 4 (undo_rename (SSTableFilename 1) (files s')) []) = (Ret (), t) \<and>
    Database_get t [1] = Inr None"
proof -
  let ?s = "fresh_engine 1 4 []"
  obtain r s' where op: "Database_op (Put [1] [2]) ?s = (r, s')" by force
  have fits: "op_fits (Put [1] [2]) ?s" using fresh_put_fits [of 1 4 "[]"] by simp
  have "flush_threshold_bytes ?s \<le> approximate_size_bytes (memtable_op (Put [1] [2]) (memtable ?s))"
    by (simp add: fresh_engine_def Database_init_def memtable_put_def Upsert_def MemTable_init_def EntrySize_def)
  from unsynced_rename_loses_writes [OF _ fresh_engine_good(1,2) fits this op, of 1 4]
  show ?thesis
    using op by (auto simp: fresh_engine_def Database_init_def Database_op_def live_store_def)
qed

end
