(* ===== verification/Repl.thy ===== *)
theory Repl
  imports Op_Fields
begin

text \<open>
  \<^verbatim>\<open>src/repl.cpp\<close>: the interactive shell. Standard input is the list of bytes still to be
  read, standard output a field appended to; the engine's fields are part of the same record,
  so the commands call the engine's programs directly. An exception of the engine ends
  \<^verbatim>\<open>main\<close>, as \<open>Throw\<close> ends the loop here. The prompt's stream state is taken to be good.
\<close>

section \<open>Streams\<close>

text \<open>
  \<^verbatim>\<open>iss >> word\<close>: skip white space, take what is not. The word is empty exactly when
  nothing but white space was left; then nothing is left, so the state bits of the stream
  need no place here.
\<close>

definition next_word :: "bytes \<Rightarrow> bytes \<times> bytes" where
  "next_word rest =
     (let rest' = dropWhile isspace rest
      in (takeWhile (\<lambda>c. \<not> isspace c) rest', dropWhile (\<lambda>c. \<not> isspace c) rest'))"

text \<open>\<^verbatim>\<open>std::getline\<close>: \<open>None\<close> when nothing is left to extract.\<close>

definition getline :: "bytes \<Rightarrow> (bytes \<times> bytes) option" where
  "getline input =
     (if input = [] then None
      else Some (takeWhile (\<lambda>c. c \<noteq> 10) input, drop 1 (dropWhile (\<lambda>c. c \<noteq> 10) input)))"

record repl = database +
  out :: bytes

definition print :: "bytes \<Rightarrow> (repl, unit) prog" where
  "print text = update (\<lambda>s. s\<lparr>out := out s @ text\<rparr>)"

definition print_line :: "bytes \<Rightarrow> (repl, unit) prog" where
  "print_line text = print (text @ [10])"

section \<open>The shell\<close>

definition help_text :: bytes where
  "help_text =
     ascii ''Commands:'' @ [10] @
     ascii ''  PUT <key> <value...>   store value under key'' @ [10] @
     ascii ''  GET <key>              print the value for key, or (nil)'' @ [10] @
     ascii ''  DEL <key>              delete key'' @ [10] @
     ascii ''  SCAN <start> <end>     print every live key in [start, end)'' @ [10] @
     ascii ''  HELP                   show this message'' @ [10] @
     ascii ''  EXIT | QUIT            leave the REPL'' @ [10]"

definition printHelp :: "(repl, unit) prog" where
  "printHelp = print help_text"

text \<open>The value of \<^verbatim>\<open>PUT\<close>: the rest of the line without the separator in front of it.\<close>

definition put_value :: "bytes \<Rightarrow> bytes" where
  "put_value rest =
     (let val = takeWhile (\<lambda>c. c \<noteq> 10) rest
      in if val \<noteq> [] \<and> hd val = 32 then drop 1 val else val)"

fun print_results :: "(bytes \<times> bytes) list \<Rightarrow> (repl, unit) prog" where
  "print_results [] = ret ()"
| "print_results ((key, val) # results) =
     andthen (print_line (key @ ascii '' = '' @ val)) (\<lambda>_. print_results results)"

text \<open>The body of the loop; the result says whether it ends with \<^verbatim>\<open>break\<close>.\<close>

definition run_line :: "bytes \<Rightarrow> (repl, bool) prog" where
  "run_line line =
     (case next_word line of (command, rest) \<Rightarrow>
      if command = [] then ret False
      else if command = ascii ''HELP'' then andthen printHelp (\<lambda>_. ret False)
      else if command = ascii ''EXIT'' \<or> command = ascii ''QUIT'' then ret True
      else if command = ascii ''PUT'' then
        (case next_word rest of (key, rest) \<Rightarrow>
         let val = put_value rest
         in if key = [] \<or> val = []
            then andthen (print_line (ascii ''usage: PUT <key> <value...>'')) (\<lambda>_. ret False)
            else andthen (Database_put key val) (\<lambda>_.
                 andthen (print_line (ascii ''OK'')) (\<lambda>_. ret False)))
      else if command = ascii ''GET'' then
        (case next_word rest of (key, rest) \<Rightarrow>
         if key = [] then andthen (print_line (ascii ''usage: GET <key>'')) (\<lambda>_. ret False)
         else (\<lambda>s. andthen (lift (Database_get s key)) (\<lambda>found.
           (case found of
              Some val \<Rightarrow> andthen (print_line val) (\<lambda>_. ret False)
            | None \<Rightarrow> andthen (print_line (ascii ''(nil)'')) (\<lambda>_. ret False))) s))
      else if command = ascii ''DEL'' then
        (case next_word rest of (key, rest) \<Rightarrow>
         if key = [] then andthen (print_line (ascii ''usage: DEL <key>'')) (\<lambda>_. ret False)
         else andthen (Database_remove key) (\<lambda>_.
              andthen (print_line (ascii ''OK'')) (\<lambda>_. ret False)))
      else if command = ascii ''SCAN'' then
        (case next_word rest of (start, rest) \<Rightarrow>
         case next_word rest of (end_key, rest) \<Rightarrow>
         if start = [] \<or> end_key = []
         then andthen (print_line (ascii ''usage: SCAN <start> <end>'')) (\<lambda>_. ret False)
         else (\<lambda>s. andthen (lift (Database_scan s start end_key)) (\<lambda>results.
              andthen (if results = [] then print_line (ascii ''(empty)'') else ret ()) (\<lambda>_.
              andthen (print_results results) (\<lambda>_. ret False))) s))
      else andthen (print_line (ascii ''unknown command: '' @ command @ ascii '' (type HELP)''))
             (\<lambda>_. ret False))"

lemma getline_shorter:
  assumes "getline input = Some (line, rest)"
  shows "length rest < length input"
proof -
  have "length (dropWhile (\<lambda>c. c \<noteq> 10) input) \<le> length input" by (rule length_dropWhile_le)
  with assms show ?thesis by (cases input) (auto simp: getline_def split: if_splits)
qed

text \<open>The loop. Each round takes at least one byte of the input.\<close>

function repl_loop :: "bytes \<Rightarrow> (repl, unit) prog" where
  "repl_loop input s =
     (case print (ascii ''> '') s of
        (Ret u, s1) \<Rightarrow>
          (case getline input of
             None \<Rightarrow> (Ret (), s1)
           | Some (line, rest) \<Rightarrow>
               (case run_line line s1 of
                  (Ret stop, s2) \<Rightarrow> if stop then (Ret (), s2) else repl_loop rest s2
                | (Throw e, s2) \<Rightarrow> (Throw e, s2)
                | (Killed, s2) \<Rightarrow> (Killed, s2)))
      | (Throw e, s1) \<Rightarrow> (Throw e, s1)
      | (Killed, s1) \<Rightarrow> (Killed, s1))"
  by pat_completeness auto
termination
  by (relation "measure (\<lambda>(input, s). length input)") (auto dest: getline_shorter)

declare repl_loop.simps [simp del]

text \<open>\<^verbatim>\<open>operator<<\<close> of a path writes it in quotes.\<close>

fun escaped :: "string \<Rightarrow> bytes" where
  "escaped [] = []"
| "escaped (c # cs) = (if c = CHR 34 \<or> c = CHR 92 then [92, of_char c] else [of_char c]) @ escaped cs"

text \<open>What \<^verbatim>\<open>main\<close> does before its loop.\<close>

definition repl_open :: "string list \<Rightarrow> (repl, unit) prog" where
  "repl_open args =
     (let db_dir = (case args of [] \<Rightarrow> ''./tinylsm-data'' | arg # _ \<Rightarrow> arg)
      in andthen Database_construct (\<lambda>_.
         andthen (print_line (ascii ''tiny-lsm-kv REPL. Data directory: '' @ [34] @ escaped db_dir @ [34])) (\<lambda>_.
         andthen (\<lambda>s. if 0 < sstable_count s
           then print_line (ascii ''Recovered '' @ ascii (decimal (sstable_count s)) @
                  ascii '' SSTable(s) from a previous run.'') s
           else ret () s) (\<lambda>_.
         print_line (ascii ''Type HELP for commands, EXIT to quit.'')))))"

definition repl_main :: "string list \<Rightarrow> bytes \<Rightarrow> (repl, unit) prog" where
  "repl_main args input =
     andthen (repl_open args) (\<lambda>_.
     andthen (repl_loop input) (\<lambda>_.
     print_line (ascii ''bye'')))"

section \<open>What a line does\<close>

text \<open>The update a line spells, if it spells one, and whether it leaves the loop.\<close>

definition line_op :: "bytes \<Rightarrow> kv_op option" where
  "line_op line =
     (let (command, rest) = next_word line; (key, rest') = next_word rest
      in if command = ascii ''PUT'' \<and> key \<noteq> [] \<and> put_value rest' \<noteq> [] then Some (Put key (put_value rest'))
         else if command = ascii ''DEL'' \<and> key \<noteq> [] then Some (Remove key)
         else None)"

definition quits :: "bytes \<Rightarrow> bool" where
  "quits line \<longleftrightarrow> fst (next_word line) \<in> {ascii ''EXIT'', ascii ''QUIT''}"

lemma command_names:
  "ascii ''PUT'' = [80, 85, 84]" "ascii ''DEL'' = [68, 69, 76]" "ascii ''GET'' = [71, 69, 84]"
  "ascii ''SCAN'' = [83, 67, 65, 78]" "ascii ''HELP'' = [72, 69, 76, 80]"
  "ascii ''EXIT'' = [69, 88, 73, 84]" "ascii ''QUIT'' = [81, 85, 73, 84]"
  by (simp_all add: ascii_def)

lemma run_line_update:
  assumes "line_op line = Some x"
  shows "run_line line s =
    andthen (Database_op x) (\<lambda>_. andthen (print_line (ascii ''OK'')) (\<lambda>_. ret False)) s" and "\<not> quits line"
  using assms
  by (auto simp: line_op_def run_line_def quits_def Let_def command_names Database_op_def
      split: prod.splits if_splits)

lemma out_irrelevant [simp]:
  "db_good (s\<lparr>out := t\<rparr>) = db_good s" "reads_ok (s\<lparr>out := t\<rparr>) = reads_ok s"
  "db_view (s\<lparr>out := t\<rparr>) = db_view s" "op_fits x (s\<lparr>out := t\<rparr>) = op_fits x s"
  by (simp_all add: db_good_def reads_ok_def db_view_def db_entries_def op_fits_def)

lemma print_eq [simp]: "print text s = (Ret (), s\<lparr>out := out s @ text\<rparr>)"
  by (simp add: print_def update_def)

lemma print_line_eq [simp]: "print_line text s = (Ret (), s\<lparr>out := out s @ text @ [10]\<rparr>)"
  by (simp add: print_line_def)

lemma andthen_print [simp]:
  "andthen (print text) k s = k () (s\<lparr>out := out s @ text\<rparr>)"
  "andthen (print_line text) k s = k () (s\<lparr>out := out s @ text @ [10]\<rparr>)"
  by (simp_all add: andthen_def)

fun result_lines :: "(bytes \<times> bytes) list \<Rightarrow> bytes" where
  "result_lines [] = []"
| "result_lines ((key, val) # results) = key @ ascii '' = '' @ val @ [10] @ result_lines results"

lemma print_results_eq [simp]: "print_results results s = (Ret (), s\<lparr>out := out s @ result_lines results\<rparr>)"
  by (induction results arbitrary: s rule: result_lines.induct) simp_all

text \<open>What a line that spells no update prints depends on the store alone.\<close>

definition prints :: "bytes \<Rightarrow> store \<Rightarrow> bytes \<Rightarrow> bool" where
  "prints line m text \<longleftrightarrow> (\<forall>s. reads_ok s \<and> db_view s = m \<longrightarrow>
     run_line line s = (Ret (quits line), s\<lparr>out := out s @ text\<rparr>))"

lemma prints_get:
  assumes "next_word line = (ascii ''GET'', rest)" and "next_word rest = (key, rest')" and "key \<noteq> []"
  shows "prints line m (case m key of Some v \<Rightarrow> v @ [10] | None \<Rightarrow> ascii ''(nil)'' @ [10])"
  using assms
  by (auto simp: prints_def run_line_def quits_def command_names Database_get_view lift_def andthen_def
      split: option.split)

lemma prints_scan:
  assumes "next_word line = (ascii ''SCAN'', rest)" and "next_word rest = (a, rest')"
    and "next_word rest' = (b, rest'')" and "a \<noteq> [] \<and> b \<noteq> []"
  shows "\<exists>text. prints line m text"
proof (cases "\<exists>r. range_of m a b r")
  case False
  then have "\<not> (reads_ok s \<and> db_view s = m)" for s :: repl
    using Database_scan_view [of s a b] by blast
  then show ?thesis by (auto simp: prints_def)
next
  case True
  then obtain r where r: "range_of m a b r" ..
  have "Database_scan s a b = Inr r" if "reads_ok s" "db_view s = m" for s :: repl
    using Database_scan_view [OF that(1), of a b] r that(2) range_of_unique by blast
  then have "prints line m ((if r = [] then ascii ''(empty)'' @ [10] else []) @ result_lines r)"
    using assms
    by (auto simp: prints_def run_line_def quits_def command_names lift_def andthen_def ret_def)
  then show ?thesis ..
qed

lemma run_line_read:
  assumes op: "line_op line = None"
  shows "\<exists>text. prints line m text"
proof -
  obtain command rest where w: "next_word line = (command, rest)" by force
  obtain key rest' where w': "next_word rest = (key, rest')" by force
  obtain key' rest'' where w'': "next_word rest' = (key', rest'')" by force
  note words = w w' w''
  consider (get) "command = ascii ''GET''" "key \<noteq> []"
    | (scan) "command = ascii ''SCAN''" "key \<noteq> [] \<and> key' \<noteq> []"
    | (other) "\<not> (command = ascii ''GET'' \<and> key \<noteq> [])" "\<not> (command = ascii ''SCAN'' \<and> key \<noteq> [] \<and> key' \<noteq> [])"
    by blast
  then show ?thesis
  proof cases
    case get
    with prints_get [of line rest key rest'] words show ?thesis by auto
  next
    case scan
    with prints_scan [of line rest key rest' key' rest''] words show ?thesis by auto
  next
    case other
    have "\<exists>text. \<forall>s. run_line line s = (Ret (quits line), s\<lparr>out := out s @ text\<rparr>)"
    proof (cases "command = [] \<or> command \<in> {ascii ''EXIT'', ascii ''QUIT''}")
      case True
      have "run_line line s = (Ret (quits line), s\<lparr>out := out s @ []\<rparr>)" for s
        using True w by (auto simp: run_line_def quits_def command_names)
      then show ?thesis by blast
    next
      case False
      let ?text = "if command = ascii ''HELP'' then help_text
        else (if command = ascii ''PUT'' then ascii ''usage: PUT <key> <value...>''
              else if command = ascii ''GET'' then ascii ''usage: GET <key>''
              else if command = ascii ''DEL'' then ascii ''usage: DEL <key>''
              else if command = ascii ''SCAN'' then ascii ''usage: SCAN <start> <end>''
              else ascii ''unknown command: '' @ command @ ascii '' (type HELP)'') @ [10]"
      have put: "command = ascii ''PUT'' \<Longrightarrow> key = [] \<or> put_value rest' = []"
        and del: "command = ascii ''DEL'' \<Longrightarrow> key = []"
        using op words by (auto simp: line_op_def Let_def command_names split: if_splits)
      have "run_line line s = (Ret (quits line), s\<lparr>out := out s @ ?text\<rparr>)" for s
      proof -
        consider "command = ascii ''HELP''" | "command = ascii ''PUT''" | "command = ascii ''GET''"
          | "command = ascii ''DEL''" | "command = ascii ''SCAN''"
          | "command \<notin> {ascii ''HELP'', ascii ''PUT'', ascii ''GET'', ascii ''DEL'', ascii ''SCAN''}" by blast
        then show ?thesis
          using False other put del words
          by cases (simp_all add: run_line_def quits_def command_names printHelp_def Let_def)
      qed
      then show ?thesis by blast
    qed
    then show ?thesis by (auto simp: prints_def)
  qed
qed

section \<open>The engine does not write to the terminal\<close>

lemma outside_out: "outside_engine out"
  by (simp add: outside_engine_def blind_def)

lemma op_out: "Database_op x s = (r, s') \<Longrightarrow> out s' = out s"
  by (rule preservesD [OF preserves_op [OF outside_out]])

section \<open>Sessions\<close>

text \<open>The updates the lines of an input spell, up to the line that leaves the loop.\<close>

function session_ops :: "bytes \<Rightarrow> kv_op list" where
  "session_ops input =
     (case getline input of
        None \<Rightarrow> []
      | Some (line, rest) \<Rightarrow>
          if quits line then []
          else (case line_op line of None \<Rightarrow> [] | Some x \<Rightarrow> [x]) @ session_ops rest)"
  by pat_completeness auto
termination by (relation "measure length") (auto dest: getline_shorter)

declare session_ops.simps [simp del]

text \<open>Every update of the session keeps within what the format can represent.\<close>

function session_fits :: "bytes \<Rightarrow> repl \<Rightarrow> bool" where
  "session_fits input s =
     (case getline input of
        None \<Rightarrow> True
      | Some (line, rest) \<Rightarrow>
          (case line_op line of None \<Rightarrow> True | Some x \<Rightarrow> op_fits x s) \<and>
          (case run_line line (s\<lparr>out := out s @ ascii ''> ''\<rparr>) of
             (Ret stop, s') \<Rightarrow> if stop then True else session_fits rest s'
           | (Throw e, s') \<Rightarrow> True
           | (Killed, s') \<Rightarrow> True))"
  by pat_completeness auto
termination by (relation "measure (\<lambda>(input, s). length input)") (auto dest: getline_shorter)

declare session_fits.simps [simp del]

abbreviation prompt :: "repl \<Rightarrow> repl" where
  "prompt s \<equiv> s\<lparr>out := out s @ ascii ''> ''\<rparr>"

lemma repl_loop_step:
  "repl_loop input s =
     (case getline input of
        None \<Rightarrow> (Ret (), prompt s)
      | Some (line, rest) \<Rightarrow>
          (case run_line line (prompt s) of
             (Ret stop, s2) \<Rightarrow> if stop then (Ret (), s2) else repl_loop rest s2
           | (Throw e, s2) \<Rightarrow> (Throw e, s2)
           | (Killed, s2) \<Rightarrow> (Killed, s2)))"
  by (simp add: repl_loop.simps [of input s])

text \<open>One line on an engine in a good state.\<close>

definition ready :: "repl \<Rightarrow> bool" where
  "ready s \<longleftrightarrow> db_good s \<and> wal_durable (dir s)"

lemma line_outcome:
  assumes run: "run_line line s = (Ret stop, s')" and ok: "ready s"
    and fits: "case line_op line of None \<Rightarrow> True | Some x \<Rightarrow> op_fits x s"
  shows "stop = quits line \<and> ready s' \<and>
    db_view s' = store_ops (case line_op line of None \<Rightarrow> [] | Some x \<Rightarrow> [x]) (db_view s)"
proof (cases "line_op line")
  case None
  then obtain str where "prints line (db_view s) str" using run_line_read by blast
  then have "run_line line s = (Ret (quits line), s\<lparr>out := out s @ str\<rparr>)"
    using ok db_good_reads [of s] by (auto simp: prints_def ready_def)
  with run None ok show ?thesis by (auto simp: ready_def)
next
  case (Some x)
  from run [unfolded run_line_update(1) [OF Some]] obtain s1 where op: "Database_op x s = (Ret (), s1)"
    and s': "s' = s1\<lparr>out := out s1 @ ascii ''OK'' @ [10]\<rparr>" "\<not> stop"
    by (auto simp: andthen_Ret)
  from op_outcome [OF op] ok fits Some s' run_line_update(2) [OF Some] show ?thesis
    by (auto simp: ready_def)
qed

lemma line_printed:
  assumes "run_line line s = (Ret stop, s')" and "run_line line t = (Ret stop', t')"
    and "ready s" and "ready t" and "db_view s = db_view t"
  shows "\<exists>str. out s' = out s @ str \<and> out t' = out t @ str"
proof (cases "line_op line")
  case None
  then obtain str where "prints line (db_view s) str" using run_line_read by blast
  then have "run_line line s = (Ret (quits line), s\<lparr>out := out s @ str\<rparr>)"
    and "run_line line t = (Ret (quits line), t\<lparr>out := out t @ str\<rparr>)"
    using assms(3-5) db_good_reads [of s] db_good_reads [of t] by (auto simp: prints_def ready_def)
  with assms show ?thesis by auto
next
  case (Some x)
  have "out u' = out u @ ascii ''OK'' @ [10]" if call: "run_line line u = (Ret b, u')" for u u' b
  proof -
    from call [unfolded run_line_update(1) [OF Some]] obtain u1 where op: "Database_op x u = (Ret (), u1)"
      and u': "u' = u1\<lparr>out := out u1 @ ascii ''OK'' @ [10]\<rparr>"
      by (auto simp: andthen_Ret)
    have "out u1 = out u" by (rule op_out [OF op])
    with u' show ?thesis by simp
  qed
  with assms show ?thesis by blast
qed

lemma line_returns:
  assumes "script s = []" and "ready s"
    and fits: "case line_op line of None \<Rightarrow> True | Some x \<Rightarrow> op_fits x s"
  obtains s' where "run_line line s = (Ret (quits line), s')" and "script s' = []"
proof (cases "line_op line")
  case None
  then obtain str where "prints line (db_view s) str" using run_line_read by blast
  with that [of "s\<lparr>out := out s @ str\<rparr>"] show thesis
    using assms(1,2) db_good_reads [of s] by (auto simp: prints_def ready_def)
next
  case (Some x)
  then have "op_fits x s" using fits by simp
  from Database_op_proceeds [OF assms(1) _ this] assms(2) obtain s1
    where "Database_op x s = (Ret (), s1)" "script s1 = []" by (auto simp: ready_def)
  with that run_line_update [OF Some] show thesis by (simp add: andthen_def ret_def)
qed

text \<open>How a run of the loop that returned begins.\<close>

lemma repl_loop_Ret:
  assumes "repl_loop input s = (Ret (), s')"
  obtains (finished) "getline input = None" "s' = prompt s"
  | (quit) line rest where "getline input = Some (line, rest)" "run_line line (prompt s) = (Ret True, s')"
  | (round) line rest s1 where "getline input = Some (line, rest)" "run_line line (prompt s) = (Ret False, s1)"
      "repl_loop rest s1 = (Ret (), s')"
  using assms
  by (auto simp: repl_loop_step [of input s] split: option.splits prod.splits result.splits if_splits)

lemma ready_prompt [simp]: "ready (s\<lparr>out := t\<rparr>) = ready s"
  by (simp add: ready_def)

lemma session_fits_line:
  assumes "session_fits input s" and "getline input = Some (line, rest)"
  shows "case line_op line of None \<Rightarrow> True | Some x \<Rightarrow> op_fits x (prompt s)"
    and "run_line line (prompt s) = (Ret False, s1) \<Longrightarrow> session_fits rest s1"
  using assms by (simp_all add: session_fits.simps [of input s] split: option.splits)

lemma repl_loop_returns:
  assumes "script s = []" and "ready s" and "session_fits input s"
  shows "\<exists>s'. repl_loop input s = (Ret (), s') \<and> script s' = []"
  using assms
proof (induction input arbitrary: s rule: measure_induct_rule [of length])
  case (less input)
  show ?case
  proof (cases "getline input")
    case None
    then show ?thesis using less.prems(1) by (simp add: repl_loop_step [of input])
  next
    case (Some p)
    obtain line rest where p: "getline input = Some (line, rest)" using Some by (cases p) simp
    note fits = session_fits_line [OF less.prems(3) p]
    have "script (prompt s) = []" "ready (prompt s)" using less.prems(1,2) by simp_all
    from line_returns [OF this fits(1)] obtain s1
      where s1: "run_line line (prompt s) = (Ret (quits line), s1)" "script s1 = []" by blast
    have "ready s1" using line_outcome [OF s1(1) _ fits(1)] less.prems(2) by simp
    with less.IH [OF getline_shorter [OF p] s1(2)] fits(2) s1 p show ?thesis
      by (simp add: repl_loop_step [of input])
  qed
qed

text \<open>
  What the shell prints depends on the store alone: two engines in a good state that hold
  the same store answer the same input with the same output, however their tables, logs,
  thresholds and file numbers differ, for instance before and after a restart.
\<close>

lemma same_store_same_answers:
  assumes "repl_loop input s = (Ret (), s')" and "repl_loop input t = (Ret (), t')"
    and "ready s" and "ready t" and "session_fits input s" and "session_fits input t"
    and "db_view s = db_view t"
  shows "\<exists>str. out s' = out s @ str \<and> out t' = out t @ str"
  using assms
proof (induction input arbitrary: s t rule: measure_induct_rule [of length])
  case (less input)
  note fits = session_fits_line [OF less.prems(5)] session_fits_line [OF less.prems(6)]
  have ok: "ready (prompt s)" "ready (prompt t)" "db_view (prompt s) = db_view (prompt t)"
    using less.prems(3,4,7) by simp_all
  from less.prems(1) show ?case
  proof (cases rule: repl_loop_Ret)
    case finished
    with less.prems(2) show ?thesis by (cases rule: repl_loop_Ret) auto
  next
    case (quit line rest)
    from less.prems(2) show ?thesis
    proof (cases rule: repl_loop_Ret)
      case (quit line' rest')
      with line_printed [OF _ _ ok] \<open>getline input = Some (line, rest)\<close>
        \<open>run_line line (prompt s) = (Ret True, s')\<close> show ?thesis by fastforce
    next
      case (round line' rest' t1)
      with quit line_outcome [OF quit(2) ok(1) fits(1)] line_outcome [OF round(2) ok(2) fits(3)]
      show ?thesis by auto
    qed (use quit in simp)
  next
    case (round line rest s1)
    note round1 = round
    from less.prems(2) show ?thesis
    proof (cases rule: repl_loop_Ret)
      case (quit line' rest')
      with round1 line_outcome [OF quit(2) ok(2) fits(3)] line_outcome [OF round1(2) ok(1) fits(1)]
      show ?thesis by auto
    next
      case (round line' rest' t1)
      with round1 have same: "line' = line" "rest' = rest" by simp_all
      obtain str where str: "out s1 = out (prompt s) @ str" "out t1 = out (prompt t) @ str"
        using line_printed [OF round1(2) round(2) [unfolded same] ok] by blast
      have view: "ready s1" "ready t1" "db_view s1 = db_view t1"
        using line_outcome [OF round1(2) ok(1) fits(1) [OF round1(1)]]
          line_outcome [OF round(2) [unfolded same] ok(2) fits(3) [OF round1(1)]] ok(3)
        by simp_all
      from less.IH [OF getline_shorter [OF round1(1)] round1(3) round(3) [unfolded same]
          view(1,2) fits(2) [OF round1(1,2)] fits(4) [OF round1(1) round(2) [unfolded same]] view(3)] str
      show ?thesis by auto
    qed (use round in simp)
  qed
qed

lemma repl_loop_applies:
  assumes "repl_loop input s = (Ret (), s')" and "ready s" and "session_fits input s"
  shows "ready s' \<and> db_view s' = store_ops (session_ops input) (db_view s)"
  using assms
proof (induction input arbitrary: s rule: measure_induct_rule [of length])
  case (less input)
  from less.prems(1) show ?case
  proof (cases rule: repl_loop_Ret)
    case finished
    then show ?thesis using less.prems by (simp add: session_ops.simps [of input])
  next
    case (quit line rest)
    note out = line_outcome [OF quit(2) _ session_fits_line(1) [OF less.prems(3) quit(1)]]
    then have q: "quits line" using less.prems(2) by simp
    then have "line_op line = None" using run_line_update(2) by (cases "line_op line") auto
    with out q quit(1) less.prems(2) show ?thesis by (simp add: session_ops.simps [of input])
  next
    case (round line rest s1)
    note out = line_outcome [OF round(2) _ session_fits_line(1) [OF less.prems(3) round(1)]]
    have "session_fits rest s1" by (rule session_fits_line(2) [OF less.prems(3) round(1,2)])
    with less.IH [OF getline_shorter [OF round(1)] round(3)] out less.prems(2) round(1) show ?thesis
      by (simp add: session_ops.simps [of input] store_ops_append)
  qed
qed

section \<open>Reading words and lines\<close>

lemma next_word_space: "next_word (32 # xs) = next_word xs"
  by (simp add: next_word_def isspace_def)

lemma next_word_word:
  assumes "w \<noteq> []" and "\<forall>c \<in> set w. \<not> isspace c" and "rest = [] \<or> isspace (hd rest)"
  shows "next_word (w @ rest) = (w, rest)"
proof -
  have "dropWhile isspace (w @ rest) = w @ rest" using assms(1,2) by (cases w) auto
  moreover have "takeWhile (\<lambda>c. \<not> isspace c) (w @ rest) = w"
    using assms(2,3) by (cases rest) (auto simp: takeWhile_append2)
  moreover have "dropWhile (\<lambda>c. \<not> isspace c) (w @ rest) = rest"
    using assms(2,3) by (cases rest) (auto simp: dropWhile_append2)
  ultimately show ?thesis by (simp add: next_word_def)
qed

lemma no_newline_all: "10 \<notin> set xs \<Longrightarrow> \<forall>c \<in> set xs. c \<noteq> (10 :: byte)"
  by auto

lemma getline_line:
  assumes "10 \<notin> set line"
  shows "getline (line @ 10 # rest) = Some (line, rest)"
proof -
  have "takeWhile (\<lambda>c. c \<noteq> 10) (line @ 10 # rest) = line" "dropWhile (\<lambda>c. c \<noteq> 10) (line @ 10 # rest) = 10 # rest"
    using no_newline_all [OF assms] by (induction line) simp_all
  then show ?thesis by (simp add: getline_def)
qed

lemma word_no_newline: "\<forall>c \<in> set w. \<not> isspace c \<Longrightarrow> 10 \<notin> set w"
  by (auto simp: isspace_def)

definition put_line :: "bytes \<Rightarrow> bytes \<Rightarrow> bytes" where
  "put_line key val = ascii ''PUT'' @ 32 # key @ 32 # val"

definition get_line :: "bytes \<Rightarrow> bytes" where
  "get_line key = ascii ''GET'' @ 32 # key"

lemma put_line_op:
  assumes "key \<noteq> []" and "\<forall>c \<in> set key. \<not> isspace c" and "val \<noteq> []" and "10 \<notin> set val"
  shows "line_op (put_line key val) = Some (Put key val)"
proof -
  have "next_word (put_line key val) = (ascii ''PUT'', 32 # key @ 32 # val)"
    unfolding put_line_def by (rule next_word_word) (auto simp: command_names isspace_def)
  moreover have "next_word (32 # key @ 32 # val) = (key, 32 # val)"
    unfolding next_word_space using assms(1,2) by (intro next_word_word) (simp_all add: isspace_def)
  moreover have "takeWhile (\<lambda>c. c \<noteq> 10) val = val" using no_newline_all [OF assms(4)] by simp
  then have "put_value (32 # val) = val" by (simp add: put_value_def)
  ultimately show ?thesis using assms(1,3) by (simp add: line_op_def)
qed

lemma get_line_prints:
  assumes "key \<noteq> []" and "\<forall>c \<in> set key. \<not> isspace c"
  shows "prints (get_line key) m (case m key of Some v \<Rightarrow> v @ [10] | None \<Rightarrow> ascii ''(nil)'' @ [10])"
    and "line_op (get_line key) = None" and "\<not> quits (get_line key)"
proof -
  have w: "next_word (get_line key) = (ascii ''GET'', 32 # key)"
    unfolding get_line_def by (rule next_word_word) (auto simp: command_names isspace_def)
  moreover have "next_word (32 # key) = (key, [])"
    unfolding next_word_space using next_word_word [OF assms, of "[]"] by simp
  ultimately show "prints (get_line key) m (case m key of Some v \<Rightarrow> v @ [10] | None \<Rightarrow> ascii ''(nil)'' @ [10])"
    using assms(1) by (rule prints_get)
  show "line_op (get_line key) = None" "\<not> quits (get_line key)"
    using w by (auto simp: line_op_def quits_def command_names split: prod.splits)
qed

section \<open>Properties\<close>

text \<open>
  C26. The shell does what its lines say: when the loop ends, the store is the one before it
  with exactly the updates that the \<^verbatim>\<open>PUT\<close> and \<^verbatim>\<open>DEL\<close> lines up to \<^verbatim>\<open>EXIT\<close> spell, in order;
  malformed and unknown lines and reads change nothing.
\<close>

theorem shell_applies_its_lines:
  assumes "repl_loop input s = (Ret (), s')" and "ready s" and "session_fits input s"
  shows "ready s' \<and> db_view s' = store_ops (session_ops input) (db_view s)"
  using assms by (rule repl_loop_applies)

text \<open>
  C27. What is typed comes back: after \<^verbatim>\<open>PUT\<close> with a key without white space and a non-empty
  value without newline, which may contain any other bytes, \<^verbatim>\<open>GET\<close> of the key prints exactly
  that value on a line of its own.
\<close>

theorem put_then_get:
  assumes "script s = []" and "ready s" and "op_fits (Put key val) s"
    and "key \<noteq> []" and "\<forall>c \<in> set key. \<not> isspace c" and "val \<noteq> []" and "10 \<notin> set val"
  shows "\<exists>s'. repl_loop (put_line key val @ 10 # get_line key @ [10]) s = (Ret (), s') \<and>
    out s' = out s @ ascii ''> OK'' @ [10] @ ascii ''> '' @ val @ [10] @ ascii ''> ''"
proof -
  let ?put = "put_line key val" and ?get = "get_line key"
  note op = put_line_op [OF assms(4-7)]
  have lines: "10 \<notin> set ?put" "10 \<notin> set ?get"
    using word_no_newline [OF assms(5)] assms(7) by (simp_all add: put_line_def get_line_def command_names)
  have "script (prompt s) = []" "ready (prompt s)" "db_good (prompt s)" "op_fits (Put key val) (prompt s)"
    using assms(1-3) by (simp_all add: ready_def)
  from Database_op_proceeds [OF this(1,3,4)] obtain s1
    where s1: "Database_op (Put key val) (prompt s) = (Ret (), s1)" by blast
  let ?s2 = "s1\<lparr>out := out s1 @ ascii ''OK'' @ [10]\<rparr>"
  have put: "run_line ?put (prompt s) = (Ret False, ?s2)"
    using s1 by (simp add: run_line_update(1) [OF op] andthen_def ret_def)
  have printed: "out s1 = out s @ ascii ''> ''" using op_out [OF s1] by simp
  have ready2: "ready ?s2" and view2: "db_view ?s2 = (db_view s)(key \<mapsto> val)"
    using line_outcome [OF put] assms(2,3) op by simp_all
  let ?s3 = "prompt ?s2"
  have "run_line ?get ?s3 = (Ret False, ?s3\<lparr>out := out ?s3 @ val @ [10]\<rparr>)"
    using get_line_prints(1) [OF assms(4,5), of "db_view ?s3"] get_line_prints(3) [OF assms(4,5)]
      ready2 view2 db_good_reads [of ?s3]
    by (simp add: prints_def ready_def)
  then have "repl_loop (?get @ [10]) ?s2 = (Ret (), prompt (?s3\<lparr>out := out ?s3 @ val @ [10]\<rparr>))"
    using getline_line [OF lines(2), of "[]"]
    by (simp add: repl_loop_step [of "?get @ [10]"] repl_loop_step [of "[]"]) (simp add: getline_def)
  moreover have "repl_loop (?put @ 10 # ?get @ [10]) s = repl_loop (?get @ [10]) ?s2"
    using put by (simp add: repl_loop_step [of "?put @ 10 # ?get @ [10]"] getline_line [OF lines(1)])
  ultimately show ?thesis using printed by (simp add: ascii_def)
qed

section \<open>A concrete session\<close>

definition fresh_shell :: "u64 \<Rightarrow> nat \<Rightarrow> repl" where
  "fresh_shell th tr = \<lparr>files = [(wal_path, \<lparr>content = [], synced = 0\<rparr>)], script = [],
     flush_threshold_bytes = th, compaction_trigger_count = tr, next_sstable_number = 1,
     memtable = MemTable_init, sstables = [], compaction_requested = False, out = []\<rparr>"

text \<open>\<^verbatim>\<open>PUT a b\<close> and \<^verbatim>\<open>GET a\<close>, a line each.\<close>

definition small_session :: bytes where
  "small_session = put_line [97] [98] @ 10 # get_line [97] @ [10]"

lemma fresh_shell_ready:
  "ready (fresh_shell th tr)" "script (fresh_shell th tr) = []" "out (fresh_shell th tr) = []"
  "db_view (fresh_shell th tr) = Map.empty"
  using fresh_engine_good [of th tr "[]"]
  by (simp_all add: ready_def db_good_def db_view_def db_entries_def fresh_engine_def
      Database_init_def fresh_shell_def)

lemma fresh_shell_fits: "op_fits (Put [97] [98]) (fresh_shell th tr)"
proof -
  have "(1 :: u64) < - 1"
    by (simp add: word_less_nat_alt unsigned_minus_1_eq_mask mask_eq_exp_minus_1)
  then show ?thesis
    by (simp add: op_fits_def fresh_shell_def memtable_put_Upsert table_Upsert
        table_ok_def entry_fits_def sstable_image_eq entry_bytes_def length_EncodeRecord
        index_section_def sampled_def samples_def index_entry_bytes_def entry_type_def)
qed

lemma small_lines:
  "getline small_session = Some (put_line [97] [98], get_line [97] @ [10])"
  "getline (get_line [97] @ [10]) = Some (get_line [97], [])" "getline [] = None"
  "line_op (put_line [97] [98]) = Some (Put [97] [98])" "line_op (get_line [97]) = None"
  "\<not> quits (get_line [97])"
proof -
  show "getline small_session = Some (put_line [97] [98], get_line [97] @ [10])"
    unfolding small_session_def by (rule getline_line) (simp add: put_line_def command_names)
  show "getline (get_line [97] @ [10]) = Some (get_line [97], [])"
    by (rule getline_line) (simp add: get_line_def command_names)
  show "getline [] = None" by (simp add: getline_def)
  show "line_op (put_line [97] [98]) = Some (Put [97] [98])"
    by (rule put_line_op) (simp_all add: isspace_def)
  show "line_op (get_line [97]) = None" "\<not> quits (get_line [97])"
    by (rule get_line_prints; simp add: isspace_def)+
qed

lemma get_session_fits: "session_fits (get_line [97] @ [10]) s"
  by (simp add: session_fits.simps [of "get_line [97] @ [10]"] session_fits.simps [of "[]"] small_lines
      split: prod.split result.split)

lemma small_session_fits:
  assumes "op_fits (Put [97] [98]) s"
  shows "session_fits small_session s"
  by (simp add: session_fits.simps [of small_session] small_lines assms get_session_fits
      split: prod.split result.split)

lemma small_session_ops: "session_ops small_session = [Put [97] [98]]"
  using run_line_update(2) [OF small_lines(4)]
  by (simp add: session_ops.simps [of small_session] session_ops.simps [of "get_line [97] @ [10]"]
      session_ops.simps [of "[]"] small_lines)

lemma put_session_runs: "\<exists>s'. repl_loop small_session (fresh_shell th tr) = (Ret (), s')"
  using repl_loop_returns [OF fresh_shell_ready(2,1) small_session_fits [OF fresh_shell_fits], of th tr] by blast

theorem shell_applies_its_lines_witness:
  "\<exists>s'. repl_loop small_session (fresh_shell 1 4) = (Ret (), s') \<and> db_view s' = [[97] \<mapsto> [98]]"
proof -
  obtain s' where run: "repl_loop small_session (fresh_shell 1 4) = (Ret (), s')"
    using put_session_runs [of 1 4] by blast
  from shell_applies_its_lines [OF run fresh_shell_ready(1) small_session_fits [OF fresh_shell_fits]] run show ?thesis
    by (simp add: small_session_ops fresh_shell_ready)
qed

theorem put_then_get_witness:
  "\<exists>s'. repl_loop small_session (fresh_shell 1 4) = (Ret (), s') \<and>
    out s' = ascii ''> OK'' @ [10] @ ascii ''> b'' @ [10] @ ascii ''> ''"
  using put_then_get [OF fresh_shell_ready(2,1) fresh_shell_fits, of 1 4]
  by (simp add: isspace_def small_session_def fresh_shell_ready ascii_def)

end
