(* ===== verification/Shell_Sessions.thy ===== *)
theory Shell_Sessions
  imports Repl Engine_States
begin

text \<open>
  Whole runs of the shell, one process after the other on the same directory: what the next
  process finds after a run that ended in any way, and what it prints.
\<close>

section \<open>Updates that were answered\<close>

text \<open>The number of updates of a session that returned, each answered with \<^verbatim>\<open>OK\<close>.\<close>

function session_acked :: "bytes \<Rightarrow> repl \<Rightarrow> nat" where
  "session_acked input s =
     (case getline input of
        None \<Rightarrow> 0
      | Some (line, rest) \<Rightarrow>
          (case run_line line (prompt s) of
             (Ret stop, s') \<Rightarrow>
               (if line_op line = None then 0 else 1) + (if stop then 0 else session_acked rest s')
           | (Throw e, s') \<Rightarrow> 0
           | (Killed, s') \<Rightarrow> 0))"
  by pat_completeness auto
termination by (relation "measure (\<lambda>(input, s). length input)") (auto dest: getline_shorter)

declare session_acked.simps [simp del]

lemma line_fails:
  assumes "run_line line s = (r, s')" and "ready s" and "\<forall>stop. r \<noteq> Ret stop"
  obtains x r' where "line_op line = Some x" "Database_op x s = (r', s')" "r' \<noteq> Ret ()"
proof (cases "line_op line")
  case None
  then obtain str where "prints line (db_view s) str" using run_line_read by blast
  with assms db_good_reads [of s] show thesis by (auto simp: prints_def ready_def)
next
  case (Some x)
  obtain r' s1 where op: "Database_op x s = (r', s1)" by force
  with assms(1,3) that Some show thesis
    by (cases r') (auto simp: run_line_update(1) [OF Some] andthen_def ret_def)
qed

text \<open>What the loop leaves behind however it ends.\<close>

lemma session_sound:
  assumes "repl_loop input s = (r, s')" and "ready s" and "session_fits input s"
    and "restart b (files s') fs'"
  shows "recoverable (map_of fs') \<and> (\<exists>m \<in> {session_acked input s, Suc (session_acked input s)}.
      disk_store (map_of fs') = store_ops (take m (session_ops input)) (db_view s)) \<and>
    session_acked input s \<le> length (session_ops input) \<and>
    (r = Ret () \<longrightarrow> session_acked input s = length (session_ops input))"
  using assms
proof (induction input arbitrary: s rule: measure_induct_rule [of length])
  case (less input)
  have still: "recoverable (map_of fs') \<and> disk_store (map_of fs') = db_view u"
    if "ready u" "files s' = files u" for u :: repl
    using that stableI [of "files u" "db_view u"] db_good_recoverable [of u] db_good_view [of u] less.prems(4)
    by (auto simp: ready_def stable_def)
  show ?case
  proof (cases "getline input")
    case None
    with less.prems(1) have "r = Ret ()" "s' = prompt s" by (auto simp: repl_loop_step [of input])
    with None still [of s] less.prems(2) show ?thesis
      by (auto simp: session_acked.simps [of input] session_ops.simps [of input])
  next
    case (Some p)
    obtain line rest where p: "getline input = Some (line, rest)" using Some by (cases p) simp
    note fits = session_fits_line [OF less.prems(3) p]
    have ok: "ready (prompt s)" using less.prems(2) by simp
    obtain r1 s1 where run: "run_line line (prompt s) = (r1, s1)" by force
    show ?thesis
    proof (cases "\<exists>stop. r1 = Ret stop")
      case False
      then obtain x r' where x: "line_op line = Some x" "Database_op x (prompt s) = (r', s1)" "r' \<noteq> Ret ()"
        using line_fails [OF run ok] by blast
      have ended: "s' = s1" "r \<noteq> Ret ()"
        using less.prems(1) p run False by (cases r1; auto simp: repl_loop_step [of input])+
      have acked: "session_acked input s = 0"
        using p run False by (cases r1) (simp_all add: session_acked.simps [of input])
      have ops: "session_ops input = x # session_ops rest"
        using p x(1) run_line_update(2) [OF x(1)] by (simp add: session_ops.simps [of input])
      have "op_fits x (prompt s)" using fits(1) x(1) by simp
      with op_outcome [OF x(2)] ok less.prems(4) ended(1)
      have "recoverable (map_of fs') \<and> disk_store (map_of fs') \<in> {db_view s, store_op x (db_view s)}"
        by (simp add: ready_def)
      then show ?thesis by (auto simp: acked ops ended(2))
    next
      case True
      then obtain stop where r1: "r1 = Ret stop" by blast
      note out = line_outcome [OF run [unfolded r1] ok fits(1)]
      let ?ops = "case line_op line of None \<Rightarrow> [] | Some x \<Rightarrow> [x]"
      show ?thesis
      proof (cases stop)
        case True
        then have "quits line" "line_op line = None" using out run_line_update(2) by (auto, cases "line_op line") auto
        moreover have "r = Ret ()" "s' = s1"
          using less.prems(1) p run r1 True by (auto simp: repl_loop_step [of input])
        ultimately show ?thesis
          using still [of s1] out p run r1 True
          by (auto simp: session_acked.simps [of input] session_ops.simps [of input])
      next
        case False
        then have go: "repl_loop rest s1 = (r, s')" using less.prems(1) p run r1 by (simp add: repl_loop_step [of input])
        have "session_fits rest s1" using fits(2) run r1 False by simp
        note IH = less.IH [OF getline_shorter [OF p] go _ this less.prems(4)]
        have acked: "session_acked input s = length ?ops + session_acked rest s1"
          using p run r1 False by (simp add: session_acked.simps [of input] split: option.split)
        have ops: "session_ops input = ?ops @ session_ops rest"
          using p out False by (simp add: session_ops.simps [of input])
        have view: "db_view s1 = store_ops ?ops (db_view s)" using out by simp
        show ?thesis using IH out
          by (auto simp: acked ops view store_ops_append)
      qed
    qed
  qed
qed

section \<open>The whole program\<close>

text \<open>A process before \<^verbatim>\<open>main\<close> constructs the engine, with the defaults of \<^verbatim>\<open>database.h\<close>.\<close>

definition shell_start :: "(string \<times> disk_file) list \<Rightarrow> io_event list \<Rightarrow> repl" where
  "shell_start fs es = \<lparr>files = fs, script = es, flush_threshold_bytes = 4 * 1024 * 1024,
     compaction_trigger_count = 4, next_sstable_number = 1, memtable = MemTable_init, sstables = [],
     compaction_requested = False, out = []\<rparr>"

lemma shell_start_simps [simp]:
  "unopened (shell_start fs es)" "files (shell_start fs es) = fs" "script (shell_start fs es) = es"
  by (simp_all add: shell_start_def unopened_def)

lemma repl_open_cases:
  assumes "repl_open args s = (r, s')"
  obtains (opened) s1 where "Database_construct s = (Ret (), s1)" "r = Ret ()" "s' = s1\<lparr>out := out s'\<rparr>"
  | (failed) "Database_construct s = (r, s')" "r \<noteq> Ret ()"
proof -
  obtain r1 s1 where c: "Database_construct s = (r1, s1)" by force
  show thesis
  proof (cases r1)
    case (Ret u)
    with assms c opened show thesis by (auto simp: repl_open_def Let_def andthen_def ret_def split: if_splits)
  next
    case (Throw e)
    with assms c failed show thesis by (auto simp: repl_open_def Let_def andthen_def)
  next
    case Killed
    with assms c failed show thesis by (auto simp: repl_open_def Let_def andthen_def)
  qed
qed

lemma repl_open_ready:
  assumes "repl_open args (shell_start fs es) = (Ret (), s)" and "recoverable (map_of fs)" and "wal_durable (map_of fs)"
  shows "ready s" and "db_view s = disk_store (map_of fs)" and "es = [] \<Longrightarrow> script s = []"
proof -
  from assms(1) obtain s1 where c: "Database_construct (shell_start fs es) = (Ret (), s1)"
    and s: "s = s1\<lparr>out := out s\<rparr>" by (cases rule: repl_open_cases) auto
  from construct_outcome [OF c] assms(2,3) have s1: "ready s1" "db_view s1 = disk_store (map_of fs)"
    by (simp_all add: ready_def keeps_def)
  show "ready s" "db_view s = disk_store (map_of fs)" using s1 by (subst s; simp)+
  show "script s = []" if "es = []"
    using construct_script [OF c] that by (subst s) simp
qed

lemma repl_open_returns:
  assumes "recoverable (map_of fs)"
  obtains t where "repl_open args (shell_start fs []) = (Ret (), t)"
proof -
  obtain r t where call: "repl_open args (shell_start fs []) = (r, t)" by force
  from call have "r = Ret ()"
    using construct_outcome [of "shell_start fs []"] assms by (cases rule: repl_open_cases) auto
  with call that show thesis by simp
qed

text \<open>The updates a process answered.\<close>

definition main_acked :: "string list \<Rightarrow> bytes \<Rightarrow> repl \<Rightarrow> nat" where
  "main_acked args input s =
     (case repl_open args s of
        (Ret u, s1) \<Rightarrow> session_acked input s1
      | (Throw e, s1) \<Rightarrow> 0
      | (Killed, s1) \<Rightarrow> 0)"

section \<open>Properties\<close>



section \<open>Two concrete processes\<close>

lemma first_shell:
  assumes "repl_open args (shell_start [] es) = (Ret (), s)"
  shows "session_fits small_session s" and "session_fits (get_line [97] @ [10]) s"
proof -
  from assms obtain s1 where c: "Database_construct (shell_start [] es) = (Ret (), s1)"
    and s: "s = s1\<lparr>out := out s\<rparr>" by (cases rule: repl_open_cases) auto
  have "op_fits (Put [97] [98]) s1"
    using opened_empty [OF c] by (intro small_put_fits) simp_all
  then have "op_fits (Put [97] [98]) s" by (subst s) simp
  then show "session_fits small_session s" by (rule small_session_fits)
qed (rule get_session_fits)



end
