(* ===== verification/Tool_Runs.thy ===== *)
theory Tool_Runs
  imports Engine_States
begin

text \<open>
  What the two programs under \<^verbatim>\<open>tools/\<close> share: the terminal, the numbers of the command line,
  keys and values made of a number, and a fresh engine that takes fewer than \<open>2 ^ 31\<close> of them,
  so that every bound of the format holds by itself.
\<close>

section \<open>The code\<close>

text \<open>\<^verbatim>\<open>oss << "key-" << std::setw(width) << std::setfill('0') << i\<close>, for \<open>i\<close> not negative.\<close>

definition padded_key :: "nat \<Rightarrow> nat \<Rightarrow> bytes" where
  "padded_key width i = ascii (''key-'' @ zero_padded width (decimal i))"

text \<open>What the programs print: standard output and standard error are fields appended to.\<close>

record terminal = world +
  stdout :: bytes
  stderr :: bytes

definition say :: "bytes \<Rightarrow> (terminal, unit) prog" where
  "say str = update (\<lambda>w. w\<lparr>stdout := stdout w @ str\<rparr>)"

definition complain :: "bytes \<Rightarrow> (terminal, unit) prog" where
  "complain str = update (\<lambda>w. w\<lparr>stderr := stderr w @ str\<rparr>)"

definition line :: "string \<Rightarrow> bytes" where
  "line str = ascii str @ [10]"

text \<open>\<^verbatim>\<open>oss << i\<close> and \<^verbatim>\<open>std::to_string\<close>, and the padding of \<^verbatim>\<open>std::setw\<close>.\<close>

definition int_text :: "int \<Rightarrow> string" where
  "int_text i = (if i < 0 then ''-'' @ decimal (nat (- i)) else decimal (nat i))"

definition setw_right :: "nat \<Rightarrow> string \<Rightarrow> string" where
  "setw_right width str = replicate (width - length str) (CHR '' '') @ str"

definition setw_left :: "nat \<Rightarrow> string \<Rightarrow> string" where
  "setw_left width str = str @ replicate (width - length str) (CHR '' '')"

text \<open>White space, a sign, and the digits up to the first other character.\<close>

definition leading_int :: "bytes \<Rightarrow> bytes \<times> int" where
  "leading_int str =
     (let str = dropWhile isspace str;
          negative = (str \<noteq> [] \<and> hd str = 45);
          str = (if str \<noteq> [] \<and> hd str \<in> {43, 45} then tl str else str);
          digits = takeWhile (\<lambda>c. 48 \<le> c \<and> c \<le> 57) str;
          n = foldl (\<lambda>n c. 10 * n + (uint c - 48)) 0 digits
      in (digits, if negative then - n else n))"

definition int_range :: "int \<Rightarrow> bool" where
  "int_range n \<longleftrightarrow> - (2 ^ 31) \<le> n \<and> n < 2 ^ 31"

definition stoi :: "bytes \<Rightarrow> error + int" where
  "stoi str =
     (case leading_int str of (digits, n) \<Rightarrow>
        if digits = [] then Inl Invalid_argument
        else if int_range n then Inr n
        else Inl Out_of_range)"

text \<open>\<^verbatim>\<open>std::atoi\<close>: no digits give 0, a number outside \<^verbatim>\<open>int\<close> undefined behaviour.\<close>

definition atoi :: "bytes \<Rightarrow> int option" where
  "atoi str = (case leading_int str of (digits, n) \<Rightarrow> if int_range n then Some n else None)"

text \<open>\<^verbatim>\<open>(argc > i) ? std::atoi(argv[i]) : fallback\<close>\<close>

definition argument :: "bytes list \<Rightarrow> nat \<Rightarrow> int \<Rightarrow> int option" where
  "argument argv i fallback = (if i < length argv then atoi (argv ! i) else Some fallback)"

text \<open>The world after a database object on its files, whose use of the script it shares.\<close>

definition outside :: "'x world_scheme \<Rightarrow> database \<Rightarrow> 'x world_scheme" where
  "outside w db = w\<lparr>files := files db, script := script db\<rparr>"

text \<open>\<^verbatim>\<open>std::filesystem::remove_all(dir)\<close>\<close>

definition remove_all :: "('x world_scheme, unit) prog" where
  "remove_all =
     andthen (syscall (\<lambda>w. w\<lparr>files := []\<rparr>)) (\<lambda>ok. if ok then ret () else ThrowErrno ''cannot remove all'')"

section \<open>Keys are different and short\<close>

lemma unat_of_char: "unat (of_char c :: byte) = of_char c"
proof -
  have "(of_char c :: byte) = of_nat (of_char c)" by (simp only: of_nat_of_char)
  moreover have "(of_char c :: nat) < 256" by (rule nat_of_char_less_256)
  ultimately show ?thesis by (simp add: unat_of_nat take_bit_eq_mod)
qed

lemma ascii_inj [simp]: "ascii a = ascii b \<longleftrightarrow> a = b"
proof -
  have "inj (of_char :: char \<Rightarrow> byte)" by (rule injI) (metis unat_of_char of_char_eq_iff)
  then show ?thesis by (simp add: ascii_def)
qed

lemma ascii_simps [simp]: "length (ascii a) = length a" "ascii (a @ b) = ascii a @ ascii b" "ascii [] = []"
  by (simp_all add: ascii_def)

lemma decimal_inj [simp]: "decimal i = decimal j \<longleftrightarrow> i = j"
  by (metis digits_value_decimal)

lemma padded_key_inj [simp]: "padded_key w i = padded_key w j \<longleftrightarrow> i = j"
proof -
  have "digits_value (zero_padded w (decimal k)) = k" for k
    by (simp add: zero_padded_def digits_value_zeros)
  then show ?thesis unfolding padded_key_def by (metis append_same_eq ascii_inj same_append_eq)
qed

lemma length_decimal: "n < 10 ^ Suc k \<Longrightarrow> length (decimal n) \<le> Suc k"
proof (induction k arbitrary: n)
  case 0
  then show ?case by (simp add: decimal.simps [of n])
next
  case (Suc k)
  then have "length (decimal (n div 10)) \<le> Suc k" by (intro Suc.IH) (simp add: less_mult_imp_div_less)
  then show ?case by (simp add: decimal.simps [of n])
qed

lemma length_decimal_int: "n < 2 ^ 31 \<Longrightarrow> length (decimal n) \<le> 10"
  using length_decimal [of n 9] by simp

lemma length_padded_key: "n < 2 ^ 31 \<Longrightarrow> w \<le> 10 \<Longrightarrow> length (padded_key w n) \<le> 14"
  using length_decimal_int [of n] by (simp add: padded_key_def zero_padded_def)

lemma remove_all_proceeds: "script w = [] \<Longrightarrow> remove_all w = (Ret (), w\<lparr>files := []\<rparr>)"
  by (simp add: remove_all_def andthen_def syscall_def next_event_done ret_def)

lemma say_eq [simp]: "say str w = (Ret (), w\<lparr>stdout := stdout w @ str\<rparr>)"
  by (simp add: say_def update_def)

lemma complain_eq [simp]: "complain str w = (Ret (), w\<lparr>stderr := stderr w @ str\<rparr>)"
  by (simp add: complain_def update_def)

section \<open>Reading back numbers\<close>

lemma digit_byte:
  assumes "isdigit c"
  shows "48 \<le> (of_char c :: byte)" and "(of_char c :: byte) \<le> 57" and "uint (of_char c :: byte) = int (of_char c)"
proof -
  have "unat (of_char c :: byte) = of_char c" by (rule unat_of_char)
  moreover from this show "uint (of_char c :: byte) = int (of_char c)" by (metis uint_nat)
  ultimately show "48 \<le> (of_char c :: byte)" "(of_char c :: byte) \<le> 57"
    using assms by (simp_all add: word_le_nat_alt isdigit_def)
qed

lemma digits_value_bytes:
  "list_all isdigit str \<Longrightarrow>
     foldl (\<lambda>n c. 10 * n + (uint c - 48)) (int a) (ascii str) = int (foldl (\<lambda>n c. 10 * n + (of_char c - 48)) a str)"
proof (induction str arbitrary: a)
  case (Cons c str)
  have step: "10 * int a + (uint (of_char c :: byte) - 48) = int (10 * a + (of_char c - 48))"
    using Cons.prems digit_byte(3) [of c] by (simp add: isdigit_def)
  have "list_all isdigit str" using Cons.prems by simp
  from Cons.IH [OF this] show ?case by (simp only: ascii_def list.map foldl.simps step)
qed (simp add: ascii_def)

lemma digit_bytes:
  assumes "list_all isdigit str" and "c \<in> set (ascii str)"
  shows "48 \<le> c \<and> c \<le> 57"
  using assms digit_byte(1,2) by (auto simp: ascii_def list_all_iff)

lemma read_decimal:
  assumes "n < 2 ^ 31"
  shows "stoi (ascii (decimal n)) = Inr (int n)" and "atoi (ascii (decimal n)) = Some (int n)"
proof -
  let ?s = "ascii (decimal n)"
  have ne: "?s \<noteq> []" using digits_decimal(2) [of n] by (simp add: ascii_def)
  have d: "\<forall>c \<in> set ?s. 48 \<le> c \<and> c \<le> 57" using digit_bytes [OF digits_decimal(1)] by blast
  have "48 \<le> hd ?s" "hd ?s \<le> 57" using d ne hd_in_set by blast+
  then have hd: "\<not> isspace (hd ?s)" "hd ?s \<noteq> 43" "hd ?s \<noteq> 45"
    by (auto simp: isspace_def word_le_nat_alt)
  have digits: "takeWhile (\<lambda>c. 48 \<le> c \<and> c \<le> 57) ?s = ?s" using d by (simp add: takeWhile_eq_all_conv)
  have skip: "dropWhile isspace ?s = ?s" using ne hd(1) by (cases ?s) auto
  have val: "foldl (\<lambda>n c. 10 * n + (uint c - 48)) 0 ?s = int n"
    using digits_value_bytes [OF digits_decimal(1), of 0 n] digits_value_decimal [of n]
    by (simp add: digits_value_def)
  have "leading_int ?s = (?s, int n)"
    unfolding leading_int_def Let_def skip using ne hd by (simp add: digits val)
  with ne assms show "stoi ?s = Inr (int n)" "atoi ?s = Some (int n)"
    by (simp_all add: stoi_def atoi_def int_range_def)
qed

section \<open>Short tables fit\<close>

definition short :: "bytes \<times> Entry \<Rightarrow> bool" where
  "short p \<longleftrightarrow> entry_ok (snd p) \<and> length (fst p) \<le> 100 \<and> length (entry_value (snd p)) \<le> 100"

lemma length_concat_map_le: "\<forall>x \<in> set xs. length (f x) \<le> b \<Longrightarrow> length (concat (map f xs)) \<le> b * length xs"
  by (induction xs) auto

lemma short_table_ok:
  assumes "sorted_keys es" and "\<forall>p \<in> set es. short p" and "length es \<le> 2 ^ 31"
  shows "table_ok es"
proof -
  have "length (entries_bytes es) \<le> 300 * length es"
    using assms(2) unfolding entries_bytes_def
    by (intro length_concat_map_le) (auto simp: short_def entry_bytes_def length_EncodeRecord)
  moreover have "length (index_section es) \<le> 300 * length (sampled es)"
    unfolding index_section_def
  proof (intro length_concat_map_le ballI)
    fix q assume "q \<in> set (sampled es)"
    then obtain j where j: "j < samples es" "fst q = fst (es ! (16 * j))" by (auto simp: sampled_def)
    then have "es ! (16 * j) \<in> set es" by (intro nth_mem) (auto simp: samples_def)
    then show "length (index_entry_bytes q) \<le> 300"
      using assms(2) j(2) by (auto simp: short_def index_entry_bytes_def)
  qed
  moreover have "length (sampled es) \<le> length es + 1" by (auto simp: sampled_def samples_def)
  ultimately have "length (sstable_image es) \<le> 600 * length es + 324" by (simp add: sstable_image_eq)
  then show ?thesis
    using assms by (auto simp: table_ok_def short_def entry_fits_def)
qed

section \<open>A run of short updates\<close>

definition young :: "nat \<Rightarrow> database \<Rightarrow> bool" where
  "young n s \<longleftrightarrow> db_good s \<and> wal_durable (dir s) \<and> length (table (memtable s)) \<le> n \<and>
     (\<forall>p \<in> set (table (memtable s)). short p) \<and> unat (next_sstable_number s) \<le> Suc n"

lemma young_opened:
  assumes "Database_construct (Database_init th tr [] es) = (Ret (), s)"
  shows "young 0 s" and "db_view s = Map.empty"
  using opened_empty [OF assms, simplified] by (simp_all add: young_def)

lemma young_event: "young n s \<Longrightarrow> young n (s\<lparr>script := es\<rparr>)" "db_view (s\<lparr>script := es\<rparr>) = db_view s"
  unfolding young_def db_good_def db_view_def db_entries_def by auto

lemma unat_Suc_le: "unat ((n :: u64) + 1) \<le> Suc (unat n)"
  using mod_less_eq_dividend [of "Suc (unat n)" "2 ^ 64"] by (simp add: unat_word_ariths)

lemma length_map_assign: "length (map_assign k v m) \<le> Suc (length m)"
  by (induction m) auto

lemma young_put:
  assumes young: "young n s" and n: "n < 2 ^ 31" and kv: "length k \<le> 100" "length v \<le> 100"
    and call: "Database_op (Put k v) s = (r, s')"
  shows "op_fits (Put k v) s"
    and "r = Ret () \<Longrightarrow> young (Suc n) s' \<and> db_view s' = (db_view s)(k \<mapsto> v)"
    and "restart b (files s') fs' \<Longrightarrow> recoverable (map_of fs') \<and>
       disk_store (map_of fs') \<in> {db_view s, (db_view s)(k \<mapsto> v)}"
proof -
  let ?T = "table (memtable_op (Put k v) (memtable s))"
  have T: "?T = map_assign k (put_entry v) (table (memtable s))"
    by (simp add: memtable_put_Upsert table_Upsert)
  have len: "length ?T \<le> Suc n"
    unfolding T using length_map_assign [of k "put_entry v" "table (memtable s)"] young by (simp add: young_def)
  have short: "\<forall>p \<in> set ?T. short p"
    unfolding T using set_map_assign_subset [of k "put_entry v" "table (memtable s)"] young kv
    by (auto simp: young_def short_def put_entry_def entry_ok_def)
  have "sorted_keys ?T"
    unfolding T using db_good_reads [of s] young by (simp add: young_def reads_ok_def)
  then have ok: "table_ok ?T" using short len n by (intro short_table_ok) simp_all
  have "unat (next_sstable_number s) < 2 ^ 32" using young n by (simp add: young_def)
  then have num: "next_sstable_number s < - 1"
    by (simp add: word_less_nat_alt unsigned_minus_1_eq_mask mask_eq_exp_minus_1)
  from ok num show fits: "op_fits (Put k v) s" by (simp add: op_fits_def)
  have good: "db_good s" "wal_durable (dir s)" using young by (simp_all add: young_def)
  note out = op_outcome [OF call good fits]
  from out show "restart b (files s') fs' \<Longrightarrow> recoverable (map_of fs') \<and>
       disk_store (map_of fs') \<in> {db_view s, (db_view s)(k \<mapsto> v)}" by simp
  assume r: "r = Ret ()"
  have mt: "table (memtable s') \<in> {table (memtable s), ?T, []}"
    and nx: "next_sstable_number s' \<in> {next_sstable_number s, next_sstable_number s + 1}"
    using op_fields [OF call] by auto
  have "length (table (memtable s')) \<le> Suc n" "\<forall>p \<in> set (table (memtable s')). short p"
    using mt len short young by (auto simp: young_def)
  moreover have "unat (next_sstable_number s') \<le> Suc (Suc n)"
    using nx unat_Suc_le [of "next_sstable_number s"] young by (auto simp: young_def)
  ultimately show "young (Suc n) s' \<and> db_view s' = (db_view s)(k \<mapsto> v)"
    using out r by (simp add: young_def)
qed

end
