(* ===== verification/Crash_Harness.thy ===== *)
theory Crash_Harness
  imports Tool_Runs Compaction_Safety
begin

text \<open>
  \<^verbatim>\<open>tools/crash_recovery_harness.cpp\<close>: a child process streams puts into a fresh database and
  acknowledges each over a pipe, the parent kills it, reopens the directory and looks for
  every acknowledged write. The child's script says where the kill strikes; what the parent
  reads from the pipe before its deadline is a parameter, of which the properties assume that
  a pipe delivers the bytes written to it in order; the random delay and the clock are part of
  it. The child's compaction thread takes part in the second property only.
\<close>

section \<open>The code\<close>

definition Key :: "nat \<Rightarrow> bytes" where
  "Key i = padded_key 6 i"

definition Value :: "nat \<Rightarrow> bytes" where
  "Value i = ascii (''value-for-'' @ decimal i)"

subsection \<open>The child\<close>

text \<open>
  The child's loop; the result is what it wrote to the pipe and the engine as it was when the
  process ended, by \<^verbatim>\<open>_exit\<close>, an exception or the kill.
\<close>

function child_loop :: "nat \<Rightarrow> nat \<Rightarrow> bytes \<Rightarrow> database \<Rightarrow> bytes \<times> database" where
  "child_loop i count acks s =
     (if i < count
      then (case Database_put (Key i) (Value i) s of
              (Ret u, s') \<Rightarrow>
                (let msg = ascii (decimal i) @ [10]
                 in case syscall (\<lambda>w. w) s' of
                      (Ret written, s'') \<Rightarrow> child_loop (i + 1) count (if written then acks @ msg else acks) s''
                    | (Throw e, s'') \<Rightarrow> (acks, s'')
                    | (Killed, s'') \<Rightarrow> (acks, s''))
            | (Throw e, s') \<Rightarrow> (acks, s')
            | (Killed, s') \<Rightarrow> (acks, s'))
      else (acks, s))"
  by pat_completeness auto
termination by (relation "measure (\<lambda>(i, count, acks, s). count - i)") auto

declare child_loop.simps [simp del]

definition RunChild :: "nat \<Rightarrow> (string \<times> disk_file) list \<Rightarrow> io_event list \<Rightarrow> bytes \<times> database" where
  "RunChild count fs es =
     (case Database_construct (Database_init 2048 3 fs es) of
        (Ret u, s) \<Rightarrow> child_loop 0 count [] s
      | (Throw e, s) \<Rightarrow> ([], s)
      | (Killed, s) \<Rightarrow> ([], s))"

subsection \<open>The acknowledgements\<close>

text \<open>The inner loop takes the complete lines off the buffer.\<close>

function take_lines :: "bytes \<Rightarrow> int \<Rightarrow> error + (bytes \<times> int)" where
  "take_lines buf last_acked =
     (if 10 \<in> set buf
      then (case stoi (takeWhile (\<lambda>c. c \<noteq> 10) buf) of
              Inl e \<Rightarrow> Inl e
            | Inr n \<Rightarrow> take_lines (drop 1 (dropWhile (\<lambda>c. c \<noteq> 10) buf)) n)
      else Inr (buf, last_acked))"
  by pat_completeness auto
termination
proof (relation "measure (\<lambda>(buf, last_acked). length buf)")
  fix buf :: bytes
  assume "10 \<in> set buf"
  then show "\<And>n m :: int. ((drop 1 (dropWhile (\<lambda>c. c \<noteq> 10) buf), n), (buf, m)) \<in> measure (\<lambda>(buf, l). length buf)"
    using length_dropWhile_le [of "\<lambda>c. c \<noteq> 10" buf] by (cases buf) auto
qed simp

declare take_lines.simps [simp del]

text \<open>The outer loop, over what each \<^verbatim>\<open>read\<close> before the deadline returned; no bytes end it.\<close>

fun collect :: "bytes list \<Rightarrow> bytes \<Rightarrow> int \<Rightarrow> error + int" where
  "collect [] buf last_acked = Inr last_acked"
| "collect (chunk # chunks) buf last_acked =
     (if chunk = [] then Inr last_acked
      else case take_lines (buf @ chunk) last_acked of
             Inl e \<Rightarrow> Inl e
           | Inr (buf, last_acked) \<Rightarrow> collect chunks buf last_acked)"

definition CollectAcks :: "bytes list \<Rightarrow> error + int" where
  "CollectAcks chunks = collect chunks [] (- 1)"

subsection \<open>The parent\<close>

text \<open>\<^verbatim>\<open>e.what()\<close> of an exception, as libstdc++ words its own.\<close>

fun what :: "error \<Rightarrow> string" where
  "what (Runtime_error str) = str"
| "what Out_of_range = ''stoull''"
| "what Invalid_argument = ''stoull''"
| "what _ = []"

definition is_exception :: "error \<Rightarrow> bool" where
  "is_exception e \<longleftrightarrow> e \<noteq> Out_of_bounds \<and> e \<noteq> Undefined"

function verify_loop :: "nat \<Rightarrow> nat \<Rightarrow> int \<Rightarrow> database \<Rightarrow> bool \<Rightarrow> (terminal, bool) prog" where
  "verify_loop i seed last_acked db ok w =
     (if int i \<le> last_acked
      then (case Database_get db (Key i) of
              Inl e \<Rightarrow> (Throw e, w)
            | Inr val \<Rightarrow>
                if val = None \<or> val \<noteq> Some (Value i)
                then verify_loop (i + 1) seed last_acked db False
                       (snd (complain (ascii (''  FAIL (seed='' @ decimal seed @ ''): acknowledged write '') @
                          Key i @ line '' missing after restart'') w))
                else verify_loop (i + 1) seed last_acked db ok w)
      else (Ret ok, w))"
  by pat_completeness auto
termination by (relation "measure (\<lambda>(i, seed, last_acked, db, ok, w). nat (last_acked + 1 - int i))") auto

declare verify_loop.simps [simp del]

definition trial_report :: "nat \<Rightarrow> int \<Rightarrow> int \<Rightarrow> bool \<Rightarrow> bytes" where
  "trial_report seed count last_acked ok =
     line (''  trial seed='' @ setw_right 3 (decimal seed) @ '': killed after '' @
       int_text (last_acked + 1) @ ''/'' @ int_text count @ '' acked writes, restart '' @
       (if ok then ''OK'' else ''FAILED''))"

text \<open>
  Reopening and checking, with the default thresholds of \<^verbatim>\<open>database.h\<close>. Only the constructor
  is inside the \<^verbatim>\<open>try\<close>.
\<close>

definition check_trial :: "int \<Rightarrow> nat \<Rightarrow> int \<Rightarrow> (terminal, bool) prog" where
  "check_trial count seed last_acked w =
     (case Database_construct (Database_init (4 * 1024 * 1024) 4 (files w) (script w)) of
        (Ret u, db) \<Rightarrow>
          andthen (verify_loop 0 seed last_acked db True) (\<lambda>ok.
          andthen (say (trial_report seed count last_acked ok)) (\<lambda>_.
          ret ok)) (outside w db)
      | (Throw e, db) \<Rightarrow>
          if is_exception e
          then andthen (complain (line (''  FAIL (seed='' @ decimal seed @ ''): reopening after kill threw: '' @ what e)))
                 (\<lambda>_. ret False) (outside w db)
          else (Throw e, outside w db)
      | (Killed, db) \<Rightarrow> (Killed, outside w db))"

text \<open>
  \<open>None\<close> is \<^verbatim>\<open>std::exit(1)\<close>; \<^verbatim>\<open>perror\<close> prints without the system's description. The random delay
  is drawn between 0 and \<^verbatim>\<open>count * 3000\<close>, an \<^verbatim>\<open>int\<close>.
\<close>

definition RunTrial :: "int \<Rightarrow> nat \<Rightarrow> io_event list \<Rightarrow> (bytes \<Rightarrow> bytes list) \<Rightarrow> (terminal, bool option) prog" where
  "RunTrial count seed es reads =
     andthen remove_all (\<lambda>_.
     andthen (syscall (\<lambda>w. w)) (\<lambda>created.
     if \<not> created then ThrowErrno ''cannot create directories'' else
     andthen (syscall (\<lambda>w. w)) (\<lambda>piped.
     if \<not> piped then andthen (complain (line ''pipe: '')) (\<lambda>_. ret None) else
     andthen (syscall (\<lambda>w. w)) (\<lambda>forked.
     if \<not> forked then andthen (complain (line ''fork: '')) (\<lambda>_. ret None) else
     (\<lambda>w. case RunChild (nat count) (files w) es of (acks, child) \<Rightarrow>
        if \<not> (0 \<le> count \<and> int_range (count * 3000)) then (Throw Undefined, w) else
        andthen (lift (CollectAcks (reads acks))) (\<lambda>last_acked.
        andthen (check_trial count seed last_acked) (\<lambda>ok.
        ret (Some ok))) (w\<lparr>files := files child\<rparr>))))))"

fun trial_loop :: "nat list \<Rightarrow> int \<Rightarrow> (nat \<Rightarrow> io_event list) \<Rightarrow> (nat \<Rightarrow> bytes \<Rightarrow> bytes list) \<Rightarrow> nat \<Rightarrow> (terminal, nat option) prog" where
  "trial_loop [] count es reads failures = ret (Some failures)"
| "trial_loop (t # ts) count es reads failures =
     andthen (RunTrial count t (es t) (reads t)) (\<lambda>passed.
     case passed of
       None \<Rightarrow> ret None
     | Some ok \<Rightarrow> trial_loop ts count es reads (if ok then failures else failures + 1))"

definition harness_title :: "int \<Rightarrow> int \<Rightarrow> bytes" where
  "harness_title trials records_per_trial =
     line (''crash-recovery harness: '' @ int_text trials @ '' trials, '' @ int_text records_per_trial @
       '' records/trial, killed at a random point in each'')"

definition pass_line :: "int \<Rightarrow> bytes" where
  "pass_line trials =
     line (''PASS: '' @ int_text trials @ ''/'' @ int_text trials @
       '' trials survived a hard kill with zero acknowledged writes lost.'')"

definition fail_line :: "nat \<Rightarrow> int \<Rightarrow> bytes" where
  "fail_line failures trials =
     line (''FAIL: '' @ decimal failures @ ''/'' @ int_text trials @ '' trials lost an acknowledged write.'')"

text \<open>\<^verbatim>\<open>main\<close>; the result is the exit code.\<close>

definition harness_main :: "bytes list \<Rightarrow> (nat \<Rightarrow> io_event list) \<Rightarrow> (nat \<Rightarrow> bytes \<Rightarrow> bytes list) \<Rightarrow> (terminal, nat) prog" where
  "harness_main argv es reads =
     (case (argument argv 1 30, argument argv 2 500) of
        (Some trials, Some records_per_trial) \<Rightarrow>
          andthen (say (harness_title trials records_per_trial)) (\<lambda>_.
          andthen (trial_loop [0..<nat trials] records_per_trial es reads 0) (\<lambda>failures.
          case failures of
            None \<Rightarrow> ret 1
          | Some failures \<Rightarrow>
              andthen remove_all (\<lambda>_.
              if failures = 0
              then andthen (say (pass_line trials)) (\<lambda>_. ret 0)
              else andthen (say (fail_line failures trials)) (\<lambda>_. ret 1))))
      | _ \<Rightarrow> throw Undefined)"

section \<open>The acknowledgements read\<close>

definition ack :: "nat \<Rightarrow> bytes" where
  "ack j = ascii (decimal j) @ [10]"

lemma ack_line:
  assumes "a @ 10 # b = ack j @ c" and "10 \<notin> set a"
  shows "a = ascii (decimal j) \<and> b = c"
proof -
  have "10 \<notin> set (ascii (decimal j))"
    using digit_bytes [OF digits_decimal(1), of 10 j] by (auto simp: word_le_nat_alt)
  then have "takeWhile (\<lambda>c. c \<noteq> 10) (ack j @ c) = ascii (decimal j)"
    by (auto simp: ack_def takeWhile_append)
  moreover have "takeWhile (\<lambda>c. c \<noteq> 10) (a @ 10 # b) = a" using assms(2) by (auto simp: takeWhile_append)
  ultimately show ?thesis using assms(1) by (simp add: ack_def)
qed

lemma take_lines_acks:
  assumes "prefix (buf @ rest) (concat (map ack js))" and "\<forall>j \<in> set js. j < n" and "n \<le> 2 ^ 31"
    and "last_acked < int n"
  shows "\<exists>buf' last' js'. take_lines buf last_acked = Inr (buf', last') \<and> last' < int n \<and>
    prefix (buf' @ rest) (concat (map ack js')) \<and> (\<forall>j \<in> set js'. j < n)"
  using assms
proof (induction js arbitrary: buf last_acked)
  case Nil
  then show ?case by (auto simp: take_lines.simps [of "[]"] intro!: exI [of _ "[]"])
next
  case (Cons j js)
  show ?case
  proof (cases "10 \<in> set buf")
    case False
    with Cons.prems show ?thesis by (auto simp: take_lines.simps [of buf] intro!: exI [of _ "j # js"])
  next
    case True
    then obtain a b where buf: "buf = a @ 10 # b" "10 \<notin> set a" by (metis split_list_first)
    from Cons.prems(1) obtain zs where "concat (map ack (j # js)) = buf @ rest @ zs" by (auto elim: prefixE)
    then have "a @ 10 # (b @ rest @ zs) = ack j @ concat (map ack js)" by (simp add: buf)
    from ack_line [OF this buf(2)] have a: "a = ascii (decimal j)" and "b @ rest @ zs = concat (map ack js)" by auto
    then have "prefix (b @ rest) (concat (map ack js))" by (metis append.assoc prefixI)
    from Cons.IH [OF this, of "int j"] Cons.prems(2,3) obtain buf' last' js' where
      rec: "take_lines b (int j) = Inr (buf', last')" "last' < int n"
      "prefix (buf' @ rest) (concat (map ack js'))" "\<forall>j \<in> set js'. j < n" by auto
    have "stoi a = Inr (int j)" unfolding a using Cons.prems(2,3) by (intro read_decimal) auto
    moreover have "takeWhile (\<lambda>c. c \<noteq> 10) buf = a" "dropWhile (\<lambda>c. c \<noteq> 10) buf = 10 # b"
      using buf by (auto simp: takeWhile_append dropWhile_append)
    ultimately have "take_lines buf last_acked = take_lines b (int j)"
      using True by (simp add: take_lines.simps [of buf])
    with rec show ?thesis by auto
  qed
qed

lemma collect_acks:
  "prefix (buf @ concat chunks) (concat (map ack js)) \<Longrightarrow> \<forall>j \<in> set js. j < n \<Longrightarrow> n \<le> 2 ^ 31 \<Longrightarrow>
     last_acked < int n \<Longrightarrow> \<exists>last'. collect chunks buf last_acked = Inr last' \<and> last' < int n"
proof (induction chunks arbitrary: buf last_acked js)
  case (Cons chunk chunks)
  from Cons.prems(1) have "prefix ((buf @ chunk) @ concat chunks) (concat (map ack js))" by simp
  from take_lines_acks [OF this Cons.prems(2-4)] Cons.IH Cons.prems(3,4) show ?case by fastforce
qed simp

section \<open>The child's writes\<close>

lemma Key_inj [simp]: "Key i = Key j \<longleftrightarrow> i = j"
  by (simp add: Key_def)

lemma short_put: "n < 2 ^ 31 \<Longrightarrow> length (Key n) \<le> 100 \<and> length (Value n) \<le> 100"
  using length_padded_key [of n 6] length_decimal_int [of n] by (simp add: Key_def Value_def)

definition has_written :: "nat \<Rightarrow> store \<Rightarrow> bool" where
  "has_written n st \<longleftrightarrow> (\<forall>j < n. st (Key j) = Some (Value j))"

lemma has_written_put: "has_written n st \<Longrightarrow> has_written (Suc n) (st(Key n \<mapsto> Value n))"
  by (simp add: has_written_def less_Suc_eq)

lemma written_puts: "has_written n (store_ops (map (\<lambda>i. Put (Key i) (Value i)) [0..<n]) Map.empty)"
  by (induction n) (simp_all add: has_written_def store_ops_append less_Suc_eq)

lemma child_outcome:
  assumes "child_loop i count acks s = (acks', s')" and "young i s" and "has_written i (db_view s)"
    and "i \<le> count" and "count \<le> 2 ^ 31" and "acks = concat (map ack js)" and "\<forall>j \<in> set js. j < i"
  shows "\<exists>n js. n \<le> count \<and> acks' = concat (map ack js) \<and> (\<forall>j \<in> set js. j < n) \<and>
    recoverable (dir s') \<and> has_written n (disk_store (dir s'))"
  using assms
proof (induction i count acks s arbitrary: js rule: child_loop.induct)
  case (1 i count acks s)
  show ?case
  proof (cases "i < count")
    case False
    with "1.prems" show ?thesis
      using db_good_recoverable [of s] db_good_view [of s]
      by (auto simp: child_loop.simps [of i] young_def intro!: exI [of _ i] exI [of _ js])
  next
    case True
    obtain r s1 where op: "Database_put (Key i) (Value i) s = (r, s1)" by force
    then have "Database_op (Put (Key i) (Value i)) s = (r, s1)" by (simp add: Database_op_def)
    note put = young_put [OF "1.prems"(2) _ _ _ this, unfolded restart_def]
    have bounds: "i < 2 ^ 31" "length (Key i) \<le> 100" "length (Value i) \<le> 100"
      using True "1.prems"(5) short_put [of i] by auto
    have disk: "recoverable (dir s1)" "has_written i (disk_store (dir s1))"
      using put(3) [OF bounds, of "files s1" False] "1.prems"(3) by (auto simp: has_written_def)
    show ?thesis
    proof (cases "r = Ret ()")
      case False
      then have "(acks', s') = (acks, s1)" using "1.prems"(1) True op
        by (auto simp: child_loop.simps [of i] split: result.splits)
      with disk "1.prems"(4,6,7) show ?thesis by auto
    next
      case r: True
      note new = put(2) [OF bounds r]
      obtain w s2 where sys: "syscall (\<lambda>w. w) s1 = (w, s2)" by force
      have s2: "s2 = s1\<lparr>script := tl (script s1)\<rparr>" using sys by (auto elim!: syscall_cases)
      have young: "young (Suc i) s2" "has_written (Suc i) (db_view s2)"
        using new young_event [where s = s1] has_written_put [OF "1.prems"(3)] by (simp_all add: s2)
      show ?thesis
      proof (cases w)
        case (Ret written)
        let ?js = "if written then js @ [i] else js"
        have "child_loop (i + 1) count (if written then acks @ ack i else acks) s2 = (acks', s')"
          using "1.prems"(1) True op r sys Ret by (simp add: child_loop.simps [of i] ack_def split: if_splits)
        from "1.IH" [OF True op [symmetric, unfolded r] _ refl sys [symmetric, unfolded Ret] _ this [unfolded ack_def], where js = ?js]
        show ?thesis using young True "1.prems"(5-7) by (auto simp: ack_def less_Suc_eq)
      next
        case (Throw e)
        then have "acks' = acks" "s' = s2" using "1.prems"(1) True op r sys by (simp_all add: child_loop.simps [of i])
        with disk "1.prems"(4,6,7) s2 show ?thesis by auto
      next
        case Killed
        then have "acks' = acks" "s' = s2" using "1.prems"(1) True op r sys by (simp_all add: child_loop.simps [of i])
        with disk "1.prems"(4,6,7) s2 show ?thesis by auto
      qed
    qed
  qed
qed

section \<open>A trial\<close>

lemma verify_written:
  assumes "\<forall>j < n. Database_get db (Key j) = Inr (Some (Value j))" and "last_acked < int n"
  shows "verify_loop i seed last_acked db ok w = (Ret ok, w)"
proof (induction "nat (last_acked + 1 - int i)" arbitrary: i)
  case 0
  then show ?case by (simp add: verify_loop.simps [of i])
next
  case (Suc m)
  from Suc(2) have i: "int i \<le> last_acked" "m = nat (last_acked + 1 - int (i + 1))" by simp_all
  have "Database_get db (Key i) = Inr (Some (Value i))"
    using assms i(1) by simp
  with i Suc(1) [OF i(2)] show ?case by (simp add: verify_loop.simps [of i])
qed

lemma check_trial_passes:
  assumes "script w = []" and "recoverable (dir w)" and "has_written n (disk_store (dir w))" and "last_acked < int n"
  shows "\<exists>w'. check_trial count seed last_acked w = (Ret True, w') \<and> script w' = [] \<and> stderr w' = stderr w \<and>
    stdout w' = stdout w @ trial_report seed count last_acked True"
proof -
  obtain r db where call: "Database_construct (Database_init (4 * 1024 * 1024) 4 (files w) []) = (r, db)" by force
  from Database_construct_outcome [OF call assms(2)] have db: "r = Ret ()" "db_good db" "db_view db = disk_store (dir w)"
    by simp_all
  have "script db = []" by (rule construct_script [OF call]) (simp add: Database_init_def)
  moreover have "verify_loop 0 seed last_acked db True w' = (Ret True, w')" for w'
    using Database_get_view [OF db_good_reads [OF db(2)]] assms(3,4) db(3)
    by (intro verify_written [where n = n]) (simp_all add: has_written_def)
  ultimately show ?thesis using call db(1) assms(1)
    by (simp add: check_trial_def outside_def andthen_def ret_def)
qed

lemma RunChild_outcome:
  assumes "RunChild count [] es = (acks, s)" and "count \<le> 2 ^ 31"
  shows "\<exists>n js. n \<le> count \<and> acks = concat (map ack js) \<and> (\<forall>j \<in> set js. j < n) \<and>
    recoverable (dir s) \<and> has_written n (disk_store (dir s))"
proof -
  obtain r s1 where call: "Database_construct (Database_init 2048 3 [] es) = (r, s1)" by force
  show ?thesis
  proof (cases "r = Ret ()")
    case True
    with assms(1) call have "child_loop 0 count [] s1 = (acks, s)" by (simp add: RunChild_def)
    from child_outcome [OF this young_opened(1) _ _ assms(2), of 2048 3 es "[]"] call True
    show ?thesis by (simp add: has_written_def)
  next
    case False
    then have s: "acks = []" "s = s1" using assms(1) call by (auto simp: RunChild_def split: result.splits)
    have "stable (files s1) (disk_store (map_of []))"
      by (rule Database_construct_stable [OF call empty_recoverable(1,2)])
    then have "recoverable (dir s1)" by (auto simp: stable_def restart_def)
    with s show ?thesis by (intro exI [of _ 0] exI [of _ "[]"]) (simp add: has_written_def)
  qed
qed

lemma RunTrial_passes:
  assumes "script w = []" and "0 \<le> count" and "count \<le> 715827" and "\<forall>p. prefix (concat (reads p)) p"
  shows "\<exists>w' acked. RunTrial count seed es reads w = (Ret (Some True), w') \<and> script w' = [] \<and> acked \<le> count \<and>
    stderr w' = stderr w \<and> stdout w' = stdout w @ trial_report seed count (acked - 1) True"
proof -
  let ?w = "w\<lparr>files := []\<rparr>"
  have bound: "nat count \<le> 2 ^ 31" "int_range (count * 3000)" using assms(2,3) by (simp_all add: int_range_def)
  obtain acks child where child: "RunChild (nat count) [] es = (acks, child)" by force
  from RunChild_outcome [OF this bound(1)] obtain n js where
    out: "n \<le> nat count" "acks = concat (map ack js)" "\<forall>j \<in> set js. j < n" "recoverable (dir child)"
      "has_written n (disk_store (dir child))" by blast
  have "prefix ([] @ concat (reads acks)) (concat (map ack js))" using assms(4) out(2) by simp
  from collect_acks [OF this out(3), of "- 1"] out(1) bound(1) obtain last where
    last: "CollectAcks (reads acks) = Inr last" "last < int n"
    by (auto simp: CollectAcks_def)
  let ?w' = "w\<lparr>files := files child\<rparr>"
  from check_trial_passes [of ?w' n last count seed] assms(1) out(4,5) last(2) obtain w' where
    check: "check_trial count seed last ?w' = (Ret True, w')" "script w' = []" "stderr w' = stderr w"
      "stdout w' = stdout w @ trial_report seed count last True" by auto
  have "next_event w = (Proceed, w)" "next_event ?w = (Proceed, ?w)"
    using assms(1) by (simp_all add: next_event_done)
  with child last check bound(2) assms(2) have "RunTrial count seed es reads w = (Ret (Some True), w')"
    by (simp add: RunTrial_def remove_all_proceeds [OF assms(1)] andthen_def syscall_def ret_def lift_def)
  moreover have "last + 1 \<le> count" "last + 1 - 1 = last" using last(2) out(1) assms(2) by simp_all
  ultimately show ?thesis using check(2-4) by metis
qed

text \<open>What the trials print, the numbers of acknowledged writes being \<open>acked\<close>.\<close>

fun reports :: "nat list \<Rightarrow> int \<Rightarrow> int list \<Rightarrow> bytes" where
  "reports (t # ts) count (a # acked) = trial_report t count (a - 1) True @ reports ts count acked"
| "reports _ count _ = []"

lemma trial_loop_passes:
  assumes "0 \<le> count" and "count \<le> 715827" and "\<forall>t p. prefix (concat (reads t p)) p"
  shows "script w = [] \<Longrightarrow> \<exists>w' acked. trial_loop ts count es reads failures w = (Ret (Some failures), w') \<and>
    script w' = [] \<and> stderr w' = stderr w \<and> length acked = length ts \<and> (\<forall>a \<in> set acked. a \<le> count) \<and>
    stdout w' = stdout w @ reports ts count acked"
proof (induction ts arbitrary: w)
  case Nil
  then show ?case by (simp add: ret_def)
next
  case (Cons t ts)
  from RunTrial_passes [OF Cons.prems assms(1,2), of "reads t" t "es t"] assms(3) obtain w1 a where
    1: "RunTrial count t (es t) (reads t) w = (Ret (Some True), w1)" "script w1 = []" "a \<le> count"
      "stderr w1 = stderr w" "stdout w1 = stdout w @ trial_report t count (a - 1) True" by blast
  from Cons.IH [OF 1(2)] obtain w' acked where
    2: "trial_loop ts count es reads failures w1 = (Ret (Some failures), w')" "script w' = []" "stderr w' = stderr w1"
      "length acked = length ts" "\<forall>a \<in> set acked. a \<le> count" "stdout w' = stdout w1 @ reports ts count acked" by blast
  then show ?case using 1 by (intro exI [of _ w'] exI [of _ "a # acked"]) (simp add: andthen_def)
qed

section \<open>Properties\<close>





end
