(* ===== verification/Benchmark.thy ===== *)
theory Benchmark
  imports Tool_Runs
begin

text \<open>
  \<^verbatim>\<open>tools/benchmark.cpp\<close>. The random numbers are a parameter, one sequence for each seed, and so
  are the results of the measurements, as the text \<^verbatim>\<open>std::fixed << std::setprecision(2)\<close> makes of
  them. Its trigger counts are larger than the number of tables it builds, so that the
  compaction thread never leaves its wait.
\<close>

section \<open>The code\<close>

definition bench_Key :: "nat \<Rightarrow> bytes" where
  "bench_Key i = padded_key 8 i"

definition bench_Value :: "nat \<Rightarrow> bytes" where
  "bench_Value i = ascii (''value-'' @ decimal i @ ''-payload-0123456789'')"

fun put_records :: "nat list \<Rightarrow> (database, unit) prog" where
  "put_records [] = ret ()"
| "put_records (i # is) =
     andthen (Database_put (bench_Key i) (bench_Value i)) (\<lambda>_. put_records is)"

text \<open>The result is the record that was missed.\<close>

fun look_up :: "nat list \<Rightarrow> database \<Rightarrow> error + nat option" where
  "look_up [] db = Inr None"
| "look_up (i # is) db =
     (case Database_get db (bench_Key i) of
        Inl e \<Rightarrow> Inl e
      | Inr None \<Rightarrow> Inr (Some i)
      | Inr (Some v) \<Rightarrow> look_up is db)"

definition unexpected_miss :: "nat \<Rightarrow> bytes" where
  "unexpected_miss i = ascii ''unexpected miss for '' @ bench_Key i @ [10]"

text \<open>\<^verbatim>\<open>uniform_int_distribution\<close> needs a range that is not empty, a vector a size that is not negative.\<close>

definition draw :: "(nat \<Rightarrow> nat) \<Rightarrow> int \<Rightarrow> int \<Rightarrow> error + nat list" where
  "draw pick n count =
     (if n < 1 then Inl Undefined
      else if count < 0 then Inl Length_error
      else Inr (map pick [0..<nat count]))"

subsection \<open>Tables of results\<close>

record Row =
  row_label :: string
  row_value :: string
  row_unit :: string

definition row_text :: "nat \<Rightarrow> Row \<Rightarrow> bytes" where
  "row_text label_width r =
     line (''  '' @ setw_left (label_width + 2) (row_label r) @ setw_right 14 (row_value r) @ '' '' @ row_unit r)"

definition table_text :: "string \<Rightarrow> Row list \<Rightarrow> bytes" where
  "table_text title rows =
     (let label_width = foldl (\<lambda>width r. max width (length (row_label r))) 0 rows
      in [10] @ line title @ line (replicate (length title) (CHR ''-'')) @ concat (map (row_text label_width) rows))"

definition PrintTable :: "string \<Rightarrow> Row list \<Rightarrow> (terminal, unit) prog" where
  "PrintTable title rows = say (table_text title rows)"

subsection \<open>The benchmarks\<close>

text \<open>A database object on the files of the world, for the time of a function's body.\<close>

definition with_database :: "u64 \<Rightarrow> nat \<Rightarrow> (database, 'a) prog \<Rightarrow> (terminal, 'a) prog" where
  "with_database threshold trigger body w =
     (case andthen Database_construct (\<lambda>_. body) (Database_init threshold trigger (files w) (script w)) of
        (r, db) \<Rightarrow> (r, outside w db))"

definition throughput_table :: "int \<Rightarrow> string \<Rightarrow> string \<Rightarrow> bytes" where
  "throughput_table n writes reads =
     table_text (''write / memtable-read throughput ('' @ int_text n @ '' records)'')
       [\<lparr>row_label = ''writes/sec'', row_value = writes, row_unit = ''ops/s''\<rparr>,
        \<lparr>row_label = ''reads/sec (memtable)'', row_value = reads, row_unit = ''ops/s''\<rparr>]"

text \<open>\<open>False\<close> is \<^verbatim>\<open>std::exit(1)\<close>.\<close>

definition BenchWriteAndMemtableRead :: "int \<Rightarrow> (nat \<Rightarrow> nat) \<Rightarrow> string \<Rightarrow> string \<Rightarrow> (terminal, bool) prog" where
  "BenchWriteAndMemtableRead n pick writes reads =
     andthen remove_all (\<lambda>_.
     andthen (with_database (2 ^ 30) 1000
       (andthen (put_records [0..<nat n]) (\<lambda>_.
        andthen (lift (draw pick n n)) (\<lambda>lookups db.
        lift (look_up lookups db) db)))) (\<lambda>missed.
     case missed of
       Some i \<Rightarrow> andthen (complain (unexpected_miss i)) (\<lambda>_. ret False)
     | None \<Rightarrow>
         andthen (say (throughput_table n writes reads)) (\<lambda>_.
         andthen remove_all (\<lambda>_. ret True))))"

definition bench_threshold :: "int \<Rightarrow> nat \<Rightarrow> u64" where
  "bench_threshold n tables =
     max 64 (((of_nat (length (bench_Key 0)) + of_nat (length (bench_Value 0))) * of_int n) div of_nat tables)"

definition built_line :: "nat \<Rightarrow> bytes" where
  "built_line tables = line (''  (built with '' @ decimal tables @ '' SSTable(s) on disk)'')"

definition BenchReadLatencyMicros :: "int \<Rightarrow> nat \<Rightarrow> int \<Rightarrow> (nat \<Rightarrow> nat) \<Rightarrow> (terminal, bool) prog" where
  "BenchReadLatencyMicros n tables lookups pick =
     andthen remove_all (\<lambda>_.
     andthen (with_database (bench_threshold n tables) 1000000
       (andthen (put_records [0..<nat n]) (\<lambda>_.
        andthen (lift (draw pick n lookups)) (\<lambda>targets db.
        andthen (lift (look_up targets db)) (\<lambda>missed.
        ret (missed, sstable_count db)) db)))) (\<lambda>(missed, built).
     case missed of
       Some i \<Rightarrow> andthen (complain (unexpected_miss i)) (\<lambda>_. ret False)
     | None \<Rightarrow>
         andthen (say (built_line built)) (\<lambda>_.
         andthen remove_all (\<lambda>_. ret True))))"

subsection \<open>\<open>main\<close>\<close>

definition benchmark_title :: "int \<Rightarrow> int \<Rightarrow> bytes" where
  "benchmark_title n lookups =
     line (''tinylsm benchmark: n='' @ int_text n @ '' records, '' @ int_text lookups @ '' lookups per read test'')"

definition latency_title :: bytes where
  "latency_title =
     [10] @ line ''point-read latency: 1 SSTable vs many'' @
     line ''---------------------------------------''"

definition latency_table :: "int \<Rightarrow> string \<Rightarrow> string \<Rightarrow> bytes" where
  "latency_table lookups one_sst_us many_sst_us =
     table_text (''point-read latency (average, over '' @ int_text lookups @ '' lookups)'')
       [\<lparr>row_label = ''1 SSTable'', row_value = one_sst_us, row_unit = ''us/op''\<rparr>,
        \<lparr>row_label = ''20 SSTables'', row_value = many_sst_us, row_unit = ''us/op''\<rparr>]"

definition closing_remark :: bytes where
  "closing_remark =
     [10] @ line ''  many-SSTable lookups are slower because a miss in each newer table'' @
     line ''  still has to be ruled out (sparse-index binary search + bounded'' @
     line ''  block scan) before falling through to the next one - see CLAUDE.md's'' @
     line ''  \"Read path\" section.''"

text \<open>
  The numbers drawn with the seeds 42 and 7, and the measured results, are arguments; the
  result is the exit code.
\<close>

definition benchmark_main ::
    "bytes list \<Rightarrow> (nat \<Rightarrow> nat) \<Rightarrow> (nat \<Rightarrow> nat) \<Rightarrow> string \<Rightarrow> string \<Rightarrow> string \<Rightarrow> string \<Rightarrow> (terminal, nat) prog" where
  "benchmark_main argv pick42 pick7 writes reads one_sst_us many_sst_us =
     (case (argument argv 1 20000, argument argv 2 5000) of
        (Some n, Some lookups) \<Rightarrow>
          andthen (say (benchmark_title n lookups)) (\<lambda>_.
          andthen (BenchWriteAndMemtableRead n pick42 writes reads) (\<lambda>ok.
          if \<not> ok then ret 1 else
          andthen (say latency_title) (\<lambda>_.
          andthen (BenchReadLatencyMicros n 1 lookups pick7) (\<lambda>ok.
          if \<not> ok then ret 1 else
          andthen (BenchReadLatencyMicros n 20 lookups pick7) (\<lambda>ok.
          if \<not> ok then ret 1 else
          andthen (say (latency_table lookups one_sst_us many_sst_us)) (\<lambda>_.
          andthen (say closing_remark) (\<lambda>_. ret 0)))))))
      | _ \<Rightarrow> throw Undefined)"

section \<open>What the puts build\<close>

text \<open>A table is written whenever the sizes collected reach the threshold.\<close>

fun tables_of :: "nat \<Rightarrow> nat \<Rightarrow> nat list \<Rightarrow> nat" where
  "tables_of th acc [] = 0"
| "tables_of th acc (x # xs) = (if th \<le> acc + x then Suc (tables_of th 0 xs) else tables_of th (acc + x) xs)"

definition record_size :: "nat \<Rightarrow> nat" where
  "record_size i = length (bench_Key i) + length (bench_Value i)"

lemma bench_Key_inj [simp]: "bench_Key i = bench_Key j \<longleftrightarrow> i = j"
  by (simp add: bench_Key_def)

lemma short_record: "n < 2 ^ 31 \<Longrightarrow> length (bench_Key n) \<le> 100 \<and> length (bench_Value n) \<le> 100"
  using length_padded_key [of n 8] length_decimal_int [of n] by (simp add: bench_Key_def bench_Value_def)

text \<open>The engine after the records below \<open>i\<close>: they are readable, and the memtable holds \<open>acc\<close> bytes.\<close>

definition filled :: "nat \<Rightarrow> nat \<Rightarrow> database \<Rightarrow> bool" where
  "filled i acc s \<longleftrightarrow> script s = [] \<and> young i s \<and>
     (\<forall>j < i. db_view s (bench_Key j) \<noteq> None) \<and>
     approximate_size_bytes (memtable s) = of_nat acc \<and> acc \<le> 200 * i \<and>
     (\<forall>p \<in> set (table (memtable s)). \<exists>j < i. fst p = bench_Key j)"

lemma filled_put:
  assumes "filled i acc s" and i: "i < 2 ^ 31"
  shows "\<exists>s'. Database_put (bench_Key i) (bench_Value i) s = (Ret (), s') \<and>
    flush_threshold_bytes s' = flush_threshold_bytes s \<and>
    (if unat (flush_threshold_bytes s) \<le> acc + record_size i
     then filled (Suc i) 0 s' \<and> length (sstables s') = Suc (length (sstables s))
     else filled (Suc i) (acc + record_size i) s' \<and> length (sstables s') = length (sstables s))"
proof -
  let ?x = "Put (bench_Key i) (bench_Value i)"
  let ?mt = "memtable_op ?x (memtable s)"
  obtain r s' where call: "Database_op ?x s = (r, s')" by force
  have idle: "script s = []" and young: "young i s" using assms(1) by (simp_all add: filled_def)
  have good: "db_good s" "wal_durable (dir s)" using young by (simp_all add: young_def)
  note kv = short_record [OF i, THEN conjunct1] short_record [OF i, THEN conjunct2]
  note put = young_put [OF young i kv call]
  have fresh: "map_of (table (memtable s)) (bench_Key i) = None"
    using assms(1) by (fastforce simp: filled_def map_of_eq_None_iff)
  have T: "table ?mt = map_assign (bench_Key i) (put_entry (bench_Value i)) (table (memtable s))"
    by (simp add: memtable_put_Upsert table_Upsert)
  have "approximate_size_bytes ?mt = approximate_size_bytes (memtable s) + EntrySize (bench_Key i) (put_entry (bench_Value i))"
    using fresh by (simp add: memtable_put_Upsert Upsert_def Let_def)
  then have size: "approximate_size_bytes ?mt = of_nat (acc + record_size i)"
    using assms(1) by (simp add: filled_def record_size_def EntrySize_def put_entry_def)
  have bound: "acc + record_size i \<le> 200 * Suc i"
    using assms(1) kv by (simp add: filled_def record_size_def)
  then have "unat (of_nat (acc + record_size i) :: u64) = acc + record_size i"
    using i by (simp add: unat_of_nat take_bit_eq_mod del: of_nat_add)
  then have full: "flush_threshold_bytes s \<le> approximate_size_bytes ?mt \<longleftrightarrow>
      unat (flush_threshold_bytes s) \<le> acc + record_size i"
    unfolding size by (simp add: word_le_nat_alt)
  have keys: "\<forall>p \<in> set (table ?mt). \<exists>j < Suc i. fst p = bench_Key j"
    unfolding T using set_map_assign_subset [of "bench_Key i" "put_entry (bench_Value i)" "table (memtable s)"] assms(1)
    by (fastforce simp: filled_def less_Suc_eq)
  from Database_op_logged [OF idle good(1) put(1)] obtain s2 where
    s2: "Database_op ?x s = MaybeFlush s2" "db_good s2" "script s2 = []" "sstables s2 = sstables s"
      "memtable s2 = ?mt" "flush_threshold_bytes s2 = flush_threshold_bytes s" by blast
  have th: "flush_threshold_bytes s' = flush_threshold_bytes s"
    by (rule preservesD [OF preserves_op call]) (simp add: outside_engine_def blind_def)
  have "filled (Suc i) acc' s'" if "r = Ret ()" "script s' = []" "approximate_size_bytes (memtable s') = of_nat acc'"
      "acc' \<le> 200 * Suc i" "\<forall>p \<in> set (table (memtable s')). \<exists>j < Suc i. fst p = bench_Key j" for acc'
    using that put(2) assms(1) by (auto simp: filled_def less_Suc_eq)
  note filled' = this
  show ?thesis
  proof (cases "unat (flush_threshold_bytes s) \<le> acc + record_size i")
    case True
    with Database_op_flushes [OF idle good(1) put(1)] full call
    have "r = Ret ()" "script s' = []" "length (sstables s') = Suc (length (sstables s))" "memtable s' = MemTable_init"
      by auto
    with True filled' [of 0] call th show ?thesis
      by (simp add: Database_op_def MemTable_init_def)
  next
    case False
    then have "\<not> flush_threshold_bytes s2 \<le> approximate_size_bytes (memtable s2)"
      using full by (simp only: s2(5,6) simp_thms)
    then have "(r, s') = (Ret (), s2)" using s2(1) call by (simp add: MaybeFlush_def ret_def)
    with False filled' [of "acc + record_size i"] s2(3-5) size bound keys call th show ?thesis
      by (simp add: Database_op_def)
  qed
qed

lemma filled_run:
  "filled i acc s \<Longrightarrow> n \<le> 2 ^ 31 \<Longrightarrow> i \<le> n \<Longrightarrow> \<exists>s' acc'. put_records [i..<n] s = (Ret (), s') \<and> filled n acc' s' \<and>
     length (sstables s') = length (sstables s) + tables_of (unat (flush_threshold_bytes s)) acc (map record_size [i..<n])"
proof (induction "n - i" arbitrary: i acc s)
  case 0
  then show ?case by (auto simp: ret_def)
next
  case (Suc m)
  then have i: "i < n" "m = n - Suc i" "[i..<n] = i # [Suc i..<n]" by (simp_all add: upt_conv_Cons)
  from filled_put [OF Suc(3), of] Suc(4) i(1) obtain s1 where
    s1: "Database_put (bench_Key i) (bench_Value i) s = (Ret (), s1)"
      "flush_threshold_bytes s1 = flush_threshold_bytes s"
      "if unat (flush_threshold_bytes s) \<le> acc + record_size i
       then filled (Suc i) 0 s1 \<and> length (sstables s1) = Suc (length (sstables s))
       else filled (Suc i) (acc + record_size i) s1 \<and> length (sstables s1) = length (sstables s)"
    by auto
  show ?case
  proof (cases "unat (flush_threshold_bytes s) \<le> acc + record_size i")
    case True
    with s1 Suc(1) [OF i(2), of 0 s1] Suc(4) i show ?thesis by (auto simp: andthen_def)
  next
    case False
    with s1 Suc(1) [OF i(2), of "acc + record_size i" s1] Suc(4) i show ?thesis by (auto simp: andthen_def)
  qed
qed

lemma look_up_hits:
  assumes "reads_ok s" and "\<forall>j < n. db_view s (bench_Key j) \<noteq> None"
  shows "\<forall>i \<in> set is. i < n \<Longrightarrow> look_up is s = Inr None"
  using Database_get_view [OF assms(1)] assms(2) by (induction "is") auto

lemma filled_opened:
  assumes "Database_construct (Database_init th tr [] []) = (Ret (), s)"
  shows "filled 0 0 s" and "sstables s = []" and "flush_threshold_bytes s = th"
proof -
  have "script s = []" by (rule construct_script [OF assms]) (simp add: Database_init_def)
  then show "filled 0 0 s"
    using young_opened [OF assms] opened_empty(4) [OF assms, simplified] by (simp add: filled_def MemTable_init_def)
  show "sstables s = []" by (rule opened_empty(6) [OF assms, simplified])
  have "flush_threshold_bytes s = flush_threshold_bytes (Database_init th tr [] [])"
    by (rule preservesD [OF preserves_construct assms]) (simp add: outside_opening_def blind_def)
  then show "flush_threshold_bytes s = th" by (simp add: Database_init_def)
qed

lemma bench_phase:
  assumes "n \<le> 2 ^ 31"
  shows "\<exists>s. andthen Database_construct (\<lambda>_. put_records [0..<n]) (Database_init th tr [] []) = (Ret (), s) \<and>
    script s = [] \<and> (\<forall>picks. (\<forall>i \<in> set picks. i < n) \<longrightarrow> look_up picks s = Inr None) \<and>
    sstable_count s = tables_of (unat th) 0 (map record_size [0..<n])"
proof -
  obtain s0 where open': "Database_construct (Database_init th tr [] []) = (Ret (), s0)"
    using fresh_engine_opened by blast
  note filled = filled_opened [OF open']
  from filled_run [OF filled(1) assms, of] obtain s acc where
    run: "put_records [0..<n] s0 = (Ret (), s)" "filled n acc s"
      "length (sstables s) = tables_of (unat th) 0 (map record_size [0..<n])"
    using filled(2,3) by auto
  have "\<forall>picks. (\<forall>i \<in> set picks. i < n) \<longrightarrow> look_up picks s = Inr None"
    using run(2) look_up_hits [OF db_good_reads, of s n] by (auto simp: filled_def young_def)
  with open' run show ?thesis by (simp add: andthen_def sstable_count_def filled_def)
qed

lemma draw_below:
  assumes "1 \<le> n" and "0 \<le> count" and "\<forall>i. pick i < nat n"
  shows "draw pick n count = Inr (map pick [0..<nat count])" and "\<forall>i \<in> set (map pick [0..<nat count]). i < nat n"
  using assms by (simp_all add: draw_def)

lemma BenchWrite_passes:
  assumes "script w = []" and "1 \<le> n" and "n < 2 ^ 31" and "\<forall>i. pick i < nat n"
  shows "\<exists>w'. BenchWriteAndMemtableRead n pick writes reads w = (Ret True, w') \<and> script w' = [] \<and>
    stderr w' = stderr w \<and> stdout w' = stdout w @ throughput_table n writes reads"
proof -
  note picks = draw_below [OF assms(2) _ assms(4), of n]
  have "nat n \<le> 2 ^ 31" using assms(3) by simp
  from bench_phase [OF this, of "2 ^ 30" 1000] obtain s where
    s: "andthen Database_construct (\<lambda>_. put_records [0..<nat n]) (Database_init (2 ^ 30) 1000 [] []) = (Ret (), s)"
    "script s = []" "look_up (map pick [0..<nat n]) s = Inr None" using picks(2) assms(2) by auto
  then obtain s0 where "Database_construct (Database_init (2 ^ 30) 1000 [] []) = (Ret (), s0)"
    "put_records [0..<nat n] s0 = (Ret (), s)" by (auto simp: andthen_Ret)
  with s(2,3) assms(1,2) picks(1) show ?thesis
    by (simp add: BenchWriteAndMemtableRead_def with_database_def outside_def andthen_step remove_all_proceeds lift_def ret_def)
qed

lemma bench_threshold_unat:
  assumes "0 \<le> n" and "n < 2 ^ 31" and "0 < tables" and "tables < 2 ^ 64"
  shows "unat (bench_threshold n tables) = max 64 ((record_size 0 * nat n) div tables)"
proof -
  let ?l = "of_nat (length (bench_Key 0)) + of_nat (length (bench_Value 0)) :: u64"
  have "record_size 0 \<le> 200" using short_record [of 0] by (simp add: record_size_def)
  moreover from this have "record_size 0 * nat n \<le> 200 * 2 ^ 31"
    using assms(2) by (intro mult_le_mono) simp_all
  moreover have n: "of_int n = (of_nat (nat n) :: u64)" using assms(1) by simp
  ultimately have "unat (?l * of_int n) = record_size 0 * nat n"
    unfolding n by (simp add: record_size_def unat_of_nat take_bit_eq_mod flip: of_nat_add of_nat_mult)
  moreover have "unat (of_nat tables :: u64) = tables"
    using assms(4) by (simp add: unat_of_nat take_bit_eq_mod)
  ultimately have "unat ((?l * of_int n) div of_nat tables) = (record_size 0 * nat n) div tables"
    by (simp only: unat_div)
  then show ?thesis by (simp add: bench_threshold_def max_def word_le_nat_alt)
qed

text \<open>The number of tables the second benchmark builds.\<close>

definition tables_built :: "int \<Rightarrow> nat \<Rightarrow> nat" where
  "tables_built n tables =
     tables_of (max 64 ((record_size 0 * nat n) div tables)) 0 (map record_size [0..<nat n])"

lemma BenchRead_passes:
  assumes "script w = []" and "1 \<le> n" and "n < 2 ^ 31" and "0 \<le> lookups" and "\<forall>i. pick i < nat n"
    and "0 < tables" and "tables < 2 ^ 64"
  shows "\<exists>w'. BenchReadLatencyMicros n tables lookups pick w = (Ret True, w') \<and> script w' = [] \<and>
    stderr w' = stderr w \<and> stdout w' = stdout w @ built_line (tables_built n tables)"
proof -
  note picks = draw_below [OF assms(2,4,5)]
  have "nat n \<le> 2 ^ 31" using assms(3) by simp
  from bench_phase [OF this, of "bench_threshold n tables" 1000000] obtain s where
    s: "andthen Database_construct (\<lambda>_. put_records [0..<nat n])
         (Database_init (bench_threshold n tables) 1000000 [] []) = (Ret (), s)"
    "script s = []" "look_up (map pick [0..<nat lookups]) s = Inr None"
    "sstable_count s = tables_built n tables"
    using picks(2) bench_threshold_unat [OF _ assms(3,6,7)] assms(2) by (auto simp: tables_built_def)
  then obtain s0 where
    "Database_construct (Database_init (bench_threshold n tables) 1000000 [] []) = (Ret (), s0)"
    "put_records [0..<nat n] s0 = (Ret (), s)" by (auto simp: andthen_Ret)
  with s(2-4) assms(1) picks(1) show ?thesis
    by (simp add: BenchReadLatencyMicros_def with_database_def outside_def andthen_step remove_all_proceeds lift_def ret_def)
qed

lemma argument_int:
  assumes "argument argv i fallback = Some n" and "int_range fallback"
  shows "int_range n"
  using assms by (auto simp: argument_def atoi_def split: if_splits prod.splits)

section \<open>Properties\<close>

text \<open>
  C30. The benchmark runs to its end: for any number of records from 1 on and any number of
  look-ups its command line asks for, when no call fails, no look-up of a record it has put
  misses; it prints its tables of results, with the numbers of SSTables of a greedy split of
  the record sizes at the threshold, nothing to standard error, and exits with 0.
\<close>

theorem benchmark_completes:
  assumes "script w = []" and "argument argv 1 20000 = Some n" and "argument argv 2 5000 = Some lookups"
    and "1 \<le> n" and "0 \<le> lookups" and "\<forall>i. pick42 i < nat n" and "\<forall>i. pick7 i < nat n"
  shows "\<exists>w'. benchmark_main argv pick42 pick7 writes reads one_us many_us w = (Ret 0, w') \<and> stderr w' = stderr w \<and>
    stdout w' = stdout w @ benchmark_title n lookups @ throughput_table n writes reads @ latency_title @
      built_line (tables_built n 1) @ built_line (tables_built n 20) @ latency_table lookups one_us many_us @ closing_remark"
proof -
  have n: "n < 2 ^ 31" using argument_int [OF assms(2)] by (simp add: int_range_def)
  let ?w = "w\<lparr>stdout := stdout w @ benchmark_title n lookups\<rparr>"
  from BenchWrite_passes [OF _ assms(4) n assms(6), of ?w writes reads] assms(1) obtain w1 where
    1: "BenchWriteAndMemtableRead n pick42 writes reads ?w = (Ret True, w1)" "script w1 = []" "stderr w1 = stderr w"
      "stdout w1 = stdout w @ benchmark_title n lookups @ throughput_table n writes reads" by auto
  from BenchRead_passes [OF _ assms(4) n assms(5,7), of "w1\<lparr>stdout := stdout w1 @ latency_title\<rparr>" 1] 1 obtain w2 where
    2: "BenchReadLatencyMicros n 1 lookups pick7 (w1\<lparr>stdout := stdout w1 @ latency_title\<rparr>) = (Ret True, w2)"
      "script w2 = []" "stderr w2 = stderr w" "stdout w2 = stdout w1 @ latency_title @ built_line (tables_built n 1)" by auto
  from BenchRead_passes [OF 2(2) assms(4) n assms(5,7), of 20] obtain w3 where
    3: "BenchReadLatencyMicros n 20 lookups pick7 w2 = (Ret True, w3)" "stderr w3 = stderr w2"
      "stdout w3 = stdout w2 @ built_line (tables_built n 20)" by auto
  have "benchmark_main argv pick42 pick7 writes reads one_us many_us w =
      (Ret 0, w3\<lparr>stdout := stdout w3 @ latency_table lookups one_us many_us @ closing_remark\<rparr>)"
    unfolding benchmark_main_def assms(2,3) by (simp add: andthen_step 1(1) 2(1) [simplified] 3(1) ret_def)
  with 1 2 3 show ?thesis by simp
qed

lemma record_size_below_100:
  assumes "i < 100"
  shows "record_size i = (if i < 10 then 38 else 39)"
proof -
  have "i div 10 < 10" using assms by (intro less_mult_imp_div_less) simp
  then have "length (decimal i) = (if i < 10 then 1 else 2)"
    by (simp add: decimal.simps [of i] decimal.simps [of "i div 10"])
  then show ?thesis
    by (simp add: record_size_def bench_Key_def bench_Value_def padded_key_def zero_padded_def split: if_splits)
qed

lemma built_of_20: "tables_built 20 1 = 1" "tables_built 20 20 = 10"
proof -
  have sizes: "map record_size [0..<20] = map (\<lambda>i. if i < 10 then 38 else 39) [0..<20]"
    by (simp add: record_size_below_100)
  have "tables_of 760 0 (map (\<lambda>i. if i < 10 then 38 else 39) [0..<20]) = 1"
    "tables_of 64 0 (map (\<lambda>i. if i < 10 then 38 else 39) [0..<20]) = 10" by code_simp+
  moreover have "record_size 0 = 38" by (simp add: record_size_below_100)
  ultimately show "tables_built 20 1 = 1" "tables_built 20 20 = 10"
    by (simp_all add: tables_built_def sizes del: map_eq_conv)
qed

theorem benchmark_completes_witness:
  "\<exists>w'. benchmark_main [ascii ''benchmark'', ascii ''20'', ascii ''6''] (\<lambda>i. i mod 20) (\<lambda>i. 7) ''1.00'' ''2.00'' ''3.00'' ''4.00''
       \<lparr>files = [], script = [], stdout = [], stderr = []\<rparr> = (Ret 0, w') \<and>
     stdout w' = benchmark_title 20 6 @ throughput_table 20 ''1.00'' ''2.00'' @ latency_title @
       line ''  (built with 1 SSTable(s) on disk)'' @ line ''  (built with 10 SSTable(s) on disk)'' @
       latency_table 6 ''3.00'' ''4.00'' @ closing_remark"
proof -
  let ?argv = "[ascii ''benchmark'', ascii ''20'', ascii ''6'']"
  have d: "decimal 20 = ''20''" "decimal 6 = ''6''" "decimal 1 = ''1''" "decimal 10 = ''10''" by code_simp+
  have args: "argument ?argv 1 20000 = Some 20" "argument ?argv 2 5000 = Some 6"
    using read_decimal(2) [of 20] read_decimal(2) [of 6] by (simp_all add: argument_def d)
  have lines: "built_line 1 = line ''  (built with 1 SSTable(s) on disk)''"
    "built_line 10 = line ''  (built with 10 SSTable(s) on disk)''" by (simp_all add: built_line_def d [simplified])
  from benchmark_completes [of "\<lparr>files = [], script = [], stdout = [], stderr = []\<rparr>", OF _ args, of "\<lambda>i. i mod 20" "\<lambda>i. 7"
      "''1.00''" "''2.00''" "''3.00''" "''4.00''"] show ?thesis
    by (auto simp: built_of_20 [simplified] lines [simplified])
qed

end
